(* ===== verification/Prelude.thy ===== *)
theory Prelude
  imports Main
begin

text \<open>
  What the components of the development share: the console that
  \<^verbatim>\<open>examples::log_line\<close> writes to, the textual form of the values it prints, the C++
  exceptions the programs throw, and the generic lemmas on lists and maps.

  A program prints through \<open>log_line\<close> of \<^verbatim>\<open>examples/common/log.h\<close>. The function takes a
  global mutex and writes the concatenation of its arguments and a line break, so a whole
  line reaches the console at once. The console is the list of complete lines, oldest first,
  and every operation of a model that prints takes the console and returns it extended.
\<close>

section \<open>Collections of facts\<close>

named_theorems model_defs
  \<open>definitions a proof about an operation unfolds\<close>
named_theorems inv_intros
  \<open>preservation of a component's invariant by its operations\<close>
named_theorems step_rules
  \<open>one lemma per atomic step of a concurrent component\<close>

section \<open>The console\<close>

type_synonym console = "string list"

definition log_line :: "string list \<Rightarrow> console \<Rightarrow> console" where
  "log_line parts out = out @ [concat parts]"

lemma log_line_append [simp]: "log_line parts (a @ b) = a @ log_line parts b"
  by (simp add: log_line_def)

lemma length_log_line [simp]: "length (log_line parts out) = Suc (length out)"
  by (simp add: log_line_def)

lemma last_log_line [simp]: "last (log_line parts out) = concat parts"
  by (simp add: log_line_def)

lemma set_log_line [simp]: "set (log_line parts out) = insert (concat parts) (set out)"
  by (simp add: log_line_def)

section \<open>Values as text\<close>

text \<open>
  \<^verbatim>\<open>std::to_string\<close> and the stream operators print integers in decimal and a
  \<^verbatim>\<open>bool\<close> as 0 or 1 (no example sets \<^verbatim>\<open>boolalpha\<close>).
\<close>

definition digit_char :: "nat \<Rightarrow> char" where
  "digit_char d = char_of (48 + d)"

fun show_nat :: "nat \<Rightarrow> string" where
  "show_nat n = (if n < 10 then [digit_char n] else show_nat (n div 10) @ [digit_char (n mod 10)])"

declare show_nat.simps [simp del]

definition show_int :: "int \<Rightarrow> string" where
  "show_int i = (if i < 0 then CHR ''-'' # show_nat (nat (- i)) else show_nat (nat i))"

definition show_bool :: "bool \<Rightarrow> string" where
  "show_bool b = (if b then ''1'' else ''0'')"

text \<open>The decimal text determines the number: \<open>read_nat\<close> reads it back.\<close>

definition char_digit :: "char \<Rightarrow> nat" where
  "char_digit c = of_char c - 48"

definition read_nat :: "string \<Rightarrow> nat" where
  "read_nat = foldl (\<lambda>acc c. 10 * acc + char_digit c) 0"

lemma char_digit_digit_char [simp]: "d < 10 \<Longrightarrow> char_digit (digit_char d) = d"
  by (simp add: char_digit_def digit_char_def)

lemma of_char_digit_char: "d < 10 \<Longrightarrow> of_char (digit_char d) = 48 + d"
  by (simp add: digit_char_def)

lemma read_nat_show_nat [simp]: "read_nat (show_nat n) = n"
proof (induction n rule: show_nat.induct)
  case (1 n)
  then show ?case
    by (cases "n < 10") (simp_all add: show_nat.simps [of n] read_nat_def)
qed

lemma show_nat_inject [simp]: "show_nat m = show_nat n \<longleftrightarrow> m = n"
  using read_nat_show_nat by metis

lemma show_nat_not_Nil [simp]: "show_nat n \<noteq> []"
  by (subst show_nat.simps) simp

definition is_digit :: "char \<Rightarrow> bool" where
  "is_digit c \<longleftrightarrow> of_char c \<in> {48..<58::nat}"

lemma show_nat_digits: "c \<in> set (show_nat n) \<Longrightarrow> is_digit c"
proof (induction n rule: show_nat.induct)
  case (1 n)
  show ?case
  proof (cases "n < 10")
    case True
    with "1.prems" show ?thesis
      by (simp add: show_nat.simps [of n] is_digit_def of_char_digit_char)
  next
    case False
    with "1.prems" "1.IH" show ?thesis
      by (auto simp: show_nat.simps [of n] is_digit_def of_char_digit_char)
  qed
qed

lemma show_nat_hd_not_minus: "hd (show_nat n) \<noteq> CHR ''-''"
proof
  assume "hd (show_nat n) = CHR ''-''"
  then have "CHR ''-'' \<in> set (show_nat n)"
    by (metis hd_in_set show_nat_not_Nil)
  then show False
    using show_nat_digits by (fastforce simp: is_digit_def)
qed

lemma show_nat_no_sign [simp]:
  "show_nat m \<noteq> CHR ''-'' # xs" "CHR ''-'' # xs \<noteq> show_nat m"
  using show_nat_hd_not_minus [of m] by (metis list.sel(1))+

lemma show_int_inject [simp]: "show_int i = show_int j \<longleftrightarrow> i = j"
  by (auto simp: show_int_def)

fun read_int :: "string \<Rightarrow> int" where
  "read_int [] = 0"
| "read_int (c # s) = (if c = CHR ''-'' then - int (read_nat s) else int (read_nat (c # s)))"

lemma read_int_show_int [simp]: "read_int (show_int i) = i"
proof (cases "i < 0")
  case False
  then obtain c s where cs: "show_int i = c # s" and "show_nat (nat i) = c # s"
    by (cases "show_nat (nat i)") (auto simp: show_int_def)
  moreover have "c \<noteq> CHR ''-''" using calculation show_nat_hd_not_minus [of "nat i"] by auto
  ultimately show ?thesis using False by (metis int_nat_eq linorder_not_less read_int.simps(2) read_nat_show_nat)
qed (simp add: show_int_def)

text \<open>\<open>expect p s\<close> is what follows the text \<open>p\<close> at the beginning of \<open>s\<close>.\<close>

definition expect :: "string \<Rightarrow> string \<Rightarrow> string option" where
  "expect p s = (if take (length p) s = p then Some (drop (length p) s) else None)"

lemma expect_append [simp]: "expect p (p @ s) = Some s"
  by (simp add: expect_def)

section \<open>Exceptions\<close>

text \<open>
  The exception classes the programs throw, each with its \<^verbatim>\<open>what()\<close> text. An operation that
  may throw returns \<open>cpp_exn + 'a\<close>, with \<open>Inl\<close> for the exception.
\<close>

datatype cpp_exn =
    Runtime_error string
  | Invalid_argument string
  | Out_of_range string
  | Bad_alloc

fun what :: "cpp_exn \<Rightarrow> string" where
  "what (Runtime_error s) = s"
| "what (Invalid_argument s) = s"
| "what (Out_of_range s) = s"
| "what Bad_alloc = ''std::bad_alloc''"

section \<open>Lists and maps\<close>

lemma foldl_log_line_map:
  "foldl (\<lambda>out x. log_line (f x) out) out xs = out @ map (\<lambda>x. concat (f x)) xs"
  by (induction xs arbitrary: out) (simp_all add: log_line_def)

lemma sum_list_list_update:
  "k < length xs \<Longrightarrow> sum_list (xs[k := (x::int)]) = sum_list xs - xs ! k + x"
  by (induction xs arbitrary: k) (auto split: nat.split)

lemma dom_fold_map_upd:
  "dom (fold (\<lambda>x m. m(f x \<mapsto> g x)) xs m) = dom m \<union> f ` set xs"
  by (induction xs arbitrary: m) auto

lemma count_distinct: "distinct xs \<Longrightarrow> count_list xs x = (if x \<in> set xs then 1 else 0)"
  by (induction xs) auto

end
