(* ===== verification/Concurrency.thy ===== *)
theory Concurrency
  imports Prelude
begin

text \<open>
  The threading facilities of the C++ standard library, as far as the programs use them.

  Threads are numbered by \<open>tid\<close>. A system of threads keeps the control state of each one in
  a function \<open>tid \<Rightarrow> 't\<close>; the atomic steps are critical sections, so the relation of a
  component has one rule per section. A thread blocked in \<^verbatim>\<open>condition_variable::wait\<close> has a
  control state of its own, and a notification moves it to the state in which it competes
  for the mutex again. \<open>notify_one_to\<close> is the choice a \<^verbatim>\<open>notify_one\<close> makes: one of the
  blocked threads if there is any, none otherwise. A spurious wake-up is a rule of the
  component like any other.

  \<open>cnt\<close> counts the threads in a class of control states. The locale \<open>wakeup_protocol\<close> is
  the contract of a condition variable whose notifications are never lost: whoever proves
  its one law for an invariant gets the facts that rule out a stranded waiter.
\<close>

type_synonym tid = nat

section \<open>Counting threads\<close>

definition cnt :: "('t \<Rightarrow> bool) \<Rightarrow> (tid \<Rightarrow> 't) \<Rightarrow> nat" where
  "cnt P f = card {t. P (f t)}"

definition fin :: "('t \<Rightarrow> bool) \<Rightarrow> (tid \<Rightarrow> 't) \<Rightarrow> bool" where
  "fin P f \<longleftrightarrow> finite {t. P (f t)}"

lemma upd_in: "P x \<Longrightarrow> {t. P ((f(u := x)) t)} = insert u ({t. P (f t)} - {u})"
  by auto

lemma upd_out: "\<not> P x \<Longrightarrow> {t. P ((f(u := x)) t)} = {t. P (f t)} - {u}"
  by auto

lemma fin_upd [simp]: "fin P (f(u := x)) \<longleftrightarrow> fin P f"
proof (cases "P x")
  case True
  show ?thesis
    unfolding fin_def upd_in [of P, OF True] by simp
next
  case False
  show ?thesis
    unfolding fin_def upd_out [of P, OF False] by (simp only: finite_Diff2 finite.emptyI finite_insert)
qed

lemma cnt_upd:
  assumes "fin P f"
  shows "cnt P (f(u := x)) = cnt P f - of_bool (P (f u)) + of_bool (P x)"
proof -
  have rest: "card ({t. P (f t)} - {u}) = cnt P f - of_bool (P (f u))"
    unfolding card_Diff_singleton_if cnt_def by simp
  have fin: "finite ({t. P (f t)} - {u})"
    using assms unfolding fin_def by (rule finite_Diff)
  show ?thesis
  proof (cases "P x")
    case True
    have "card (insert u ({t. P (f t)} - {u})) = Suc (card ({t. P (f t)} - {u}))"
      using fin by (rule card_insert_disjoint) blast
    with True rest show ?thesis
      unfolding cnt_def [of P "f(u := x)"] upd_in [of P, OF True] by simp
  next
    case False
    with rest show ?thesis
      unfolding cnt_def [of P "f(u := x)"] upd_out [of P, OF False] by simp
  qed
qed

lemma cnt_pos: "fin P f \<Longrightarrow> P (f u) \<Longrightarrow> 0 < cnt P f"
  unfolding cnt_def fin_def by (auto simp: card_gt_0_iff)

lemma cnt_posD: "0 < cnt P f \<Longrightarrow> \<exists>u. P (f u)"
  unfolding cnt_def by (auto simp: card_gt_0_iff)

lemma cnt_zero_iff: "fin P f \<Longrightarrow> cnt P f = 0 \<longleftrightarrow> (\<forall>u. \<not> P (f u))"
  unfolding cnt_def fin_def by auto

lemma cnt_mono: "fin Q f \<Longrightarrow> (\<And>t. P (f t) \<Longrightarrow> Q (f t)) \<Longrightarrow> cnt P f \<le> cnt Q f"
  unfolding cnt_def fin_def by (intro card_mono) auto

lemma fin_mono: "fin Q f \<Longrightarrow> (\<And>x. P x \<Longrightarrow> Q x) \<Longrightarrow> fin P f"
  unfolding fin_def by (erule rev_finite_subset) auto

lemma cnt_const_False [simp]: "\<not> P x \<Longrightarrow> cnt P (\<lambda>_. x) = 0"
  by (simp add: cnt_def)

lemma fin_const_False [simp]: "\<not> P x \<Longrightarrow> fin P (\<lambda>_. x)"
  by (simp add: fin_def)

text \<open>A quantity summed over the threads, when one of them moves.\<close>

lemma sum_one_moves:
  assumes "finite A" and "t \<in> A" and "\<And>u. u \<in> A \<Longrightarrow> u \<noteq> t \<Longrightarrow> g' u = g u"
  shows "sum g' A + g t = sum g A + (g' t :: 'b::comm_monoid_add)"
proof -
  have "sum g' (A - {t}) = sum g (A - {t})"
    using assms(3) by (intro sum.cong) auto
  then show ?thesis
    using assms(1,2) by (simp add: sum.remove [of A t] ac_simps)
qed

section \<open>Notification\<close>

text \<open>
  \<open>notify_one_to W g f f'\<close>: a \<^verbatim>\<open>notify_one\<close> on the condition variable whose blocked threads
  are those with \<open>W (f u)\<close>; \<open>g\<close> is the move from the blocked state to the one that competes
  for the mutex. With no blocked thread the notification has no effect.
\<close>

inductive notify_one_to ::
  "('t \<Rightarrow> bool) \<Rightarrow> ('t \<Rightarrow> 't) \<Rightarrow> (tid \<Rightarrow> 't) \<Rightarrow> (tid \<Rightarrow> 't) \<Rightarrow> bool" for W g f where
  wake_one: "W (f u) \<Longrightarrow> notify_one_to W g f (f(u := g (f u)))"
| wake_none: "\<forall>u. \<not> W (f u) \<Longrightarrow> notify_one_to W g f f"

definition notify_all :: "('t \<Rightarrow> bool) \<Rightarrow> ('t \<Rightarrow> 't) \<Rightarrow> (tid \<Rightarrow> 't) \<Rightarrow> (tid \<Rightarrow> 't)" where
  "notify_all W g f = (\<lambda>u. if W (f u) then g (f u) else f u)"

lemma notify_one_total: "\<exists>f'. notify_one_to W g f f'"
  by (cases "\<exists>u. W (f u)") (auto intro: notify_one_to.intros)

lemma fin_notify_all:
  assumes "fin P f" and "\<And>x. W x \<Longrightarrow> P (g x) \<Longrightarrow> P x"
  shows "fin P (notify_all W g f)"
  using assms(1) unfolding fin_def by (rule rev_finite_subset) (auto simp: notify_all_def dest: assms(2))

lemma cnt_notify_all:
  assumes "\<And>x. W x \<Longrightarrow> P (g x) \<longleftrightarrow> P x"
  shows "cnt P (notify_all W g f) = cnt P f"
proof -
  have "{t. P (notify_all W g f t)} = {t. P (f t)}"
    using assms by (auto simp: notify_all_def)
  then show ?thesis by (simp add: cnt_def)
qed

lemma cnt_notify_all_0:
  assumes "\<And>x. \<not> W x \<Longrightarrow> \<not> P x" and "\<And>x. W x \<Longrightarrow> \<not> P (g x)"
  shows "cnt P (notify_all W g f) = 0"
proof -
  have "{t. P (notify_all W g f t)} = {}"
    using assms by (auto simp: notify_all_def)
  then show ?thesis by (simp add: cnt_def)
qed

text \<open>The choice an executable scheduler makes: the first blocked thread of a list.\<close>

definition wake_first :: "('t \<Rightarrow> bool) \<Rightarrow> ('t \<Rightarrow> 't) \<Rightarrow> tid list \<Rightarrow> (tid \<Rightarrow> 't) \<Rightarrow> (tid \<Rightarrow> 't)" where
  "wake_first W g ts f = (case find (\<lambda>u. W (f u)) ts of None \<Rightarrow> f | Some u \<Rightarrow> f(u := g (f u)))"

lemma wake_first_sound:
  assumes "\<And>u. W (f u) \<Longrightarrow> u \<in> set ts"
  shows "notify_one_to W g f (wake_first W g ts f)"
proof (cases "find (\<lambda>u. W (f u)) ts")
  case None
  with assms have "\<forall>u. \<not> W (f u)" by (auto simp: find_None_iff)
  with None show ?thesis by (simp add: wake_first_def wake_none)
next
  case (Some u)
  then have "W (f u)" by (auto simp: find_Some_iff)
  with Some show ?thesis by (simp add: wake_first_def wake_one)
qed

section \<open>The contract of a condition variable\<close>

text \<open>
  \<open>waiting s\<close> are the threads blocked on the condition variable, \<open>ready s\<close> those awake and
  competing for the mutex on the same condition, \<open>avail s\<close> how many of them the protected
  data can serve. The law says that as long as anybody is blocked, there are at least as
  many awake threads as there is work for.
\<close>

locale wakeup_protocol =
  fixes good :: "'s \<Rightarrow> bool"
    and waiting :: "'s \<Rightarrow> tid set"
    and ready :: "'s \<Rightarrow> tid set"
    and avail :: "'s \<Rightarrow> nat"
  assumes enough_awake: "good s \<Longrightarrow> waiting s \<noteq> {} \<Longrightarrow> avail s \<le> card (ready s)"
begin

lemma not_stranded:
  assumes "good s" and "u \<in> waiting s" and "0 < avail s"
  shows "\<exists>v. v \<in> ready s"
proof -
  from assms(2) have "waiting s \<noteq> {}" by auto
  with assms enough_awake [of s] have "0 < card (ready s)" by auto
  then show ?thesis by (auto simp: card_gt_0_iff)
qed

lemma idle_means_no_work:
  assumes "good s" and "ready s = {}" and "waiting s \<noteq> {}"
  shows "avail s = 0"
  using enough_awake [OF assms(1,3)] assms(2) by simp

end

end
