(* ===== verification/ConsoleLock.thy ===== *)
theory ConsoleLock
  imports Concurrency
begin

text \<open>
  \<^verbatim>\<open>examples::log_line\<close> of \<^verbatim>\<open>examples/common/log.h\<close> action by action: a caller takes the mutex
  \<^verbatim>\<open>log_mutex()\<close> through a \<^verbatim>\<open>lock_guard\<close>, puts the characters of its arguments into the stream
  one after the other, then a line break, and the guard gives the mutex back. Any number of
  threads, each with its own sequence of calls, act in any order.

  Proved: this refines the atomic \<open>log_line\<close> of the prelude. Whatever the schedule, the stream
  is the text of the console that results from the calls made one after the other, each thread's
  in its own order; the calls all get through, and nothing else is needed for it. This is what
  lets the other theories treat a call of \<^verbatim>\<open>log_line\<close> as one step.
\<close>

section \<open>The function\<close>

text \<open>\<open>calls\<close> are the argument lists a thread has still to log, \<open>pos\<close> where it is in the function.\<close>

datatype log_pos = Outside | Printing "string list" | Broken_line

record caller =
  calls :: "string list list"
  pos :: log_pos

record log_state =
  holder :: "tid option"
  stream :: string
  callers :: "caller list"

definition line_break :: char where
  "line_break = CHR 0x0A"

text \<open>One action of thread \<open>t\<close>, \<open>None\<close> when it waits for the mutex or has nothing left to log.\<close>

definition log_action :: "tid \<Rightarrow> log_state \<Rightarrow> log_state option" where
  "log_action t s = (if t < length (callers s) then
     let c = callers s ! t; set_caller = (\<lambda>c' s. s\<lparr>callers := (callers s)[t := c']\<rparr>)
     in case pos c of
       Outside \<Rightarrow> (case calls c of
           [] \<Rightarrow> None
         | parts # rest \<Rightarrow> (if holder s = None
             then Some (set_caller \<lparr>calls = rest, pos = Printing parts\<rparr> (s\<lparr>holder := Some t\<rparr>)) else None))
     | Printing ((ch # part) # parts) \<Rightarrow>
         Some (set_caller (c\<lparr>pos := Printing (part # parts)\<rparr>) (s\<lparr>stream := stream s @ [ch]\<rparr>))
     | Printing ([] # parts) \<Rightarrow> Some (set_caller (c\<lparr>pos := Printing parts\<rparr>) s)
     | Printing [] \<Rightarrow> Some (set_caller (c\<lparr>pos := Broken_line\<rparr>) (s\<lparr>stream := stream s @ [line_break]\<rparr>))
     | Broken_line \<Rightarrow> Some (set_caller (c\<lparr>pos := Outside\<rparr>) (s\<lparr>holder := None\<rparr>))
   else None)"

fun log_run :: "tid list \<Rightarrow> log_state \<Rightarrow> log_state option" where
  "log_run [] s = Some s"
| "log_run (t # ts) s = Option.bind (log_action t s) (log_run ts)"

definition log_init :: "string list list list \<Rightarrow> log_state" where
  "log_init progs = \<lparr>holder = None, stream = [], callers = map (\<lambda>p. \<lparr>calls = p, pos = Outside\<rparr>) progs\<rparr>"

section \<open>The atomic calls\<close>

text \<open>The text of a console, and the console of the calls of a history, which also says who made
  them.\<close>

definition console_text :: "console \<Rightarrow> string" where
  "console_text con = concat (map (\<lambda>l. l @ [line_break]) con)"

type_synonym history = "(tid \<times> string list) list"

definition atomic_console :: "history \<Rightarrow> console" where
  "atomic_console hist = fold (\<lambda>(t, parts). log_line parts) hist []"

definition calls_of :: "tid \<Rightarrow> history \<Rightarrow> string list list" where
  "calls_of t hist = map snd (filter (\<lambda>(u, _). u = t) hist)"

lemma atomic_console_snoc [simp]:
  "atomic_console (hist @ [(t, parts)]) = atomic_console hist @ [concat parts]"
  by (simp add: atomic_console_def log_line_def)

lemma atomic_console_Nil [simp]: "atomic_console [] = []"
  by (simp add: atomic_console_def)

lemma console_text_append [simp]: "console_text (a @ b) = console_text a @ console_text b"
  by (simp add: console_text_def)

lemma console_text_simps [simp]: "console_text [] = []" "console_text [l] = l @ [line_break]"
  by (simp_all add: console_text_def)

lemma calls_of_simps [simp]: "calls_of t [] = []"
    "calls_of t (hist @ [(u, parts)]) = calls_of t hist @ (if u = t then [parts] else [])"
  by (simp_all add: calls_of_def)

section \<open>The refinement\<close>

text \<open>What the caller with the mutex has still to print: a call takes effect in the history when
  the mutex is taken.\<close>

fun pending :: "log_pos \<Rightarrow> string" where
  "pending Outside = []"
| "pending (Printing parts) = concat parts @ [line_break]"
| "pending Broken_line = []"

definition refines :: "string list list list \<Rightarrow> history \<Rightarrow> log_state \<Rightarrow> bool" where
  "refines progs hist s \<longleftrightarrow> length (callers s) = length progs \<and>
     (\<forall>t<length progs. calls_of t hist @ calls (callers s ! t) = progs ! t \<and>
        (pos (callers s ! t) \<noteq> Outside \<longleftrightarrow> holder s = Some t)) \<and>
     (\<forall>t. holder s = Some t \<longrightarrow> t < length progs) \<and>
     stream s @ (case holder s of None \<Rightarrow> [] | Some t \<Rightarrow> pending (pos (callers s ! t))) =
       console_text (atomic_console hist)"

lemma refines_init: "refines progs [] (log_init progs)"
  by (simp add: refines_def log_init_def)

lemma log_action_cases:
  assumes "log_action t s = Some s'"
  obtains (lock) parts rest where "t < length (callers s)" "callers s ! t = \<lparr>calls = parts # rest, pos = Outside\<rparr>"
      "holder s = None"
      "s' = s\<lparr>holder := Some t, callers := (callers s)[t := \<lparr>calls = rest, pos = Printing parts\<rparr>]\<rparr>"
    | (put) cs ch part parts where "t < length (callers s)"
      "callers s ! t = \<lparr>calls = cs, pos = Printing ((ch # part) # parts)\<rparr>"
      "s' = s\<lparr>stream := stream s @ [ch], callers := (callers s)[t := \<lparr>calls = cs, pos = Printing (part # parts)\<rparr>]\<rparr>"
    | (next_part) cs parts where "t < length (callers s)" "callers s ! t = \<lparr>calls = cs, pos = Printing ([] # parts)\<rparr>"
      "s' = s\<lparr>callers := (callers s)[t := \<lparr>calls = cs, pos = Printing parts\<rparr>]\<rparr>"
    | (line_break) cs where "t < length (callers s)" "callers s ! t = \<lparr>calls = cs, pos = Printing []\<rparr>"
      "s' = s\<lparr>stream := stream s @ [line_break], callers := (callers s)[t := \<lparr>calls = cs, pos = Broken_line\<rparr>]\<rparr>"
    | (unlock) cs where "t < length (callers s)" "callers s ! t = \<lparr>calls = cs, pos = Broken_line\<rparr>"
      "s' = s\<lparr>holder := None, callers := (callers s)[t := \<lparr>calls = cs, pos = Outside\<rparr>]\<rparr>"
proof -
  obtain cs p where c: "callers s ! t = \<lparr>calls = cs, pos = p\<rparr>" by (cases "callers s ! t")
  from assms have t: "t < length (callers s)" by (simp add: log_action_def split: if_splits)
  show ?thesis
  proof (cases p)
    case Outside
    with assms t c lock show ?thesis
      by (cases cs) (auto simp: log_action_def split: if_splits)
  next
    case (Printing parts)
    show ?thesis
    proof (cases parts)
      case Nil
      with assms t c Printing line_break show ?thesis by (auto simp: log_action_def)
    next
      case (Cons part rest)
      with assms t c Printing put next_part show ?thesis
        by (cases part) (auto simp: log_action_def)
    qed
  next
    case Broken_line
    with assms t c unlock show ?thesis by (auto simp: log_action_def)
  qed
qed

text \<open>Taking the mutex appends the call to the history; every other action leaves it as it is.\<close>

lemma log_action_refines:
  assumes "refines progs hist s" and "log_action t s = Some s'"
  shows "\<exists>ext. refines progs (hist @ ext) s'"
  using assms(2)
proof (cases rule: log_action_cases)
  case (lock parts rest)
  have "refines progs (hist @ [(t, parts)]) s'"
    using assms(1) lock by (auto simp: refines_def nth_list_update)
  then show ?thesis ..
next
  case (put cs ch part parts)
  then have "holder s = Some t" using assms(1) by (auto simp: refines_def)
  with put assms(1) have "refines progs (hist @ []) s'" by (auto simp: refines_def nth_list_update)
  then show ?thesis ..
next
  case (next_part cs parts)
  then have "holder s = Some t" using assms(1) by (auto simp: refines_def)
  with next_part assms(1) have "refines progs (hist @ []) s'" by (auto simp: refines_def nth_list_update)
  then show ?thesis ..
next
  case (line_break cs)
  then have "holder s = Some t" using assms(1) by (auto simp: refines_def)
  with line_break assms(1) have "refines progs (hist @ []) s'" by (auto simp: refines_def nth_list_update)
  then show ?thesis ..
next
  case (unlock cs)
  then have "holder s = Some t" using assms(1) by (auto simp: refines_def)
  with unlock assms(1) have "refines progs (hist @ []) s'" by (auto simp: refines_def nth_list_update)
  then show ?thesis ..
qed

lemma log_run_refines: "refines progs hist s \<Longrightarrow> log_run ts s = Some s' \<Longrightarrow> \<exists>hist'. refines progs hist' s'"
proof (induction ts arbitrary: hist s)
  case (Cons t ts)
  then obtain s1 where "log_action t s = Some s1" "log_run ts s1 = Some s'"
    by (auto simp: Option.bind_eq_Some_conv)
  moreover from log_action_refines [OF Cons.prems(1) this(1)] obtain ext where "refines progs (hist @ ext) s1" ..
  ultimately show ?case by (intro Cons.IH)
qed auto

section \<open>Every call gets through\<close>

text \<open>The actions a thread has still to take: three for each call, one for each argument and one
  for each character.\<close>

definition call_cost :: "string list \<Rightarrow> nat" where
  "call_cost parts = length (concat parts) + length parts + 3"

fun pos_cost :: "log_pos \<Rightarrow> nat" where
  "pos_cost Outside = 0"
| "pos_cost (Printing parts) = length (concat parts) + length parts + 2"
| "pos_cost Broken_line = 1"

definition cost :: "caller \<Rightarrow> nat" where
  "cost c = sum_list (map call_cost (calls c)) + pos_cost (pos c)"

definition total_cost :: "log_state \<Rightarrow> nat" where
  "total_cost s = sum_list (map cost (callers s))"

lemma cost_moves:
  "t < length cs \<Longrightarrow> sum_list (map cost (cs[t := c])) + cost (cs ! t) = sum_list (map cost cs) + cost c"
proof (induction cs arbitrary: t)
  case (Cons d cs)
  then show ?case by (cases t) auto
qed simp

lemma cost_update:
  "t < length cs \<Longrightarrow> cost (cs ! t) = Suc (cost c) \<Longrightarrow> sum_list (map cost cs) = Suc (sum_list (map cost (cs[t := c])))"
  using cost_moves [of t cs c] by linarith

lemma log_action_cost: "log_action t s = Some s' \<Longrightarrow> total_cost s = Suc (total_cost s')"
  by (erule log_action_cases) (simp_all add: total_cost_def, (rule cost_update; simp add: cost_def call_cost_def)+)

lemma log_run_cost: "log_run ts s = Some s' \<Longrightarrow> total_cost s = length ts + total_cost s'"
  by (induction ts arbitrary: s) (auto simp: Option.bind_eq_Some_conv dest!: log_action_cost)

text \<open>As long as there is something to log some thread can act: the one with the mutex, or any
  that has a call to make.\<close>

lemma log_progress:
  assumes "refines progs hist s" and "\<forall>t. log_action t s = None"
  shows "holder s = None \<and> (\<forall>t<length progs. calls (callers s ! t) = [])"
proof -
  have l: "length (callers s) = length progs" using assms(1) by (simp add: refines_def)
  have h: "holder s = None"
  proof (rule ccontr)
    assume "holder s \<noteq> None"
    then obtain t where "holder s = Some t" by blast
    with assms(1) have "t < length progs" "pos (callers s ! t) \<noteq> Outside" by (auto simp: refines_def)
    moreover have "log_action t s = None" using assms(2) by blast
    ultimately show False
      using l by (auto simp: log_action_def Let_def split: log_pos.splits list.splits)
  qed
  have "calls (callers s ! t) = []" if "t < length progs" for t
  proof -
    have "pos (callers s ! t) = Outside" using assms(1) h that by (auto simp: refines_def)
    moreover have "log_action t s = None" using assms(2) by blast
    ultimately show ?thesis using l h that by (auto simp: log_action_def Let_def split: list.splits)
  qed
  with h show ?thesis by blast
qed

section \<open>The property\<close>

text \<open>C22. \<^verbatim>\<open>log_line\<close> is atomic. For any threads with any calls to make and any schedule, the calls
  that have taken the mutex, in that order, are a history in which each thread's calls are a
  beginning of its own sequence; the stream is the text of the console these calls give one
  after the other with the atomic \<open>log_line\<close>, short of what the one inside has still to print;
  the number of actions left is fixed by the calls alone; and when no thread can act any more
  every call has been made and the stream is exactly that text.\<close>

theorem log_line_atomic:
  assumes "log_run ts (log_init progs) = Some s"
  shows "\<exists>hist. (\<forall>t<length progs. calls_of t hist @ calls (callers s ! t) = progs ! t) \<and>
    (\<exists>rest. stream s @ rest = console_text (atomic_console hist) \<and> (holder s = None \<longrightarrow> rest = [])) \<and>
    total_cost (log_init progs) = length ts + total_cost s \<and>
    ((\<forall>t. log_action t s = None) \<longrightarrow> stream s = console_text (atomic_console hist) \<and>
      (\<forall>t<length progs. calls_of t hist = progs ! t))"
proof -
  obtain hist where r: "refines progs hist s" using log_run_refines [OF refines_init assms] by blast
  moreover have "stream s = console_text (atomic_console hist) \<and> (\<forall>t<length progs. calls_of t hist = progs ! t)"
    if "\<forall>t. log_action t s = None"
    using log_progress [OF r that] r by (auto simp: refines_def)
  moreover note log_run_cost [OF assms]
  ultimately show ?thesis by (intro exI [of _ hist]) (auto simp: refines_def split: option.splits)
qed

text \<open>Two threads: the second waits for the mutex while the first prints its two arguments.\<close>

definition two_callers :: "string list list list" where
  "two_callers = [[[''a'', ''b'']], [[''c'']]]"

theorem log_line_atomic_witness:
  "\<exists>s hist. log_run ([0, 0, 0] @ [0, 0, 0] @ [0, 1, 1, 1, 1, 1]) (log_init two_callers) = Some s \<and>
     calls_of 0 hist = [[''a'', ''b'']] \<and> calls_of 1 hist = [[''c'']] \<and> stream s = console_text (atomic_console hist) \<and>
     stream s = ''ab'' @ [line_break] @ ''c'' @ [line_break] \<and> log_action 1 (the (log_run [0] (log_init two_callers))) = None"
proof -
  have ev: "case log_run ([0, 0, 0] @ [0, 0, 0] @ [0, 1, 1, 1, 1, 1]) (log_init two_callers) of None \<Rightarrow> False
    | Some s \<Rightarrow> holder s = None \<and> map calls (callers s) = [[], []] \<and> map pos (callers s) = [Outside, Outside] \<and>
        stream s = ''ab'' @ [line_break] @ ''c'' @ [line_break]"
    by code_simp
  then obtain s where s: "log_run ([0, 0, 0] @ [0, 0, 0] @ [0, 1, 1, 1, 1, 1]) (log_init two_callers) = Some s"
    by (auto split: option.splits)
  from ev s have c: "callers s = [\<lparr>calls = [], pos = Outside\<rparr>, \<lparr>calls = [], pos = Outside\<rparr>]"
    by (auto simp: map_eq_Cons_conv intro: caller.equality)
  have "\<forall>t. log_action t s = None" by (auto simp: log_action_def c nth_Cons split: nat.splits)
  with log_line_atomic [OF s] obtain hist where "stream s = console_text (atomic_console hist)"
    "\<forall>t<length two_callers. calls_of t hist = two_callers ! t" by blast
  moreover have "log_action 1 (the (log_run [0] (log_init two_callers))) = None" by code_simp
  ultimately show ?thesis using ev s by (intro exI [of _ s] exI [of _ hist]) (auto simp: two_callers_def)
qed

end
