(* ===== verification/BoundedQueue.thy ===== *)
theory BoundedQueue
  imports Concurrency
begin

text \<open>
  The blocking queue of \<^verbatim>\<open>examples/bounded_queue/main.cpp\<close>, used by any number of threads.

  \<open>bqueue\<close> is the data the mutex protects, and \<open>BoundedQueue_new\<close>, \<open>push_step\<close>,
  \<open>pop_step\<close> and \<open>close_step\<close> are the critical sections of the constructor, \<^verbatim>\<open>push\<close>,
  \<^verbatim>\<open>pop\<close> and \<^verbatim>\<open>close\<close>. \<open>tstate\<close> is where a thread is inside the class: between calls,
  competing for the mutex with a \<^verbatim>\<open>push\<close> or a \<^verbatim>\<open>pop\<close> to carry out, blocked on
  \<^verbatim>\<open>not_full_\<close> or \<^verbatim>\<open>not_empty_\<close>, about to return, or between the unlock and the two
  \<^verbatim>\<open>notify_all\<close> calls of \<^verbatim>\<open>close\<close>. \<open>mon_step\<close> has one rule per
  critical section or notification, labelled with its effect on the queue, and \<open>bq_step\<close> adds
  the calls and returns of an arbitrary client.

  Proved: the capacity bound, first-in first-out order of every interleaving, refinement of
  the sequential queue \<open>spec_step\<close>, and that no notification is lost: an interpretation of
  \<open>wakeup_protocol\<close> for each of the two condition variables.
\<close>

section \<open>The protected data\<close>

record 'a bqueue =
  items :: "'a list"
  capacity :: nat
  closed :: bool

definition BoundedQueue_new :: "nat \<Rightarrow> cpp_exn + 'a bqueue" where
  "BoundedQueue_new n =
     (if n = 0 then Inl (Invalid_argument ''capacity must be > 0'')
      else Inr \<lparr>items = [], capacity = n, closed = False\<rparr>)"

text \<open>
  The wait predicates, and what follows the wait under the same lock. \<open>push_step\<close> and
  \<open>pop_step\<close> give the value the call returns and the new data.
\<close>

definition push_ready :: "'a bqueue \<Rightarrow> bool" where
  "push_ready b \<longleftrightarrow> closed b \<or> length (items b) < capacity b"

definition pop_ready :: "'a bqueue \<Rightarrow> bool" where
  "pop_ready b \<longleftrightarrow> closed b \<or> items b \<noteq> []"

definition push_step :: "'a \<Rightarrow> 'a bqueue \<Rightarrow> bool \<times> 'a bqueue" where
  "push_step x b = (if closed b then (False, b) else (True, b\<lparr>items := items b @ [x]\<rparr>))"

fun pop_step :: "'a bqueue \<Rightarrow> 'a option \<times> 'a bqueue" where
  "pop_step b = (case items b of [] \<Rightarrow> (None, b) | x # xs \<Rightarrow> (Some x, b\<lparr>items := xs\<rparr>))"

declare pop_step.simps [simp del]

definition close_step :: "'a bqueue \<Rightarrow> 'a bqueue" where
  "close_step b = b\<lparr>closed := True\<rparr>"

section \<open>Threads inside the class\<close>

datatype 'a tstate =
    Outside
  | Push_lock 'a
  | Push_wait 'a
  | Push_ret bool
  | Pop_lock
  | Pop_wait
  | Pop_ret "'a option"
  | Close_lock
  | Close_notify_empty
  | Close_notify_full
  | Close_ret

fun is_push_lock :: "'a tstate \<Rightarrow> bool" where
  "is_push_lock (Push_lock x) = True"
| "is_push_lock t = False"

fun is_push_wait :: "'a tstate \<Rightarrow> bool" where
  "is_push_wait (Push_wait x) = True"
| "is_push_wait t = False"

fun wake_push :: "'a tstate \<Rightarrow> 'a tstate" where
  "wake_push (Push_wait x) = Push_lock x"
| "wake_push t = t"

abbreviation is_pop_lock :: "'a tstate \<Rightarrow> bool" where
  "is_pop_lock t \<equiv> t = Pop_lock"

abbreviation is_pop_wait :: "'a tstate \<Rightarrow> bool" where
  "is_pop_wait t \<equiv> t = Pop_wait"

fun wake_pop :: "'a tstate \<Rightarrow> 'a tstate" where
  "wake_pop Pop_wait = Pop_lock"
| "wake_pop t = t"

record 'a monitor =
  bq :: "'a bqueue"
  th :: "tid \<Rightarrow> 'a tstate"

text \<open>
  The effects: an item enters or leaves the queue, a call finds the queue closed, the queue
  is closed, or nothing changes in the queue.
\<close>

datatype 'a effect = Enq 'a | Rejected 'a | Deq 'a | Drained | Closing | Tau

inductive mon_step :: "'a monitor \<Rightarrow> 'a effect \<Rightarrow> 'a monitor \<Rightarrow> bool" where
  push_blocks: "th s t = Push_lock x \<Longrightarrow> \<not> push_ready (bq s) \<Longrightarrow>
    mon_step s Tau (s\<lparr>th := (th s)(t := Push_wait x)\<rparr>)"
| push_spurious: "th s t = Push_wait x \<Longrightarrow> mon_step s Tau (s\<lparr>th := (th s)(t := Push_lock x)\<rparr>)"
| push_enqueues: "th s t = Push_lock x \<Longrightarrow> push_ready (bq s) \<Longrightarrow>
    push_step x (bq s) = (True, b) \<Longrightarrow>
    notify_one_to is_pop_wait wake_pop ((th s)(t := Push_ret True)) f \<Longrightarrow>
    mon_step s (Enq x) (s\<lparr>bq := b, th := f\<rparr>)"
| push_rejected: "th s t = Push_lock x \<Longrightarrow> push_ready (bq s) \<Longrightarrow>
    push_step x (bq s) = (False, b) \<Longrightarrow>
    mon_step s (Rejected x) (s\<lparr>bq := b, th := (th s)(t := Push_ret False)\<rparr>)"
| pop_blocks: "th s t = Pop_lock \<Longrightarrow> \<not> pop_ready (bq s) \<Longrightarrow>
    mon_step s Tau (s\<lparr>th := (th s)(t := Pop_wait)\<rparr>)"
| pop_spurious: "th s t = Pop_wait \<Longrightarrow> mon_step s Tau (s\<lparr>th := (th s)(t := Pop_lock)\<rparr>)"
| pop_dequeues: "th s t = Pop_lock \<Longrightarrow> pop_ready (bq s) \<Longrightarrow>
    pop_step (bq s) = (Some x, b) \<Longrightarrow>
    notify_one_to is_push_wait wake_push ((th s)(t := Pop_ret (Some x))) f \<Longrightarrow>
    mon_step s (Deq x) (s\<lparr>bq := b, th := f\<rparr>)"
| pop_drained: "th s t = Pop_lock \<Longrightarrow> pop_ready (bq s) \<Longrightarrow>
    pop_step (bq s) = (None, b) \<Longrightarrow>
    mon_step s Drained (s\<lparr>bq := b, th := (th s)(t := Pop_ret None)\<rparr>)"
| close_sets: "th s t = Close_lock \<Longrightarrow>
    mon_step s Closing (s\<lparr>bq := close_step (bq s), th := (th s)(t := Close_notify_empty)\<rparr>)"
| close_wakes_pop: "th s t = Close_notify_empty \<Longrightarrow>
    mon_step s Tau (s\<lparr>th := notify_all is_pop_wait wake_pop ((th s)(t := Close_notify_full))\<rparr>)"
| close_wakes_push: "th s t = Close_notify_full \<Longrightarrow>
    mon_step s Tau (s\<lparr>th := notify_all is_push_wait wake_push ((th s)(t := Close_ret))\<rparr>)"

text \<open>
  The most general client: any thread that is outside may start any call, and a call that
  is done may return. \<open>bq_step\<close> is the queue under that client.
\<close>

fun call_starts :: "'a tstate \<Rightarrow> bool" where
  "call_starts (Push_lock x) = True"
| "call_starts Pop_lock = True"
| "call_starts Close_lock = True"
| "call_starts t = False"

fun call_done :: "'a tstate \<Rightarrow> bool" where
  "call_done (Push_ret r) = True"
| "call_done (Pop_ret r) = True"
| "call_done Close_ret = True"
| "call_done t = False"

inductive bq_step :: "'a monitor \<Rightarrow> 'a effect \<Rightarrow> 'a monitor \<Rightarrow> bool" where
  bq_inside: "mon_step s e s' \<Longrightarrow> bq_step s e s'"
| bq_call: "th s t = Outside \<Longrightarrow> call_starts c \<Longrightarrow> bq_step s Tau (s\<lparr>th := (th s)(t := c)\<rparr>)"
| bq_return: "call_done (th s t) \<Longrightarrow> bq_step s Tau (s\<lparr>th := (th s)(t := Outside)\<rparr>)"

text \<open>A run collects the effects other than \<open>Tau\<close>, in order.\<close>

definition visible :: "'a effect \<Rightarrow> 'a effect list" where
  "visible e = (if e = Tau then [] else [e])"

inductive bq_run :: "'a monitor \<Rightarrow> 'a effect list \<Rightarrow> 'a monitor \<Rightarrow> bool" where
  run_nil: "bq_run s [] s"
| run_step: "bq_run s es s' \<Longrightarrow> bq_step s' e s'' \<Longrightarrow> bq_run s (es @ visible e) s''"

definition bq_init :: "'a bqueue \<Rightarrow> 'a monitor" where
  "bq_init b = \<lparr>bq = b, th = (\<lambda>_. Outside)\<rparr>"

section \<open>The data\<close>

lemma push_step_open [simp]: "\<not> closed b \<Longrightarrow> push_step x b = (True, b\<lparr>items := items b @ [x]\<rparr>)"
  by (simp add: push_step_def)

lemma push_step_closed [simp]: "closed b \<Longrightarrow> push_step x b = (False, b)"
  by (simp add: push_step_def)

lemma push_step_True_iff [simp]:
  "push_step x b = (True, b') \<longleftrightarrow> \<not> closed b \<and> b' = b\<lparr>items := items b @ [x]\<rparr>"
  by (auto simp: push_step_def)

lemma push_step_False_iff [simp]: "push_step x b = (False, b') \<longleftrightarrow> closed b \<and> b' = b"
  by (auto simp: push_step_def)

lemma pop_step_None_iff [simp]: "pop_step b = (None, b') \<longleftrightarrow> items b = [] \<and> b' = b"
  by (auto simp: pop_step.simps split: list.splits)

lemma pop_step_Some_iff [simp]:
  "pop_step b = (Some x, b') \<longleftrightarrow> (\<exists>xs. items b = x # xs \<and> b' = b\<lparr>items := xs\<rparr>)"
  by (auto simp: pop_step.simps split: list.splits)

lemma close_step_simps [simp]:
  "items (close_step b) = items b" "capacity (close_step b) = capacity b" "closed (close_step b)"
  by (simp_all add: close_step_def)

section \<open>The invariant\<close>

text \<open>
  Beside the capacity bound: while the queue is open, if a thread is blocked in \<^verbatim>\<open>pop\<close> there
  are at least as many threads awake in \<^verbatim>\<open>pop\<close> as items, and if a thread is blocked in
  \<^verbatim>\<open>push\<close> there are at least as many awake in \<^verbatim>\<open>push\<close> as free places; once it is closed, a
  thread is still blocked only while the thread in \<^verbatim>\<open>close\<close> has not notified yet.
\<close>

definition free_places :: "'a bqueue \<Rightarrow> nat" where
  "free_places b = capacity b - length (items b)"

definition bounded :: "'a bqueue \<Rightarrow> bool" where
  "bounded b \<longleftrightarrow> 0 < capacity b \<and> length (items b) \<le> capacity b"

definition pop_wakeups :: "'a monitor \<Rightarrow> bool" where
  "pop_wakeups s \<longleftrightarrow> (0 < cnt is_pop_wait (th s) \<longrightarrow>
     (if closed (bq s) then 0 < cnt (\<lambda>x. x = Close_notify_empty) (th s)
      else length (items (bq s)) \<le> cnt is_pop_lock (th s)))"

definition push_wakeups :: "'a monitor \<Rightarrow> bool" where
  "push_wakeups s \<longleftrightarrow> (0 < cnt is_push_wait (th s) \<longrightarrow>
     (if closed (bq s)
      then 0 < cnt (\<lambda>x. x = Close_notify_empty) (th s) + cnt (\<lambda>x. x = Close_notify_full) (th s)
      else free_places (bq s) \<le> cnt is_push_lock (th s)))"

definition bq_inv :: "'a monitor \<Rightarrow> bool" where
  "bq_inv s \<longleftrightarrow> bounded (bq s) \<and> fin (\<lambda>x. x \<noteq> Outside) (th s) \<and> pop_wakeups s \<and> push_wakeups s"

lemma fin_inside:
  assumes "fin (\<lambda>x. x \<noteq> Outside) f"
  shows "fin is_pop_lock f" and "fin is_push_lock f" and "fin is_pop_wait f" and "fin is_push_wait f"
    and "fin (\<lambda>x. x = Close_notify_empty) f" and "fin (\<lambda>x. x = Close_notify_full) f"
  using assms by (auto intro: fin_mono)

lemma is_push_waitD: "is_push_wait x \<Longrightarrow> \<exists>y. x = Push_wait y"
  by (cases x) auto

lemma notify_pop_cases:
  assumes "notify_one_to is_pop_wait wake_pop f f'"
  obtains (woken) u where "f u = Pop_wait" and "f' = f(u := Pop_lock)"
  | (nobody) "cnt is_pop_wait f = 0" and "f' = f"
  using assms by (auto elim!: notify_one_to.cases simp: cnt_def)

lemma notify_push_cases:
  assumes "notify_one_to is_push_wait wake_push f f'"
  obtains (woken) u x where "f u = Push_wait x" and "f' = f(u := Push_lock x)"
  | (nobody) "cnt is_push_wait f = 0" and "f' = f"
  using assms by (auto elim!: notify_one_to.cases dest: is_push_waitD simp: cnt_def)

text \<open>What the two \<^verbatim>\<open>notify_all\<close> calls of \<^verbatim>\<open>close\<close> do to the numbers of threads.\<close>

lemma notify_all_pop_simps [simp]:
  "cnt is_pop_wait (notify_all is_pop_wait wake_pop f) = 0"
  "cnt is_push_wait (notify_all is_pop_wait wake_pop f) = cnt is_push_wait f"
  "cnt is_push_lock (notify_all is_pop_wait wake_pop f) = cnt is_push_lock f"
  "cnt (\<lambda>x. x = Close_notify_empty) (notify_all is_pop_wait wake_pop f) = cnt (\<lambda>x. x = Close_notify_empty) f"
  "cnt (\<lambda>x. x = Close_notify_full) (notify_all is_pop_wait wake_pop f) = cnt (\<lambda>x. x = Close_notify_full) f"
  by (rule cnt_notify_all_0 cnt_notify_all; auto)+

lemma notify_all_push_simps [simp]:
  "cnt is_push_wait (notify_all is_push_wait wake_push f) = 0"
  "cnt is_pop_wait (notify_all is_push_wait wake_push f) = cnt is_pop_wait f"
  "cnt is_pop_lock (notify_all is_push_wait wake_push f) = cnt is_pop_lock f"
  "cnt (\<lambda>x. x = Close_notify_empty) (notify_all is_push_wait wake_push f) = cnt (\<lambda>x. x = Close_notify_empty) f"
  by (rule cnt_notify_all_0 cnt_notify_all; auto dest: is_push_waitD)+

lemma fin_inside_notify_all [simp]:
  assumes "fin (\<lambda>x. x \<noteq> Outside) f"
  shows "fin (\<lambda>x. x \<noteq> Outside) (notify_all is_pop_wait wake_pop f)"
    and "fin (\<lambda>x. x \<noteq> Outside) (notify_all is_push_wait wake_push f)"
  using assms by (rule fin_notify_all; auto)+

lemma fin_notify_pop:
  "notify_one_to is_pop_wait wake_pop f f' \<Longrightarrow> fin (\<lambda>x. x \<noteq> Outside) f' \<longleftrightarrow> fin (\<lambda>x. x \<noteq> Outside) f"
  by (erule notify_pop_cases) simp_all

lemma fin_notify_push:
  "notify_one_to is_push_wait wake_push f f' \<Longrightarrow> fin (\<lambda>x. x \<noteq> Outside) f' \<longleftrightarrow> fin (\<lambda>x. x \<noteq> Outside) f"
  by (erule notify_push_cases) simp_all

lemma fin_inside_step: "bq_step s e s' \<Longrightarrow> fin (\<lambda>x. x \<noteq> Outside) (th s) \<Longrightarrow> fin (\<lambda>x. x \<noteq> Outside) (th s')"
proof (induction rule: bq_step.induct)
  case (bq_inside s e s')
  from bq_inside show ?case
  proof (induction rule: mon_step.induct)
    case (push_enqueues s t x b f)
    then show ?case by (simp add: fin_notify_pop)
  next
    case (pop_dequeues s t x b f)
    then show ?case by (simp add: fin_notify_push)
  qed simp_all
qed simp_all

lemma bounded_step: "bq_step s e s' \<Longrightarrow> bounded (bq s) \<Longrightarrow> bounded (bq s')"
proof (induction rule: bq_step.induct)
  case (bq_inside s e s')
  then show ?case
    by (induction rule: mon_step.induct) (auto simp: bounded_def push_ready_def)
qed simp_all


lemma pop_wakeups_step:
  "bq_step s e s' \<Longrightarrow> fin (\<lambda>x. x \<noteq> Outside) (th s) \<Longrightarrow> pop_wakeups s \<Longrightarrow> pop_wakeups s'"
proof (induction rule: bq_step.induct)
  case (bq_inside s e s')
  note fins = fin_inside [OF bq_inside.prems(1)]
  from bq_inside fins show ?case
  proof (induction rule: mon_step.induct)
    case (push_enqueues s t x b f)
    from push_enqueues(4) show ?case
    proof (cases rule: notify_pop_cases)
      case (woken u)
      with push_enqueues show ?thesis
        by (auto simp: pop_wakeups_def cnt_upd split: if_splits)
    next
      case nobody
      with push_enqueues show ?thesis by (simp add: pop_wakeups_def)
    qed
  next
    case (pop_dequeues s t x b f)
    from pop_dequeues(4) show ?case
    proof (cases rule: notify_push_cases)
      case (woken u y)
      with pop_dequeues show ?thesis
        by (auto simp: pop_wakeups_def cnt_upd split: if_splits)
    next
      case nobody
      with pop_dequeues show ?thesis
        by (auto simp: pop_wakeups_def cnt_upd split: if_splits)
    qed
  next
    case (pop_blocks s t)
    then show ?case by (auto simp: pop_wakeups_def pop_ready_def cnt_upd)
  qed (auto simp: pop_wakeups_def cnt_upd)
next
  case (bq_call s t c)
  note fins = fin_inside [OF bq_call.prems(1)]
  from bq_call fins show ?case
    by (cases c) (auto simp: pop_wakeups_def cnt_upd)
next
  case (bq_return s t)
  note fins = fin_inside [OF bq_return.prems(1)]
  from bq_return fins show ?case
    by (cases "th s t") (auto simp: pop_wakeups_def cnt_upd)
qed

lemma push_wakeups_step:
  "bq_step s e s' \<Longrightarrow> fin (\<lambda>x. x \<noteq> Outside) (th s) \<Longrightarrow> bounded (bq s) \<Longrightarrow> push_wakeups s \<Longrightarrow> push_wakeups s'"
proof (induction rule: bq_step.induct)
  case (bq_inside s e s')
  note fins = fin_inside [OF bq_inside.prems(1)]
  from bq_inside fins show ?case
  proof (induction rule: mon_step.induct)
    case (push_enqueues s t x b f)
    from push_enqueues(4) show ?case
    proof (cases rule: notify_pop_cases)
      case (woken u)
      with push_enqueues show ?thesis
        by (auto simp: push_wakeups_def free_places_def cnt_upd split: if_splits)
    next
      case nobody
      with push_enqueues show ?thesis
        by (auto simp: push_wakeups_def free_places_def cnt_upd split: if_splits)
    qed
  next
    case (pop_dequeues s t x b f)
    from pop_dequeues(4) show ?case
    proof (cases rule: notify_push_cases)
      case (woken u y)
      with pop_dequeues show ?thesis
        by (auto simp: push_wakeups_def free_places_def bounded_def cnt_upd split: if_splits)
    next
      case nobody
      with pop_dequeues show ?thesis by (simp add: push_wakeups_def)
    qed
  next
    case (push_blocks s t x)
    then show ?case by (auto simp: push_wakeups_def push_ready_def free_places_def cnt_upd)
  qed (auto simp: push_wakeups_def cnt_upd)
next
  case (bq_call s t c)
  note fins = fin_inside [OF bq_call.prems(1)]
  from bq_call fins show ?case
    by (cases c) (auto simp: push_wakeups_def cnt_upd)
next
  case (bq_return s t)
  note fins = fin_inside [OF bq_return.prems(1)]
  from bq_return fins show ?case
    by (cases "th s t") (auto simp: push_wakeups_def cnt_upd)
qed

lemma bq_inv_step: "bq_step s e s' \<Longrightarrow> bq_inv s \<Longrightarrow> bq_inv s'"
  by (simp add: bq_inv_def bounded_step fin_inside_step pop_wakeups_step push_wakeups_step)

section \<open>Runs from a new queue\<close>

definition bq_reaches :: "nat \<Rightarrow> 'a effect list \<Rightarrow> 'a monitor \<Rightarrow> bool" where
  "bq_reaches n es s \<longleftrightarrow> (\<exists>b. BoundedQueue_new n = Inr b \<and> bq_run (bq_init b) es s)"

lemma bq_new_iff: "BoundedQueue_new n = Inr b \<longleftrightarrow> 0 < n \<and> b = \<lparr>items = [], capacity = n, closed = False\<rparr>"
  by (auto simp: BoundedQueue_new_def)

lemma bq_inv_init: "BoundedQueue_new n = Inr b \<Longrightarrow> bq_inv (bq_init b)"
  by (auto simp: bq_new_iff bq_inv_def bq_init_def bounded_def pop_wakeups_def push_wakeups_def)

lemma bq_run_inv: "bq_run s es s' \<Longrightarrow> bq_inv s \<Longrightarrow> bq_inv s'"
  by (induction rule: bq_run.induct) (auto intro: bq_inv_step)

lemma bq_reaches_inv: "bq_reaches n es s \<Longrightarrow> bq_inv s"
  by (auto simp: bq_reaches_def dest: bq_run_inv bq_inv_init)

lemma capacity_step: "bq_step s e s' \<Longrightarrow> capacity (bq s') = capacity (bq s)"
proof (induction rule: bq_step.induct)
  case (bq_inside s e s')
  then show ?case by (induction rule: mon_step.induct) auto
qed simp_all

lemma capacity_run: "bq_run s es s' \<Longrightarrow> capacity (bq s') = capacity (bq s)"
  by (induction rule: bq_run.induct) (simp_all add: capacity_step)

lemma bq_reaches_capacity: "bq_reaches n es s \<Longrightarrow> capacity (bq s) = n"
  by (auto simp: bq_reaches_def bq_init_def bq_new_iff dest: capacity_run)

section \<open>The sequential specification\<close>

text \<open>
  What a client may rely on, without threads: a list of at most \<open>n\<close> items and a flag. An item
  is accepted only while the queue is open, a rejection or an end of data is reported only
  when it is closed, and the end of data only when nothing is left.
\<close>

inductive spec_step :: "nat \<Rightarrow> 'a list \<times> bool \<Rightarrow> 'a effect \<Rightarrow> 'a list \<times> bool \<Rightarrow> bool" for n where
  spec_enq: "length xs < n \<Longrightarrow> spec_step n (xs, False) (Enq x) (xs @ [x], False)"
| spec_rej: "spec_step n (xs, True) (Rejected x) (xs, True)"
| spec_deq: "spec_step n (x # xs, c) (Deq x) (xs, c)"
| spec_end: "spec_step n ([], True) Drained ([], True)"
| spec_close: "spec_step n (xs, c) Closing (xs, True)"

inductive spec_run :: "nat \<Rightarrow> 'a effect list \<Rightarrow> 'a list \<times> bool \<Rightarrow> bool" for n where
  spec_nil: "spec_run n [] ([], False)"
| spec_snoc: "spec_run n es p \<Longrightarrow> spec_step n p e q \<Longrightarrow> spec_run n (es @ [e]) q"

inductive_cases spec_stepE: "spec_step n p e q"

definition abs_queue :: "'a monitor \<Rightarrow> 'a list \<times> bool" where
  "abs_queue s = (items (bq s), closed (bq s))"

lemma mon_step_refines:
  "mon_step s e s' \<Longrightarrow>
   if e = Tau then abs_queue s' = abs_queue s
   else spec_step (capacity (bq s)) (abs_queue s) e (abs_queue s')"
  by (induction rule: mon_step.induct)
    (auto simp: abs_queue_def push_ready_def pop_ready_def intro: spec_step.intros)

lemma bq_step_refines:
  "bq_step s e s' \<Longrightarrow>
   if e = Tau then abs_queue s' = abs_queue s
   else spec_step (capacity (bq s)) (abs_queue s) e (abs_queue s')"
  by (induction rule: bq_step.induct) (auto dest: mon_step_refines simp: abs_queue_def)

lemma bq_run_refines:
  "bq_run s es s' \<Longrightarrow> abs_queue s = ([], False) \<Longrightarrow> spec_run (capacity (bq s)) es (abs_queue s')"
proof (induction rule: bq_run.induct)
  case (run_nil s)
  then show ?case by (simp add: spec_nil)
next
  case (run_step s es s' e s'')
  then show ?case
    using bq_step_refines [OF run_step(2)] capacity_run [OF run_step(1)]
    by (cases "e = Tau") (auto simp: visible_def intro: spec_snoc)
qed

fun enqueued :: "'a effect list \<Rightarrow> 'a list" where
  "enqueued [] = []"
| "enqueued (Enq x # es) = x # enqueued es"
| "enqueued (e # es) = enqueued es"

fun dequeued :: "'a effect list \<Rightarrow> 'a list" where
  "dequeued [] = []"
| "dequeued (Deq x # es) = x # dequeued es"
| "dequeued (e # es) = dequeued es"

lemma enqueued_append [simp]: "enqueued (es @ fs) = enqueued es @ enqueued fs"
  by (induction es rule: enqueued.induct) simp_all

lemma dequeued_append [simp]: "dequeued (es @ fs) = dequeued es @ dequeued fs"
  by (induction es rule: dequeued.induct) simp_all

lemma spec_run_fifo: "spec_run n es p \<Longrightarrow> enqueued es = dequeued es @ fst p"
  by (induction rule: spec_run.induct) (auto elim!: spec_stepE)

lemma spec_run_closed: "spec_run n es p \<Longrightarrow> snd p \<longleftrightarrow> Closing \<in> set es"
  by (induction rule: spec_run.induct) (auto elim!: spec_stepE)

lemma spec_run_drained: "spec_run n es p \<Longrightarrow> Drained \<in> set es \<Longrightarrow> p = ([], True)"
  by (induction rule: spec_run.induct) (auto elim!: spec_stepE)

lemma bq_reaches_spec: "bq_reaches n es s \<Longrightarrow> spec_run n es (abs_queue s)"
  using bq_run_refines [of "bq_init b" es s for b]
  by (fastforce simp: bq_reaches_def bq_new_iff bq_init_def abs_queue_def)

section \<open>No lost notification\<close>

interpretation not_empty: wakeup_protocol
  "\<lambda>s. bq_inv s \<and> \<not> closed (bq s)" "\<lambda>s. {u. th s u = Pop_wait}" "\<lambda>s. {u. th s u = Pop_lock}"
  "\<lambda>s. length (items (bq s))"
proof unfold_locales
  fix s :: "'a monitor"
  assume g: "bq_inv s \<and> \<not> closed (bq s)" and "{u. th s u = Pop_wait} \<noteq> {}"
  then have "0 < cnt is_pop_wait (th s)"
    by (auto simp: bq_inv_def intro: cnt_pos fin_inside)
  with g have "length (items (bq s)) \<le> cnt is_pop_lock (th s)"
    by (simp add: bq_inv_def pop_wakeups_def)
  then show "length (items (bq s)) \<le> card {u. th s u = Pop_lock}"
    by (simp add: cnt_def)
qed

interpretation not_full: wakeup_protocol
  "\<lambda>s. bq_inv s \<and> \<not> closed (bq s)" "\<lambda>s. {u. is_push_wait (th s u)}" "\<lambda>s. {u. is_push_lock (th s u)}"
  "\<lambda>s. free_places (bq s)"
proof unfold_locales
  fix s :: "'a monitor"
  assume g: "bq_inv s \<and> \<not> closed (bq s)" and "{u. is_push_wait (th s u)} \<noteq> {}"
  then have "0 < cnt is_push_wait (th s)"
    by (auto simp: bq_inv_def intro: cnt_pos fin_inside)
  with g have "free_places (bq s) \<le> cnt is_push_lock (th s)"
    by (simp add: bq_inv_def push_wakeups_def)
  then show "free_places (bq s) \<le> card {u. is_push_lock (th s u)}"
    by (simp add: cnt_def)
qed

lemma closed_waiters:
  assumes "bq_inv s" and "closed (bq s)" and "th s u = Pop_wait \<or> is_push_wait (th s u)"
  shows "\<exists>v. th s v = Close_notify_empty \<or> th s v = Close_notify_full"
proof -
  from assms(1) have fins: "fin (\<lambda>x. x \<noteq> Outside) (th s)" by (simp add: bq_inv_def)
  from assms(3) have "0 < cnt is_pop_wait (th s) \<or> 0 < cnt is_push_wait (th s)"
    using cnt_pos [OF fin_inside(3) [OF fins], of u] cnt_pos [OF fin_inside(4) [OF fins], of u] by (elim disjE) simp_all
  with assms(1,2) have "0 < cnt (\<lambda>x. x = Close_notify_empty) (th s) + cnt (\<lambda>x. x = Close_notify_full) (th s)"
    by (auto simp: bq_inv_def pop_wakeups_def push_wakeups_def)
  then show ?thesis by (auto dest!: cnt_posD)
qed

text \<open>The steps that exist in a state, from what the interpretations give.\<close>

lemma deq_possible:
  assumes "th s v = Pop_lock" and "items (bq s) \<noteq> []"
  shows "\<exists>s'. mon_step s (Deq (hd (items (bq s)))) s'"
proof -
  obtain f where f: "notify_one_to is_push_wait wake_push ((th s)(v := Pop_ret (Some (hd (items (bq s)))))) f"
    using notify_one_total by blast
  have "pop_step (bq s) = (Some (hd (items (bq s))), (bq s)\<lparr>items := tl (items (bq s))\<rparr>)"
    using assms(2) by (cases "items (bq s)") auto
  with assms f show ?thesis
    by (intro exI) (rule pop_dequeues, auto simp: pop_ready_def)
qed

lemma enq_possible:
  assumes "th s v = Push_lock y" and "\<not> closed (bq s)" and "length (items (bq s)) < capacity (bq s)"
  shows "\<exists>s'. mon_step s (Enq y) s'"
proof -
  obtain f where "notify_one_to is_pop_wait wake_pop ((th s)(v := Push_ret True)) f"
    using notify_one_total by blast
  with assms show ?thesis
    by (intro exI) (rule push_enqueues, auto simp: push_ready_def)
qed

lemma notify_possible:
  "th s v = Close_notify_empty \<or> th s v = Close_notify_full \<Longrightarrow> \<exists>s'. mon_step s Tau s'"
  using close_wakes_pop close_wakes_push by blast

lemma blocked_pop_rescued:
  assumes "bq_inv s" and "th s u = Pop_wait" and "pop_ready (bq s)"
  shows "\<exists>v s'. v \<noteq> u \<and> (th s v = Pop_lock \<and> mon_step s (Deq (hd (items (bq s)))) s' \<or>
    (th s v = Close_notify_empty \<or> th s v = Close_notify_full) \<and> mon_step s Tau s')"
proof (cases "closed (bq s)")
  case True
  with assms obtain v where "th s v = Close_notify_empty \<or> th s v = Close_notify_full"
    using closed_waiters by blast
  with assms(2) notify_possible [of s v] show ?thesis by force
next
  case False
  with assms obtain v where "th s v = Pop_lock"
    using not_empty.not_stranded [of s u] by (auto simp: pop_ready_def)
  with False assms deq_possible [of s v] show ?thesis
    by (force simp: pop_ready_def)
qed

lemma blocked_push_rescued:
  assumes "bq_inv s" and "th s u = Push_wait x" and "push_ready (bq s)"
  shows "\<exists>v y s'. v \<noteq> u \<and> (th s v = Push_lock y \<and> mon_step s (Enq y) s' \<or>
    (th s v = Close_notify_empty \<or> th s v = Close_notify_full) \<and> mon_step s Tau s')"
proof (cases "closed (bq s)")
  case True
  with assms obtain v where "th s v = Close_notify_empty \<or> th s v = Close_notify_full"
    using closed_waiters [of s u] by auto
  with assms(2) notify_possible [of s v] show ?thesis by force
next
  case False
  with assms obtain v where v: "is_push_lock (th s v)"
    using not_full.not_stranded [of s u] by (auto simp: push_ready_def free_places_def)
  then obtain y where "th s v = Push_lock y" by (cases "th s v") auto
  with False assms enq_possible [of s v y] show ?thesis
    by (force simp: push_ready_def)
qed

section \<open>Properties\<close>

text \<open>C1. In every state that any number of threads can reach, in any interleaving and with
  any spurious wake-ups, the queue holds at most as many items as the constructor was
  given, and that bound never changes.\<close>

theorem bq_never_over_capacity:
  assumes "bq_reaches n es s"
  shows "length (items (bq s)) \<le> n \<and> capacity (bq s) = n"
  using bq_reaches_inv [OF assms] bq_reaches_capacity [OF assms] by (simp add: bq_inv_def bounded_def)

text \<open>C2. First in, first out across all threads: what has been enqueued so far is what has
  been dequeued so far followed by what is in the queue, so no item is lost, duplicated or
  reordered; the order is the order of the critical sections.\<close>

theorem bq_fifo:
  assumes "bq_reaches n es s"
  shows "enqueued es = dequeued es @ items (bq s)"
  using spec_run_fifo [OF bq_reaches_spec [OF assms]] by (simp add: abs_queue_def)

text \<open>C3. Refinement: the effects of any concurrent run, in order, are a run of the sequential
  bounded queue, ending in the abstraction of the reached state.\<close>

theorem bq_refines_spec:
  assumes "bq_reaches n es s"
  shows "spec_run n es (abs_queue s)"
  using assms by (rule bq_reaches_spec)

text \<open>C4. No lost notification. Whenever a thread is blocked in \<^verbatim>\<open>pop\<close> although its condition
  holds, some other thread can move at once: while the queue is open a thread awake in
  \<^verbatim>\<open>pop\<close>, which takes the oldest item, and after \<^verbatim>\<open>close\<close> the thread that is about to
  notify. The same holds for \<^verbatim>\<open>push\<close> and a free place.\<close>

theorem bq_no_lost_wakeup:
  assumes "bq_reaches n es s"
  shows "(th s u = Pop_wait \<and> pop_ready (bq s) \<longrightarrow>
      (\<exists>v s'. v \<noteq> u \<and> (th s v = Pop_lock \<and> mon_step s (Deq (hd (items (bq s)))) s' \<or>
        (th s v = Close_notify_empty \<or> th s v = Close_notify_full) \<and> mon_step s Tau s'))) \<and>
    (th s u = Push_wait x \<and> push_ready (bq s) \<longrightarrow>
      (\<exists>v y s'. v \<noteq> u \<and> (th s v = Push_lock y \<and> mon_step s (Enq y) s' \<or>
        (th s v = Close_notify_empty \<or> th s v = Close_notify_full) \<and> mon_step s Tau s')))"
  using blocked_pop_rescued [OF bq_reaches_inv [OF assms]] blocked_push_rescued [OF bq_reaches_inv [OF assms]]
  by (intro conjI impI) (elim conjE, assumption | blast)+

section \<open>Witnesses\<close>

text \<open>
  A run on a queue of capacity 1: threads 1 and 2 enter \<^verbatim>\<open>pop\<close> and block, then thread 0
  pushes 7 and its \<^verbatim>\<open>notify_one\<close> wakes thread 2. Thread 1 is still blocked although the
  queue holds an item.
\<close>

definition demo_start :: "nat monitor" where
  "demo_start = bq_init \<lparr>items = [], capacity = 1, closed = False\<rparr>"

definition demo_blocked :: "nat monitor" where
  "demo_blocked = demo_start\<lparr>th := (\<lambda>_. Outside)(1 := Pop_wait, 2 := Pop_wait, 0 := Push_lock 7)\<rparr>"

definition demo_woken :: "nat monitor" where
  "demo_woken = \<lparr>bq = \<lparr>items = [7], capacity = 1, closed = False\<rparr>,
     th = (\<lambda>_. Outside)(1 := Pop_wait, 2 := Pop_lock, 0 := Push_ret True)\<rparr>"

lemma demo_run_blocked: "bq_run demo_start [] demo_blocked"
proof -
  let ?s1 = "demo_start\<lparr>th := (\<lambda>_. Outside)(1 := Pop_lock)\<rparr>"
  let ?s2 = "demo_start\<lparr>th := (\<lambda>_. Outside)(1 := Pop_wait)\<rparr>"
  let ?s3 = "demo_start\<lparr>th := (\<lambda>_. Outside)(1 := Pop_wait, 2 := Pop_lock)\<rparr>"
  let ?s4 = "demo_start\<lparr>th := (\<lambda>_. Outside)(1 := Pop_wait, 2 := Pop_wait)\<rparr>"
  note d = demo_start_def bq_init_def pop_ready_def
  have "bq_step demo_start Tau ?s1"
    using bq_call [of demo_start 1 Pop_lock] by (simp add: d)
  moreover have "bq_step ?s1 Tau ?s2"
    using pop_blocks [of ?s1 1] by (intro bq_inside) (simp add: d)
  moreover have "bq_step ?s2 Tau ?s3"
    using bq_call [of ?s2 2 Pop_lock] by (simp add: d)
  moreover have "bq_step ?s3 Tau ?s4"
    using pop_blocks [of ?s3 2] by (intro bq_inside) (simp add: d)
  moreover have "bq_step ?s4 Tau demo_blocked"
    using bq_call [of ?s4 0 "Push_lock 7"] by (simp add: d demo_blocked_def)
  moreover have "bq_run s [] s' \<Longrightarrow> bq_step s' Tau s'' \<Longrightarrow> bq_run s [] s''" for s s' s'' :: "nat monitor"
    using run_step [of s "[]" s' Tau s''] by (simp add: visible_def)
  ultimately show ?thesis
    using run_nil [of demo_start] by blast
qed

lemma demo_reaches: "bq_reaches 1 [Enq 7] demo_woken"
proof -
  have f: "notify_one_to is_pop_wait wake_pop ((th demo_blocked)(0 := Push_ret True)) (th demo_woken)"
    using wake_one [of is_pop_wait "(th demo_blocked)(0 := Push_ret True)" 2 wake_pop]
    by (simp add: demo_blocked_def demo_woken_def fun_upd_twist)
  have "mon_step demo_blocked (Enq 7) demo_woken"
    using push_enqueues [of demo_blocked 0 7 _ "th demo_woken", OF _ _ _ f]
    by (simp add: demo_blocked_def demo_woken_def demo_start_def bq_init_def push_ready_def)
  from run_step [OF demo_run_blocked bq_inside [OF this]]
  show ?thesis
    by (simp add: bq_reaches_def bq_new_iff demo_start_def visible_def)
qed

theorem bq_never_over_capacity_witness: "length (items (bq demo_woken)) \<le> 1 \<and> capacity (bq demo_woken) = 1"
  using bq_never_over_capacity [OF demo_reaches] .

theorem bq_fifo_witness: "enqueued [Enq (7::nat)] = dequeued [Enq (7::nat)] @ items (bq demo_woken)"
  using bq_fifo [OF demo_reaches] .

theorem bq_refines_spec_witness: "spec_run 1 [Enq 7] (abs_queue demo_woken) \<and> abs_queue demo_woken = ([7], False)"
  using bq_refines_spec [OF demo_reaches] by (simp add: abs_queue_def demo_woken_def)

theorem bq_no_lost_wakeup_witness:
  "\<exists>v s'. v \<noteq> 1 \<and> th demo_woken v = Pop_lock \<and> mon_step demo_woken (Deq 7) s'"
proof -
  have closing: "th demo_woken v \<noteq> Close_notify_empty" "th demo_woken v \<noteq> Close_notify_full" for v
    by (simp_all add: demo_woken_def)
  have "th demo_woken 1 = Pop_wait \<and> pop_ready (bq demo_woken)"
    by (simp add: demo_woken_def pop_ready_def)
  with bq_no_lost_wakeup [OF demo_reaches, of 1] closing
  show ?thesis by (auto simp: demo_woken_def)
qed

end
