(* ===== verification/BoundedQueueDemo.thy ===== *)
theory BoundedQueueDemo
  imports BoundedQueue "HOL-Library.Multiset"
begin

text \<open>
  The program around the queue in \<^verbatim>\<open>examples/bounded_queue/main.cpp\<close>: the producer and
  consumer threads, and \<^verbatim>\<open>main\<close>, which joins the producers, closes the queue, joins the
  consumers and reports the number of processed items.

  \<open>client\<close> is the position of a thread in its function; while a queue operation is under
  way the position inside it is the \<open>tstate\<close> of the monitor. A step of the program is a
  step of the monitor or a step of one thread between two queue operations. The pauses of
  the threads (\<^verbatim>\<open>sleep_for\<close>) leave the state alone and have no rule: any delay is covered,
  because any thread may be the next to move. All threads exist from the beginning, which
  adds only schedules in which a thread is slow to start.

  Proved for any capacity, any producers and at least one consumer: every request is taken
  exactly once, the reported number is the number of requests, and no reachable state is
  stuck before the program is over. \<open>demo_roles\<close> is the configuration of \<^verbatim>\<open>main\<close>.
\<close>

section \<open>The threads\<close>

datatype client =
    No_thread
  | Producer_start int int
  | Producer int int int
  | Consumer int
  | Consumer_got int int
  | Main_join_producers "tid list" "tid list"
  | Main_close "tid list"
  | Main_join_consumers "tid list"
  | Finished

record program =
  mon :: "int monitor"
  pc :: "tid \<Rightarrow> client"
  processed :: int
  out :: console

text \<open>The request number of \<^verbatim>\<open>producer\<close>.\<close>

definition req_id :: "int \<Rightarrow> int \<Rightarrow> int" where
  "req_id producer_id i = producer_id * 1000 + i"

definition set_th :: "tid \<Rightarrow> int tstate \<Rightarrow> program \<Rightarrow> program" where
  "set_th t x p = p\<lparr>mon := (mon p)\<lparr>th := (th (mon p))(t := x)\<rparr>\<rparr>"

definition set_pc :: "tid \<Rightarrow> client \<Rightarrow> program \<Rightarrow> program" where
  "set_pc t c p = p\<lparr>pc := (pc p)(t := c)\<rparr>"

definition say :: "string list \<Rightarrow> program \<Rightarrow> program" where
  "say parts p = p\<lparr>out := log_line parts (out p)\<rparr>"

lemmas program_updates = set_th_def set_pc_def say_def

inductive client_step :: "program \<Rightarrow> program \<Rightarrow> bool" where
  producer_begins: "pc p t = Producer_start k n \<Longrightarrow>
    client_step p (say [''producer-'', show_int k, '' start''] (set_pc t (Producer k 0 n) p))"
| producer_pushes: "pc p t = Producer k i n \<Longrightarrow> th (mon p) t = Outside \<Longrightarrow> i < n \<Longrightarrow>
    client_step p (set_th t (Push_lock (req_id k i)) p)"
| producer_pushed: "pc p t = Producer k i n \<Longrightarrow> th (mon p) t = Push_ret True \<Longrightarrow>
    client_step p (say [''producer-'', show_int k, '' enqueued req='', show_int (req_id k i)]
      (set_pc t (Producer k (i + 1) n) (set_th t Outside p)))"
| producer_stopped: "pc p t = Producer k i n \<Longrightarrow> th (mon p) t = Push_ret False \<Longrightarrow>
    client_step p (say [''producer-'', show_int k, '' stopped (queue closed)'']
      (set_pc t Finished (set_th t Outside p)))"
| producer_ends: "pc p t = Producer k i n \<Longrightarrow> th (mon p) t = Outside \<Longrightarrow> \<not> i < n \<Longrightarrow>
    client_step p (say [''producer-'', show_int k, '' done''] (set_pc t Finished p))"
| consumer_pops: "pc p t = Consumer k \<Longrightarrow> th (mon p) t = Outside \<Longrightarrow>
    client_step p (set_th t Pop_lock p)"
| consumer_counts: "pc p t = Consumer k \<Longrightarrow> th (mon p) t = Pop_ret (Some r) \<Longrightarrow>
    client_step p (set_pc t (Consumer_got k r) (set_th t Outside p)\<lparr>processed := processed p + 1\<rparr>)"
| consumer_logs: "pc p t = Consumer_got k r \<Longrightarrow>
    client_step p (say [''worker-'', show_int k, '' handled req='', show_int r] (set_pc t (Consumer k) p))"
| consumer_ends: "pc p t = Consumer k \<Longrightarrow> th (mon p) t = Pop_ret None \<Longrightarrow>
    client_step p (set_pc t Finished (set_th t Outside p))"
| main_joins_producer: "pc p t = Main_join_producers (u # us) cs \<Longrightarrow> pc p u = Finished \<Longrightarrow>
    client_step p (set_pc t (Main_join_producers us cs) p)"
| main_starts_close: "pc p t = Main_join_producers [] cs \<Longrightarrow> th (mon p) t = Outside \<Longrightarrow>
    client_step p (set_pc t (Main_close cs) (set_th t Close_lock p))"
| main_closed: "pc p t = Main_close cs \<Longrightarrow> th (mon p) t = Close_ret \<Longrightarrow>
    client_step p (set_pc t (Main_join_consumers cs) (set_th t Outside p))"
| main_joins_consumer: "pc p t = Main_join_consumers (u # us) \<Longrightarrow> pc p u = Finished \<Longrightarrow>
    client_step p (set_pc t (Main_join_consumers us) p)"
| main_reports: "pc p t = Main_join_consumers [] \<Longrightarrow>
    client_step p (say [''Processed '', show_int (processed p), '' items.''] (set_pc t Finished p))"

inductive prog_step :: "program \<Rightarrow> int effect \<Rightarrow> program \<Rightarrow> bool" where
  inside_queue: "mon_step (mon p) e m \<Longrightarrow> prog_step p e (p\<lparr>mon := m\<rparr>)"
| between_calls: "client_step p p' \<Longrightarrow> prog_step p Tau p'"

inductive prog_run :: "program \<Rightarrow> int effect list \<Rightarrow> program \<Rightarrow> bool" where
  prog_nil: "prog_run p [] p"
| prog_snoc: "prog_run p es p' \<Longrightarrow> prog_step p' e p'' \<Longrightarrow> prog_run p (es @ visible e) p''"

section \<open>Configurations\<close>

text \<open>
  Thread 0 is \<^verbatim>\<open>main\<close>; \<open>ps\<close> are the producer threads and \<open>cs\<close> the consumer threads, in the
  order in which \<^verbatim>\<open>main\<close> joins them.
\<close>

definition roles_ok :: "tid list \<Rightarrow> tid list \<Rightarrow> (tid \<Rightarrow> client) \<Rightarrow> bool" where
  "roles_ok ps cs f \<longleftrightarrow> cs \<noteq> [] \<and> 0 \<notin> set ps \<and> 0 \<notin> set cs \<and> set ps \<inter> set cs = {} \<and>
     f 0 = Main_join_producers ps cs \<and> (\<forall>t\<in>set ps. \<exists>k n. f t = Producer_start k n) \<and>
     (\<forall>t\<in>set cs. \<exists>k. f t = Consumer k) \<and> (\<forall>t. t \<notin> insert 0 (set ps \<union> set cs) \<longrightarrow> f t = No_thread)"

definition prog_init :: "int bqueue \<Rightarrow> (tid \<Rightarrow> client) \<Rightarrow> program" where
  "prog_init b f = \<lparr>mon = bq_init b, pc = f, processed = 0,
     out = log_line [''Bounded queue example: backpressure under load.''] []\<rparr>"

definition prog_reaches ::
  "nat \<Rightarrow> tid list \<Rightarrow> tid list \<Rightarrow> (tid \<Rightarrow> client) \<Rightarrow> int effect list \<Rightarrow> program \<Rightarrow> bool" where
  "prog_reaches n ps cs f es p \<longleftrightarrow>
     roles_ok ps cs f \<and> (\<exists>b. BoundedQueue_new n = Inr b \<and> prog_run (prog_init b f) es p)"

text \<open>The configuration of \<^verbatim>\<open>main\<close>: consumers 1 and 2, producers 1 and 2 with six items each.\<close>

definition demo_roles :: "tid \<Rightarrow> client" where
  "demo_roles = (\<lambda>_. No_thread)(0 := Main_join_producers [3, 4] [1, 2],
     1 := Consumer 1, 2 := Consumer 2, 3 := Producer_start 1 6, 4 := Producer_start 2 6)"

lemma demo_roles_ok: "roles_ok [3, 4] [1, 2] demo_roles"
  by (simp add: roles_ok_def demo_roles_def)

section \<open>The queue inside the program\<close>

lemma client_step_mon:
  "client_step p p' \<Longrightarrow> mon p' = mon p \<or> bq_step (mon p) Tau (mon p')"
proof (induction rule: client_step.induct)
  case (producer_pushes p t k i n)
  then show ?case using bq_call [of "mon p" t "Push_lock (req_id k i)"] by (simp add: program_updates)
next
  case (producer_pushed p t k i n)
  then show ?case using bq_return [of "mon p" t] by (simp add: program_updates)
next
  case (producer_stopped p t k i n)
  then show ?case using bq_return [of "mon p" t] by (simp add: program_updates)
next
  case (consumer_pops p t k)
  then show ?case using bq_call [of "mon p" t Pop_lock] by (simp add: program_updates)
next
  case (consumer_counts p t k r)
  then show ?case using bq_return [of "mon p" t] by (simp add: program_updates)
next
  case (consumer_ends p t k)
  then show ?case using bq_return [of "mon p" t] by (simp add: program_updates)
next
  case (main_closed p t cs)
  then show ?case using bq_return [of "mon p" t] by (simp add: program_updates)
next
  case (main_starts_close p t cs)
  then show ?case using bq_call [of "mon p" t Close_lock] by (simp add: program_updates)
qed (simp_all add: program_updates)

lemma prog_step_mon: "prog_step p e p' \<Longrightarrow> mon p' = mon p \<and> e = Tau \<or> bq_step (mon p) e (mon p')"
  by (induction rule: prog_step.induct) (auto dest: client_step_mon bq_inside)

lemma prog_run_mon: "prog_run p es p' \<Longrightarrow> bq_run (mon p) es (mon p')"
proof (induction rule: prog_run.induct)
  case (prog_nil p)
  show ?case by (rule run_nil)
next
  case (prog_snoc p es p' e p'')
  then show ?case
    using prog_step_mon [of p' e p''] run_step [of "mon p" es "mon p'" e "mon p''"]
    by (auto simp: visible_def)
qed

lemma prog_reaches_bq: "prog_reaches n ps cs f es p \<Longrightarrow> bq_reaches n es (mon p)"
  by (auto simp: prog_reaches_def bq_reaches_def prog_init_def dest!: prog_run_mon)

section \<open>Where the threads are\<close>

text \<open>Which positions inside the monitor go with which position in the thread's function.\<close>

fun agrees :: "client \<Rightarrow> int tstate \<Rightarrow> bool" where
  "agrees (Producer k i n) x = (x = Outside \<or>
     i < n \<and> (x = Push_lock (req_id k i) \<or> x = Push_wait (req_id k i) \<or> x = Push_ret True))"
| "agrees (Consumer k) x = (x = Outside \<or> x = Pop_lock \<or> x = Pop_wait \<or> (\<exists>r. x = Pop_ret r))"
| "agrees (Main_close cs) x =
     (x = Close_lock \<or> x = Close_notify_empty \<or> x = Close_notify_full \<or> x = Close_ret)"
| "agrees c x = (x = Outside)"

fun producing :: "client \<Rightarrow> bool" where
  "producing (Producer_start k n) = True"
| "producing (Producer k i n) = True"
| "producing c = False"

fun consuming :: "client \<Rightarrow> bool" where
  "consuming (Consumer k) = True"
| "consuming (Consumer_got k r) = True"
| "consuming c = False"

fun main_pos :: "client \<Rightarrow> bool" where
  "main_pos (Main_join_producers us vs) = True"
| "main_pos (Main_close vs) = True"
| "main_pos (Main_join_consumers us) = True"
| "main_pos c = False"

definition layout :: "tid list \<Rightarrow> tid list \<Rightarrow> bool" where
  "layout ps cs \<longleftrightarrow> cs \<noteq> [] \<and> 0 \<notin> set ps \<and> 0 \<notin> set cs \<and> set ps \<inter> set cs = {}"

definition kind_ok :: "tid list \<Rightarrow> tid list \<Rightarrow> tid \<Rightarrow> client \<Rightarrow> bool" where
  "kind_ok ps cs t c \<longleftrightarrow>
     (if t = 0 then main_pos c \<or> c = Finished
      else if t \<in> set ps then producing c \<or> c = Finished
      else if t \<in> set cs then consuming c \<or> c = Finished
      else c = No_thread)"

definition kinds_ok :: "tid list \<Rightarrow> tid list \<Rightarrow> program \<Rightarrow> bool" where
  "kinds_ok ps cs p \<longleftrightarrow> layout ps cs \<and> (\<forall>t. kind_ok ps cs t (pc p t)) \<and>
     (\<forall>t. agrees (pc p t) (th (mon p) t))"

lemma kind_ok_simps [simp]:
  "kind_ok ps cs t (Producer_start k n) \<longleftrightarrow> t \<noteq> 0 \<and> t \<in> set ps"
  "kind_ok ps cs t (Producer k i n) \<longleftrightarrow> t \<noteq> 0 \<and> t \<in> set ps"
  "kind_ok ps cs t (Consumer k) \<longleftrightarrow> t \<noteq> 0 \<and> t \<notin> set ps \<and> t \<in> set cs"
  "kind_ok ps cs t (Consumer_got k r) \<longleftrightarrow> t \<noteq> 0 \<and> t \<notin> set ps \<and> t \<in> set cs"
  "kind_ok ps cs t (Main_join_producers us vs) \<longleftrightarrow> t = 0"
  "kind_ok ps cs t (Main_close vs) \<longleftrightarrow> t = 0"
  "kind_ok ps cs t (Main_join_consumers us) \<longleftrightarrow> t = 0"
  "kind_ok ps cs t Finished \<longleftrightarrow> t = 0 \<or> t \<in> set ps \<or> t \<in> set cs"
  by (auto simp: kind_ok_def)

text \<open>How far \<^verbatim>\<open>main\<close> is, and what it has established for the others.\<close>

definition phase_ok :: "tid list \<Rightarrow> tid list \<Rightarrow> program \<Rightarrow> bool" where
  "phase_ok ps cs p \<longleftrightarrow> (case pc p 0 of
     Main_join_producers us vs \<Rightarrow> vs = cs \<and> \<not> closed (bq (mon p)) \<and> set us \<subseteq> set ps \<and>
       (\<forall>t\<in>set ps. t \<in> set us \<or> pc p t = Finished)
   | Main_close vs \<Rightarrow> vs = cs \<and> (\<forall>t\<in>set ps. pc p t = Finished) \<and>
       (closed (bq (mon p)) \<longleftrightarrow> th (mon p) 0 \<noteq> Close_lock)
   | Main_join_consumers us \<Rightarrow> closed (bq (mon p)) \<and> set us \<subseteq> set cs \<and>
       (\<forall>t\<in>set ps. pc p t = Finished) \<and> (\<forall>t\<in>set cs. t \<in> set us \<or> pc p t = Finished)
   | Finished \<Rightarrow> closed (bq (mon p)) \<and> (\<forall>t\<in>set ps \<union> set cs. pc p t = Finished)
   | _ \<Rightarrow> False)"

definition ends_ok :: "tid list \<Rightarrow> program \<Rightarrow> bool" where
  "ends_ok cs p \<longleftrightarrow> (\<forall>t\<in>set cs. pc p t = Finished \<or> th (mon p) t = Pop_ret None \<longrightarrow>
     closed (bq (mon p)) \<and> items (bq (mon p)) = [])"

lemma notify_pop_th:
  "notify_one_to is_pop_wait wake_pop f f' \<Longrightarrow> f' u = f u \<or> f u = Pop_wait \<and> f' u = Pop_lock"
  by (erule notify_pop_cases) auto

lemma notify_push_th:
  "notify_one_to is_push_wait wake_push f f' \<Longrightarrow> f' u = f u \<or> (\<exists>x. f u = Push_wait x \<and> f' u = Push_lock x)"
  by (erule notify_push_cases) auto

lemma notify_pop_other:
  "notify_one_to is_pop_wait wake_pop f f' \<Longrightarrow> x \<noteq> Pop_wait \<Longrightarrow> x \<noteq> Pop_lock \<Longrightarrow> f' u = x \<longleftrightarrow> f u = x"
  by (erule notify_pop_cases) auto

lemma notify_push_other:
  "notify_one_to is_push_wait wake_push f f' \<Longrightarrow> \<not> is_push_wait x \<Longrightarrow> \<not> is_push_lock x \<Longrightarrow>
   f' u = x \<longleftrightarrow> f u = x"
  by (erule notify_push_cases) auto

lemma notify_all_other:
  "x \<noteq> Pop_wait \<Longrightarrow> x \<noteq> Pop_lock \<Longrightarrow> notify_all is_pop_wait wake_pop f u = x \<longleftrightarrow> f u = x"
  "\<not> is_push_wait x \<Longrightarrow> \<not> is_push_lock x \<Longrightarrow> notify_all is_push_wait wake_push f u = x \<longleftrightarrow> f u = x"
  by (auto simp: notify_all_def dest: is_push_waitD)

lemma agrees_notify_pop:
  "notify_one_to is_pop_wait wake_pop f f' \<Longrightarrow> agrees c (f u) \<Longrightarrow> agrees c (f' u)"
  using notify_pop_th [of f f' u] by (cases c) auto

lemma agrees_notify_push:
  "notify_one_to is_push_wait wake_push f f' \<Longrightarrow> agrees c (f u) \<Longrightarrow> agrees c (f' u)"
  using notify_push_th [of f f' u] by (cases c) auto

text \<open>What a thread's position inside the monitor says about its role.\<close>

lemma agreesD:
  "agrees c (Push_lock x) \<Longrightarrow> \<exists>k i n. c = Producer k i n \<and> i < n \<and> x = req_id k i"
  "agrees c (Push_wait x) \<Longrightarrow> \<exists>k i n. c = Producer k i n \<and> i < n \<and> x = req_id k i"
  "agrees c (Push_ret r) \<Longrightarrow> r \<and> (\<exists>k i n. c = Producer k i n \<and> i < n)"
  "agrees c Pop_lock \<Longrightarrow> \<exists>k. c = Consumer k"
  "agrees c Pop_wait \<Longrightarrow> \<exists>k. c = Consumer k"
  "agrees c (Pop_ret y) \<Longrightarrow> \<exists>k. c = Consumer k"
  "agrees c Close_lock \<Longrightarrow> \<exists>cs. c = Main_close cs"
  "agrees c Close_notify_empty \<Longrightarrow> \<exists>cs. c = Main_close cs"
  "agrees c Close_notify_full \<Longrightarrow> \<exists>cs. c = Main_close cs"
  "agrees c Close_ret \<Longrightarrow> \<exists>cs. c = Main_close cs"
  by (cases c; simp)+

lemma closed_no_producers:
  assumes "kinds_ok ps cs p" and "phase_ok ps cs p" and "closed (bq (mon p))"
  shows "\<not> producing (pc p t)"
proof -
  have "\<forall>u\<in>set ps. pc p u = Finished"
    using assms(2,3) by (auto simp: phase_ok_def split: client.splits)
  moreover have "kind_ok ps cs t (pc p t)"
    using assms(1) by (simp add: kinds_ok_def)
  ultimately show ?thesis by (cases "pc p t") auto
qed

lemma agrees_moves:
  "agrees c (Push_lock x) \<Longrightarrow> agrees c (Push_wait x)"
  "agrees c (Push_wait x) \<Longrightarrow> agrees c (Push_lock x)"
  "agrees c (Push_lock x) \<Longrightarrow> agrees c (Push_ret True)"
  "agrees c (Push_lock x) \<Longrightarrow> producing c"
  "agrees c Pop_lock \<Longrightarrow> agrees c Pop_wait"
  "agrees c Pop_wait \<Longrightarrow> agrees c Pop_lock"
  "agrees c Pop_lock \<Longrightarrow> agrees c (Pop_ret r)"
  "agrees c Close_lock \<Longrightarrow> agrees c Close_notify_empty"
  "agrees c Close_notify_empty \<Longrightarrow> agrees c Close_notify_full"
  "agrees c Close_notify_full \<Longrightarrow> agrees c Close_ret"
  by (cases c; simp)+

lemma agrees_notify_all:
  "agrees c (f u) \<Longrightarrow> agrees c (notify_all is_pop_wait wake_pop f u)"
  "agrees c (f u) \<Longrightarrow> agrees c (notify_all is_push_wait wake_push f u)"
  by (auto simp: notify_all_def dest!: is_push_waitD intro: agrees_moves)

lemma agrees_upd: "agrees (c t) (f t) \<Longrightarrow> agrees (c u) x \<Longrightarrow> agrees (c t) ((f(u := x)) t)"
  by simp

lemma agrees_mon_step:
  assumes "mon_step m e m'" and "\<And>t. agrees (c t) (th m t)" and "\<And>t. closed (bq m) \<Longrightarrow> \<not> producing (c t)"
  shows "agrees (c t) (th m' t)"
  using assms(1)
proof cases
  case (push_blocks u x)
  with assms(2) [of u] assms(2) [of t] show ?thesis by (auto intro: agrees_moves)
next
  case (push_spurious u x)
  with assms(2) [of u] assms(2) [of t] show ?thesis by (auto intro: agrees_moves)
next
  case (push_enqueues u x b f)
  with assms(2) [of u] have "agrees (c u) (Push_ret True)" by (auto intro: agrees_moves)
  with push_enqueues assms(2) [of t] show ?thesis
    by (auto intro: agrees_notify_pop [OF push_enqueues(6)] agrees_upd)
next
  case (push_rejected u x b)
  with assms(2) [of u] assms(3) [of u] show ?thesis by (auto dest: agrees_moves(4))
next
  case (pop_blocks u)
  with assms(2) [of u] assms(2) [of t] show ?thesis by (auto intro: agrees_moves)
next
  case (pop_spurious u)
  with assms(2) [of u] assms(2) [of t] show ?thesis by (auto intro: agrees_moves)
next
  case (pop_dequeues u x b f)
  with assms(2) [of u] have "agrees (c u) (Pop_ret (Some x))" by (auto intro: agrees_moves)
  with pop_dequeues assms(2) [of t] show ?thesis
    by (auto intro: agrees_notify_push [OF pop_dequeues(6)] agrees_upd)
next
  case (pop_drained u b)
  with assms(2) [of u] assms(2) [of t] show ?thesis by (auto intro: agrees_moves)
next
  case (close_sets u)
  with assms(2) [of u] assms(2) [of t] show ?thesis by (auto intro: agrees_moves)
next
  case (close_wakes_pop u)
  with assms(2) [of u] assms(2) [of t] show ?thesis
    by (auto intro: agrees_notify_all agrees_upd agrees_moves)
next
  case (close_wakes_push u)
  with assms(2) [of u] assms(2) [of t] show ?thesis
    by (auto intro: agrees_notify_all agrees_upd agrees_moves)
qed

lemma kinds_ok_mon_step:
  assumes "mon_step (mon p) e m" and "kinds_ok ps cs p" and "phase_ok ps cs p"
  shows "kinds_ok ps cs (p\<lparr>mon := m\<rparr>)"
  using agrees_mon_step [OF assms(1), of "pc p"] closed_no_producers [OF assms(2,3)] assms(2)
  by (simp add: kinds_ok_def)

lemma kinds_ok_say [simp]: "kinds_ok ps cs (say parts p) \<longleftrightarrow> kinds_ok ps cs p"
  by (simp add: kinds_ok_def say_def)

lemma kinds_ok_count [simp]: "kinds_ok ps cs (p\<lparr>processed := x\<rparr>) \<longleftrightarrow> kinds_ok ps cs p"
  by (simp add: kinds_ok_def)

lemma kinds_ok_set_pc:
  "kinds_ok ps cs p \<Longrightarrow> kind_ok ps cs t c \<Longrightarrow> agrees c (th (mon p) t) \<Longrightarrow> kinds_ok ps cs (set_pc t c p)"
  by (simp add: kinds_ok_def program_updates)

lemma kinds_ok_set_th:
  "kinds_ok ps cs p \<Longrightarrow> agrees (pc p t) x \<Longrightarrow> kinds_ok ps cs (set_th t x p)"
  by (simp add: kinds_ok_def program_updates)

lemma kinds_ok_set_both:
  "kinds_ok ps cs p \<Longrightarrow> kind_ok ps cs t c \<Longrightarrow> agrees c x \<Longrightarrow> kinds_ok ps cs (set_pc t c (set_th t x p))"
  by (simp add: kinds_ok_def program_updates)

lemma kinds_okD:
  assumes "kinds_ok ps cs p" and "pc p t = c"
  shows "kind_ok ps cs t c" and "agrees c (th (mon p) t)"
  using assms by (auto simp: kinds_ok_def)

lemma kinds_ok_client_step:
  assumes "client_step p p'" and "kinds_ok ps cs p"
  shows "kinds_ok ps cs p'"
  using assms(1)
  by cases (auto dest: kinds_okD [OF assms(2)]
      intro!: kinds_ok_set_pc [OF assms(2)] kinds_ok_set_th [OF assms(2)] kinds_ok_set_both [OF assms(2)])

lemma mon_step_closing:
  assumes "mon_step m e m'"
  obtains (closes) u where "th m u = Close_lock" and "closed (bq m')" and "th m' = (th m)(u := Close_notify_empty)"
  | (keeps) "closed (bq m') \<longleftrightarrow> closed (bq m)" and "\<And>u. th m' u = Close_lock \<longleftrightarrow> th m u = Close_lock"
  using assms
proof cases
  case (push_enqueues t x b f)
  then show thesis
    by (intro keeps) (auto simp: notify_pop_other [OF push_enqueues(6)])
next
  case (pop_dequeues t x b f)
  then show thesis
    by (intro keeps) (auto simp: notify_push_other [OF pop_dequeues(6)])
next
  case (close_sets t)
  then show thesis
    by (intro closes) auto
qed (rule keeps; auto simp: notify_all_other)+

lemma phase_ok_mon_step:
  assumes "mon_step (mon p) e m" and "kinds_ok ps cs p" and "phase_ok ps cs p"
  shows "phase_ok ps cs (p\<lparr>mon := m\<rparr>)"
  using assms(1)
proof (cases rule: mon_step_closing)
  case (closes u)
  with kinds_okD [OF assms(2) refl, of u] have "\<exists>vs. pc p u = Main_close vs" and "u = 0"
    by (auto dest!: agreesD(7))
  with closes assms(3) show ?thesis
    by (auto simp: phase_ok_def)
next
  case keeps
  with assms(3) show ?thesis
    by (simp add: phase_ok_def split: client.splits)
qed

lemma phase_ok_client_step:
  assumes "client_step p p'" and "kinds_ok ps cs p" and "phase_ok ps cs p"
  shows "phase_ok ps cs p'"
proof -
  have k: "\<forall>t. kind_ok ps cs t (pc p t) \<and> agrees (pc p t) (th (mon p) t)" and l: "layout ps cs"
    using assms(2) by (simp_all add: kinds_ok_def)
  from assms(1) show ?thesis
    by cases (insert k l assms(3), drule_tac x = t in spec,
        auto simp: phase_ok_def layout_def program_updates split: client.splits)
qed

lemma ends_ok_mon_step:
  assumes "mon_step (mon p) e m" and "ends_ok cs p"
  shows "ends_ok cs (p\<lparr>mon := m\<rparr>)"
  using assms(1)
proof cases
  case (push_enqueues t x b f)
  with assms(2) show ?thesis
    by (auto simp: ends_ok_def notify_pop_other [OF push_enqueues(6)])
next
  case (pop_dequeues t x b f)
  with assms(2) show ?thesis
    by (auto simp: ends_ok_def notify_push_other [OF pop_dequeues(6)])
next
  case (pop_drained t b)
  with assms(2) show ?thesis
    by (auto simp: ends_ok_def pop_ready_def)
qed (use assms(2) in \<open>auto simp: ends_ok_def notify_all_other\<close>)

text \<open>Threads that are not consumers, by their position.\<close>

lemma not_consumer:
  assumes "kinds_ok ps cs p"
  shows "pc p t = Producer_start k n \<Longrightarrow> t \<notin> set cs" "pc p t = Producer k i n \<Longrightarrow> t \<notin> set cs"
    "pc p t = Main_join_producers us vs \<Longrightarrow> t \<notin> set cs" "pc p t = Main_close vs \<Longrightarrow> t \<notin> set cs"
    "pc p t = Main_join_consumers us \<Longrightarrow> t \<notin> set cs"
  using assms kinds_okD(1) [OF assms, of t "pc p t"] by (auto simp: kinds_ok_def layout_def)

lemma ends_ok_client_step:
  assumes "client_step p p'" and "kinds_ok ps cs p" and "ends_ok cs p"
  shows "ends_ok cs p'"
  using assms(1)
  by cases (use assms(3) in \<open>auto dest: not_consumer [OF assms(2)] simp: ends_ok_def program_updates\<close>)

section \<open>Accounting for the requests\<close>

text \<open>The requests a producer still has to enqueue, and the items a consumer holds uncounted.\<close>

definition req_ids :: "int \<Rightarrow> int \<Rightarrow> int \<Rightarrow> int multiset" where
  "req_ids k i n = mset (map (req_id k) [i..n - 1])"

fun todo :: "client \<Rightarrow> int tstate \<Rightarrow> int multiset" where
  "todo (Producer_start k n) x = req_ids k 0 n"
| "todo (Producer k i n) x = (if x = Push_ret True then req_ids k (i + 1) n else req_ids k i n)"
| "todo c x = {#}"

fun got :: "int tstate \<Rightarrow> bool" where
  "got (Pop_ret (Some r)) = True"
| "got x = False"

definition requests :: "tid list \<Rightarrow> (tid \<Rightarrow> client) \<Rightarrow> int multiset" where
  "requests ps f = (\<Sum>t\<in>set ps. todo (f t) Outside)"

definition enq_ok :: "tid list \<Rightarrow> int multiset \<Rightarrow> int effect list \<Rightarrow> program \<Rightarrow> bool" where
  "enq_ok ps allr es p \<longleftrightarrow>
     mset (enqueued es) + (\<Sum>t\<in>set ps. todo (pc p t) (th (mon p) t)) = allr"

definition held :: "tid list \<Rightarrow> (tid \<Rightarrow> int tstate) \<Rightarrow> int" where
  "held cs f = (\<Sum>t\<in>set cs. of_bool (got (f t)))"

definition deq_ok :: "tid list \<Rightarrow> int effect list \<Rightarrow> program \<Rightarrow> bool" where
  "deq_ok cs es p \<longleftrightarrow>
     processed p + held cs (th (mon p)) = int (length (dequeued es))"

lemma req_ids_step: "i < n \<Longrightarrow> req_ids k i n = add_mset (req_id k i) (req_ids k (i + 1) n)"
  by (simp add: req_ids_def upto.simps [of i])

lemma req_ids_done: "\<not> i < n \<Longrightarrow> req_ids k i n = {#}"
  by (simp add: req_ids_def)

lemma mon_step_enq:
  assumes "mon_step m e m'"
  obtains (enq) t x where "e = Enq x" and "th m t = Push_lock x" and "th m' t = Push_ret True"
    and "\<And>u. u \<noteq> t \<Longrightarrow> th m' u = Push_ret True \<longleftrightarrow> th m u = Push_ret True"
  | (other) "\<And>x. e \<noteq> Enq x" and "\<And>u. th m' u = Push_ret True \<longleftrightarrow> th m u = Push_ret True"
  using assms
proof cases
  case (push_enqueues t x b f)
  then show thesis
    by (intro enq [of x t]) (auto simp: notify_pop_other [OF push_enqueues(6)])
next
  case (pop_dequeues t x b f)
  then show thesis
    by (intro other) (auto simp: notify_push_other [OF pop_dequeues(6)])
qed (rule other; auto simp: notify_all_other)+

lemma got_iff: "got x \<longleftrightarrow> (\<exists>r. x = Pop_ret (Some r))"
  by (cases x rule: got.cases) auto

lemma mon_step_deq:
  assumes "mon_step m e m'"
  obtains (deq) t x where "e = Deq x" and "th m t = Pop_lock" and "th m' t = Pop_ret (Some x)"
    and "\<And>u. u \<noteq> t \<Longrightarrow> got (th m' u) \<longleftrightarrow> got (th m u)"
  | (other) "\<And>x. e \<noteq> Deq x" and "\<And>u. got (th m' u) \<longleftrightarrow> got (th m u)"
  using assms
proof cases
  case (push_enqueues t x b f)
  then show thesis
    by (intro other) (auto simp: got_iff notify_pop_other [OF push_enqueues(6)])
next
  case (pop_dequeues t x b f)
  then show thesis
    by (intro deq [of x t]) (auto simp: got_iff notify_push_other [OF pop_dequeues(6)])
qed (rule other; auto simp: got_iff notify_all_other)+

lemma held_moves:
  assumes "t \<in> set cs" and "\<And>u. u \<noteq> t \<Longrightarrow> got (f' u) \<longleftrightarrow> got (f u)"
  shows "held cs f' + of_bool (got (f t)) = held cs f + of_bool (got (f' t))"
  unfolding held_def using assms by (intro sum_one_moves) auto

lemma held_same: "(\<And>u. got (f' u) \<longleftrightarrow> got (f u)) \<Longrightarrow> held cs f' = held cs f"
  by (simp add: held_def)

lemma held_upd [simp]: "\<not> got x \<Longrightarrow> \<not> got (f t) \<Longrightarrow> held cs (f(t := x)) = held cs f"
  by (rule held_same) simp

lemma enq_ok_mon_step:
  assumes "mon_step (mon p) e m" and "kinds_ok ps cs p" and "enq_ok ps allr es p"
  shows "enq_ok ps allr (es @ visible e) (p\<lparr>mon := m\<rparr>)"
  using assms(1)
proof (cases rule: mon_step_enq)
  case (enq t x)
  then obtain k i n where c: "pc p t = Producer k i n" "i < n" "x = req_id k i"
    using kinds_okD(2) [OF assms(2) refl, of t] agreesD(1) by metis
  then have t: "t \<in> set ps"
    using kinds_okD(1) [OF assms(2), of t] by fastforce
  let ?g = "\<lambda>u. todo (pc p u) (th (mon p) u)" and ?g' = "\<lambda>u. todo (pc p u) (th m u)"
  have "?g' u = ?g u" if "u \<noteq> t" for u
    using enq(4) [OF that] by (cases "pc p u") auto
  then have "sum ?g' (set ps) + ?g t = sum ?g (set ps) + ?g' t"
    using t by (intro sum_one_moves) auto
  moreover have "?g t = add_mset x (?g' t)"
    using enq c by (simp add: req_ids_step)
  ultimately have "sum ?g (set ps) = add_mset x (sum ?g' (set ps))"
    by simp
  with assms(3) enq(1) show ?thesis by (simp add: enq_ok_def visible_def)
next
  case other
  have "todo (pc p u) (th m u) = todo (pc p u) (th (mon p) u)" for u
    using other(2) [of u] by (cases "pc p u") auto
  moreover have "enqueued (visible e) = []"
    using other(1) by (cases e) (auto simp: visible_def)
  ultimately show ?thesis using assms(3) by (simp add: enq_ok_def)
qed

lemma deq_ok_mon_step:
  assumes "mon_step (mon p) e m" and "kinds_ok ps cs p" and "deq_ok cs es p"
  shows "deq_ok cs (es @ visible e) (p\<lparr>mon := m\<rparr>)"
  using assms(1)
proof (cases rule: mon_step_deq)
  case (deq t x)
  then have "t \<in> set cs"
    using kinds_okD [OF assms(2) refl, of t] by (auto dest!: agreesD(4))
  then have "held cs (th m) + of_bool (got (th (mon p) t)) = held cs (th (mon p)) + of_bool (got (th m t))"
    using deq(4) by (rule held_moves)
  with assms(3) deq show ?thesis by (simp add: deq_ok_def visible_def)
next
  case other
  moreover have "dequeued (visible e) = []"
    using other(1) by (cases e) (auto simp: visible_def)
  moreover have "held cs (th m) = held cs (th (mon p))"
    using other(2) by (rule held_same)
  ultimately show ?thesis using assms(3) by (simp add: deq_ok_def)
qed

lemma todo_client_step:
  assumes "client_step p p'" and "kinds_ok ps cs p"
  shows "todo (pc p' u) (th (mon p') u) = todo (pc p u) (th (mon p) u)"
  using assms(1)
  by cases (use kinds_okD(2) [OF assms(2) refl, of u] in \<open>auto simp: program_updates req_ids_done\<close>)

lemma enq_ok_client_step:
  "client_step p p' \<Longrightarrow> kinds_ok ps cs p \<Longrightarrow> enq_ok ps allr es p \<Longrightarrow> enq_ok ps allr es p'"
  by (simp add: enq_ok_def todo_client_step)

lemma deq_ok_client_step:
  assumes "client_step p p'" and "kinds_ok ps cs p" and "deq_ok cs es p"
  shows "deq_ok cs es p'"
  using assms(1)
proof cases
  case (consumer_counts t k r)
  then have "t \<in> set cs"
    using kinds_okD(1) [OF assms(2), of t] by fastforce
  then have "held cs (th (mon p')) + of_bool (got (th (mon p) t)) =
      held cs (th (mon p)) + of_bool (got (th (mon p') t))"
    using consumer_counts by (intro held_moves) (auto simp: program_updates)
  with assms(3) consumer_counts show ?thesis
    by (simp add: deq_ok_def program_updates)
qed (use assms(3) in \<open>auto simp: deq_ok_def program_updates\<close>)

section \<open>The invariant of the program\<close>

text \<open>When \<^verbatim>\<open>main\<close> is done nobody prints any more, so its report is the last line.\<close>

definition report_ok :: "program \<Rightarrow> bool" where
  "report_ok p \<longleftrightarrow> (pc p 0 = Finished \<longrightarrow>
     last (out p) = ''Processed '' @ show_int (processed p) @ '' items.'')"

definition prog_inv :: "tid list \<Rightarrow> tid list \<Rightarrow> int multiset \<Rightarrow> int effect list \<Rightarrow> program \<Rightarrow> bool" where
  "prog_inv ps cs allr es p \<longleftrightarrow> kinds_ok ps cs p \<and> phase_ok ps cs p \<and> ends_ok cs p \<and>
     enq_ok ps allr es p \<and> deq_ok cs es p \<and> report_ok p"

lemma no_step_after_main:
  assumes "client_step p p'" and "kinds_ok ps cs p" and "phase_ok ps cs p"
  shows "pc p 0 \<noteq> Finished"
proof
  assume fin0: "pc p 0 = Finished"
  have "pc p t = Finished \<or> pc p t = No_thread" for t
    using fin0 assms(3) kinds_okD(1) [OF assms(2) refl, of t]
    by (cases "t = 0") (auto simp: phase_ok_def kind_ok_def split: if_splits)
  with assms(1) show False
    by cases (metis client.distinct)+
qed

lemma prog_inv_step:
  assumes "prog_step p e p'" and "prog_inv ps cs allr es p"
  shows "prog_inv ps cs allr (es @ visible e) p'"
  using assms
proof (induction rule: prog_step.induct)
  case (inside_queue p e m)
  then have "report_ok (p\<lparr>mon := m\<rparr>)"
    by (simp add: prog_inv_def report_ok_def)
  with inside_queue show ?case unfolding prog_inv_def
    by (blast intro: kinds_ok_mon_step phase_ok_mon_step ends_ok_mon_step enq_ok_mon_step deq_ok_mon_step)
next
  case (between_calls p p')
  then have "kind_ok ps cs 0 (pc p 0)"
    by (simp add: prog_inv_def kinds_ok_def)
  with between_calls have "report_ok p'"
    using no_step_after_main [of p p' ps cs]
    by (auto simp: prog_inv_def log_line_def report_ok_def program_updates elim!: client_step.cases split: if_splits)
  with between_calls show ?case unfolding prog_inv_def visible_def
    by (auto intro: kinds_ok_client_step phase_ok_client_step ends_ok_client_step
        enq_ok_client_step deq_ok_client_step)
qed

lemma prog_inv_init:
  assumes "roles_ok ps cs f" and "BoundedQueue_new n = Inr b"
  shows "prog_inv ps cs (requests ps f) [] (prog_init b f)"
proof -
  have "kind_ok ps cs t (f t)" for t
    using assms(1) by (cases "t = 0"; cases "t \<in> set ps"; cases "t \<in> set cs") (fastforce simp: roles_ok_def kind_ok_def)+
  moreover have "agrees (f t) Outside" for t
    using calculation [of t] assms(1) by (cases "f t") (auto simp: roles_ok_def)
  ultimately show ?thesis
    using assms
    by (auto simp: prog_inv_def kinds_ok_def layout_def phase_ok_def ends_ok_def enq_ok_def deq_ok_def
        held_def report_ok_def roles_ok_def prog_init_def bq_init_def bq_new_iff requests_def)
qed

lemma prog_run_inv: "prog_run p es p' \<Longrightarrow> prog_inv ps cs allr [] p \<Longrightarrow> prog_inv ps cs allr es p'"
  by (induction rule: prog_run.induct) (auto intro: prog_inv_step)

lemma prog_reaches_inv: "prog_reaches n ps cs f es p \<Longrightarrow> prog_inv ps cs (requests ps f) es p"
  by (auto simp: prog_reaches_def intro: prog_run_inv prog_inv_init)

section \<open>No reachable state is stuck\<close>

text \<open>
  A thread is blocked when it waits on a condition variable. \<open>runnable\<close> says which threads
  can make their next step: those inside a queue operation that are not blocked, and those
  between two operations that have something left to do and are not waiting in a
  \<^verbatim>\<open>join\<close>.
\<close>

definition blocked :: "int tstate \<Rightarrow> bool" where
  "blocked x \<longleftrightarrow> is_pop_wait x \<or> is_push_wait x"

definition between_runnable :: "program \<Rightarrow> client \<Rightarrow> bool" where
  "between_runnable p c \<longleftrightarrow> (case c of
     No_thread \<Rightarrow> False
   | Finished \<Rightarrow> False
   | Main_join_producers (u # us) vs \<Rightarrow> pc p u = Finished
   | Main_join_consumers (u # us) \<Rightarrow> pc p u = Finished
   | _ \<Rightarrow> True)"

definition runnable :: "program \<Rightarrow> tid \<Rightarrow> bool" where
  "runnable p t \<longleftrightarrow>
     (if th (mon p) t = Outside then between_runnable p (pc p t) else \<not> blocked (th (mon p) t))"

definition position :: "program \<Rightarrow> tid \<Rightarrow> client \<times> int tstate" where
  "position p t = (pc p t, th (mon p) t)"

lemma blocked_producer:
  assumes "kinds_ok ps cs p" and "\<not> runnable p t" and "t \<in> set ps" and "pc p t \<noteq> Finished"
  shows "is_push_wait (th (mon p) t)"
proof -
  from assms(1,3) have "t \<noteq> 0" by (auto simp: kinds_ok_def layout_def)
  with assms(2-4) kinds_okD [OF assms(1) refl, of t] show ?thesis
    by (cases "pc p t") (auto simp: kind_ok_def runnable_def between_runnable_def blocked_def split: if_splits)
qed

lemma blocked_consumer:
  assumes "kinds_ok ps cs p" and "\<not> runnable p t" and "t \<in> set cs" and "pc p t \<noteq> Finished"
  shows "th (mon p) t = Pop_wait"
proof -
  from assms(1,3) have "t \<noteq> 0" and "t \<notin> set ps" by (auto simp: kinds_ok_def layout_def)
  with assms(2-4) kinds_okD [OF assms(1) refl, of t] show ?thesis
    by (cases "pc p t") (auto simp: kind_ok_def runnable_def between_runnable_def blocked_def split: if_splits)
qed

lemma blocked_main:
  assumes "kinds_ok ps cs p" and "phase_ok ps cs p" and "\<not> runnable p 0" and "pc p 0 \<noteq> Finished"
  shows "\<exists>u us. pc p u \<noteq> Finished \<and>
    (pc p 0 = Main_join_producers (u # us) cs \<or> pc p 0 = Main_join_consumers (u # us))"
  using assms(2-4) kinds_okD [OF assms(1) refl, of 0]
  by (cases "pc p 0") (auto simp: phase_ok_def runnable_def between_runnable_def blocked_def split: list.splits if_splits)

lemma some_runnable:
  assumes inv: "prog_inv ps cs allr es p" and bq: "bq_inv (mon p)" and main: "pc p 0 \<noteq> Finished"
  shows "\<exists>t. runnable p t"
proof (rule ccontr)
  assume "\<not> (\<exists>t. runnable p t)"
  then have stuck: "\<not> runnable p t" for t by simp
  from inv have ko: "kinds_ok ps cs p" and ph: "phase_ok ps cs p" and en: "ends_ok cs p" and cs: "cs \<noteq> []"
    by (auto simp: prog_inv_def kinds_ok_def layout_def)
  have nobody: "th (mon p) t \<noteq> Pop_lock" "\<not> is_push_lock (th (mon p) t)"
    "th (mon p) t \<noteq> Close_notify_empty" "th (mon p) t \<noteq> Close_notify_full" for t
    using stuck [of t] by (cases "th (mon p) t"; simp add: runnable_def blocked_def)+
  from blocked_main [OF ko ph stuck main] obtain u us where u: "pc p u \<noteq> Finished" and
    "pc p 0 = Main_join_producers (u # us) cs \<or> pc p 0 = Main_join_consumers (u # us)" by blast
  then show False
  proof (elim disjE)
    assume "pc p 0 = Main_join_producers (u # us) cs"
    with ph have op: "\<not> closed (bq (mon p))" and "u \<in> set ps" by (auto simp: phase_ok_def)
    with u have "is_push_wait (th (mon p) u)" by (intro blocked_producer [OF ko stuck])
    with op bq nobody have full: "free_places (bq (mon p)) = 0"
      using not_full.idle_means_no_work [of "mon p"] by auto
    from cs obtain c where c: "c \<in> set cs" by (cases cs) auto
    with en op have "pc p c \<noteq> Finished" by (auto simp: ends_ok_def)
    with c have "th (mon p) c = Pop_wait" by (intro blocked_consumer [OF ko stuck])
    with op bq nobody have "items (bq (mon p)) = []"
      using not_empty.idle_means_no_work [of "mon p"] by auto
    with full show False
      using bq by (simp add: bq_inv_def bounded_def free_places_def)
  next
    assume "pc p 0 = Main_join_consumers (u # us)"
    with ph have "closed (bq (mon p))" and "u \<in> set cs" by (auto simp: phase_ok_def)
    moreover have "th (mon p) u = Pop_wait"
      using \<open>u \<in> set cs\<close> u by (rule blocked_consumer [OF ko stuck])
    ultimately show False
      using bq nobody closed_waiters [of "mon p" u] by blast
  qed
qed

text \<open>A runnable thread really moves.\<close>

lemma moves_inside:
  "mon_step (mon p) e m \<Longrightarrow> th m t \<noteq> th (mon p) t \<Longrightarrow> \<exists>e p'. prog_step p e p' \<and> position p' t \<noteq> position p t"
  using inside_queue [of p e m] by (force simp: position_def)

lemma moves_between:
  "client_step p p' \<Longrightarrow> position p' t \<noteq> position p t \<Longrightarrow> \<exists>e p'. prog_step p e p' \<and> position p' t \<noteq> position p t"
  by (blast intro: between_calls)

lemma push_lock_moves:
  assumes "th m t = Push_lock x"
  shows "\<exists>e m'. mon_step m e m' \<and> th m' t \<noteq> th m t"
proof -
  obtain f where f: "notify_one_to is_pop_wait wake_pop ((th m)(t := Push_ret True)) f"
    using notify_one_total by blast
  then have "f t = Push_ret True" by (simp add: notify_pop_other)
  with f assms have "mon_step m (Enq x) (m\<lparr>bq := (bq m)\<lparr>items := items (bq m) @ [x]\<rparr>, th := f\<rparr>) \<and> f t \<noteq> th m t"
    if "push_ready (bq m)" "\<not> closed (bq m)"
    using that by (simp add: push_enqueues)
  with push_blocks [OF assms] push_rejected [OF assms] assms show ?thesis
    by (cases "push_ready (bq m)"; cases "closed (bq m)") (force simp: push_ready_def)+
qed

lemma pop_lock_moves:
  assumes "th m t = Pop_lock"
  shows "\<exists>e m'. mon_step m e m' \<and> th m' t \<noteq> th m t"
proof (cases "items (bq m)")
  case Nil
  with pop_blocks [OF assms] pop_drained [OF assms, of "bq m"] assms show ?thesis
    by (cases "pop_ready (bq m)") force+
next
  case (Cons x xs)
  obtain f where f: "notify_one_to is_push_wait wake_push ((th m)(t := Pop_ret (Some x))) f"
    using notify_one_total by blast
  then have "f t = Pop_ret (Some x)" by (simp add: notify_push_other)
  with f assms Cons have "mon_step m (Deq x) (m\<lparr>bq := (bq m)\<lparr>items := xs\<rparr>, th := f\<rparr>) \<and> f t \<noteq> th m t"
    by (simp add: pop_dequeues pop_ready_def)
  then show ?thesis by force
qed

lemma runnable_inside:
  assumes "th (mon p) t \<noteq> Outside" and "\<not> blocked (th (mon p) t)" and "agrees (pc p t) (th (mon p) t)"
  shows "\<exists>e p'. prog_step p e p' \<and> position p' t \<noteq> position p t"
proof (cases "th (mon p) t")
  case (Push_lock x)
  from push_lock_moves [OF this] show ?thesis by (elim exE conjE) (rule moves_inside)
next
  case (Push_ret r)
  with assms(3) obtain k i n where "pc p t = Producer k i n" and "r" using agreesD(3) by metis
  with Push_ret show ?thesis
    by (intro moves_between [OF producer_pushed]) (auto simp: position_def program_updates)
next
  case Pop_lock
  from pop_lock_moves [OF this] show ?thesis by (elim exE conjE) (rule moves_inside)
next
  case (Pop_ret r)
  with assms(3) obtain k where k: "pc p t = Consumer k" using agreesD(6) by metis
  show ?thesis
  proof (cases r)
    case None
    with Pop_ret k show ?thesis
      by (intro moves_between [OF consumer_ends]) (auto simp: position_def program_updates)
  next
    case (Some x)
    with Pop_ret k show ?thesis
      by (intro moves_between [OF consumer_counts]) (auto simp: position_def program_updates)
  qed
next
  case Close_lock
  then show ?thesis by (intro moves_inside [OF close_sets]) auto
next
  case Close_notify_empty
  then show ?thesis by (intro moves_inside [OF close_wakes_pop]) (auto simp: notify_all_def)
next
  case Close_notify_full
  then show ?thesis by (intro moves_inside [OF close_wakes_push]) (auto simp: notify_all_def)
next
  case Close_ret
  with assms(3) obtain cs where "pc p t = Main_close cs" using agreesD(10) by metis
  with Close_ret show ?thesis
    by (intro moves_between [OF main_closed]) (auto simp: position_def program_updates)
qed (use assms in \<open>auto simp: blocked_def\<close>)

lemma runnable_outside:
  assumes "th (mon p) t = Outside" and "between_runnable p (pc p t)" and "agrees (pc p t) (th (mon p) t)"
  shows "\<exists>e p'. prog_step p e p' \<and> position p' t \<noteq> position p t"
proof (cases "pc p t")
  case (Producer_start k n)
  then show ?thesis by (intro moves_between [OF producer_begins]) (auto simp: position_def program_updates)
next
  case (Producer k i n)
  note c = this assms(1)
  show ?thesis
  proof (cases "i < n")
    case True
    with c show ?thesis by (intro moves_between [OF producer_pushes]) (auto simp: position_def program_updates)
  next
    case False
    with c show ?thesis by (intro moves_between [OF producer_ends]) (auto simp: position_def program_updates)
  qed
next
  case (Consumer k)
  with assms show ?thesis by (intro moves_between [OF consumer_pops]) (auto simp: position_def program_updates)
next
  case (Consumer_got k r)
  then show ?thesis by (intro moves_between [OF consumer_logs]) (auto simp: position_def program_updates)
next
  case (Main_join_producers us vs)
  note c = this assms(1,2)
  show ?thesis
  proof (cases us)
    case Nil
    with c show ?thesis by (intro moves_between [OF main_starts_close]) (auto simp: position_def program_updates)
  next
    case (Cons u us')
    with c show ?thesis
      by (intro moves_between [OF main_joins_producer]) (auto simp: position_def program_updates between_runnable_def)
  qed
next
  case (Main_join_consumers us)
  note c = this assms(2)
  show ?thesis
  proof (cases us)
    case Nil
    with c show ?thesis by (intro moves_between [OF main_reports]) (auto simp: position_def program_updates)
  next
    case (Cons u us')
    with c show ?thesis
      by (intro moves_between [OF main_joins_consumer]) (auto simp: position_def program_updates between_runnable_def)
  qed
qed (use assms in \<open>auto simp: between_runnable_def\<close>)

lemma runnable_moves:
  "runnable p t \<Longrightarrow> agrees (pc p t) (th (mon p) t) \<Longrightarrow>
   \<not> blocked (th (mon p) t) \<and> (\<exists>e p'. prog_step p e p' \<and> position p' t \<noteq> position p t)"
  using runnable_inside [of p t] runnable_outside [of p t]
  by (auto simp: runnable_def blocked_def split: if_splits)

section \<open>The result and absence of deadlock\<close>

text \<open>When \<^verbatim>\<open>main\<close> has finished, every request of every producer has been taken from the
  queue exactly once, the queue is empty, every thread has returned, and the last line of
  the output reports the number of requests; for any capacity, any producers, at least one
  consumer and every schedule.\<close>

lemma bq_program_result:
  assumes "prog_reaches n ps cs f es p" and "pc p 0 = Finished"
  shows "mset (dequeued es) = requests ps f \<and> items (bq (mon p)) = [] \<and>
    processed p = int (size (requests ps f)) \<and> (\<forall>t\<in>set ps \<union> set cs. pc p t = Finished) \<and>
    last (out p) = ''Processed '' @ show_int (int (size (requests ps f))) @ '' items.''"
proof -
  have inv: "prog_inv ps cs (requests ps f) es p"
    using assms(1) by (rule prog_reaches_inv)
  then have all: "\<forall>t\<in>set ps \<union> set cs. pc p t = Finished" and cs: "cs \<noteq> []"
    using assms(2) by (auto simp: prog_inv_def phase_ok_def kinds_ok_def layout_def)
  with inv have empty: "items (bq (mon p)) = []"
    by (cases cs) (auto simp: prog_inv_def ends_ok_def)
  have "th (mon p) t = Outside" if "t \<in> set ps \<union> set cs" for t
    using inv all that kinds_okD(2) [of ps cs p t Finished] by (simp add: prog_inv_def)
  then have "held cs (th (mon p)) = 0" and "(\<Sum>t\<in>set ps. todo (pc p t) (th (mon p) t)) = {#}"
    using all by (auto simp: held_def)
  with inv have "processed p = int (length (dequeued es))" and e: "mset (enqueued es) = requests ps f"
    by (auto simp: prog_inv_def deq_ok_def enq_ok_def)
  moreover have "enqueued es = dequeued es"
    using spec_run_fifo [OF bq_reaches_spec [OF prog_reaches_bq [OF assms(1)]]] empty
    by (simp add: abs_queue_def)
  ultimately show ?thesis
    using inv all empty assms(2) by (auto simp: prog_inv_def report_ok_def simp flip: e)
qed

text \<open>No deadlock: as long as \<^verbatim>\<open>main\<close> has not finished, some thread that is neither
  blocked on a condition variable nor waiting in a \<^verbatim>\<open>join\<close> has a step that moves it.\<close>

lemma bq_program_never_stuck:
  assumes "prog_reaches n ps cs f es p" and "pc p 0 \<noteq> Finished"
  shows "\<exists>t e p'. \<not> blocked (th (mon p) t) \<and> prog_step p e p' \<and> position p' t \<noteq> position p t"
proof -
  have inv: "prog_inv ps cs (requests ps f) es p"
    using assms(1) by (rule prog_reaches_inv)
  moreover have "bq_inv (mon p)"
    using assms(1) by (rule bq_reaches_inv [OF prog_reaches_bq])
  ultimately obtain t where "runnable p t"
    using some_runnable assms(2) by blast
  moreover have "agrees (pc p t) (th (mon p) t)"
    using inv by (simp add: prog_inv_def kinds_ok_def)
  ultimately show ?thesis
    using runnable_moves by blast
qed

end
