(* ===== verification/BoundedQueueRun.thy ===== *)
theory BoundedQueueRun
  imports BoundedQueueDemo
begin

text \<open>
  An executable scheduler for the program of \<^verbatim>\<open>examples/bounded_queue/main.cpp\<close>: given the
  thread that moves next, it makes that thread's step; a \<^verbatim>\<open>notify_one\<close> wakes the first blocked
  thread of the list \<open>ts\<close> of all threads. Every step it makes is a step of the relation, so
  evaluating it on a schedule gives a run, and with it the witnesses of the theorems about
  runs.
\<close>

fun inside_exec :: "tid list \<Rightarrow> tid \<Rightarrow> int monitor \<Rightarrow> (int effect \<times> int monitor) option" where
  "inside_exec ts t m = (case th m t of
     Push_lock x \<Rightarrow>
       (if push_ready (bq m) then
          (case push_step x (bq m) of
             (True, b) \<Rightarrow> Some (Enq x,
               m\<lparr>bq := b, th := wake_first is_pop_wait wake_pop ts ((th m)(t := Push_ret True))\<rparr>)
           | (False, b) \<Rightarrow> Some (Rejected x, m\<lparr>bq := b, th := (th m)(t := Push_ret False)\<rparr>))
        else Some (Tau, m\<lparr>th := (th m)(t := Push_wait x)\<rparr>))
   | Pop_lock \<Rightarrow>
       (if pop_ready (bq m) then
          (case pop_step (bq m) of
             (Some x, b) \<Rightarrow> Some (Deq x,
               m\<lparr>bq := b, th := wake_first is_push_wait wake_push ts ((th m)(t := Pop_ret (Some x)))\<rparr>)
           | (None, b) \<Rightarrow> Some (Drained, m\<lparr>bq := b, th := (th m)(t := Pop_ret None)\<rparr>))
        else Some (Tau, m\<lparr>th := (th m)(t := Pop_wait)\<rparr>))
   | Close_lock \<Rightarrow>
       Some (Closing, m\<lparr>bq := close_step (bq m), th := (th m)(t := Close_notify_empty)\<rparr>)
   | Close_notify_empty \<Rightarrow>
       Some (Tau, m\<lparr>th := notify_all is_pop_wait wake_pop ((th m)(t := Close_notify_full))\<rparr>)
   | Close_notify_full \<Rightarrow>
       Some (Tau, m\<lparr>th := notify_all is_push_wait wake_push ((th m)(t := Close_ret))\<rparr>)
   | _ \<Rightarrow> None)"

fun between_exec :: "tid \<Rightarrow> program \<Rightarrow> program option" where
  "between_exec t p = (case (pc p t, th (mon p) t) of
     (Producer_start k n, _) \<Rightarrow>
       Some (say [''producer-'', show_int k, '' start''] (set_pc t (Producer k 0 n) p))
   | (Producer k i n, Outside) \<Rightarrow>
       Some (if i < n then set_th t (Push_lock (req_id k i)) p
             else say [''producer-'', show_int k, '' done''] (set_pc t Finished p))
   | (Producer k i n, Push_ret True) \<Rightarrow>
       Some (say [''producer-'', show_int k, '' enqueued req='', show_int (req_id k i)]
         (set_pc t (Producer k (i + 1) n) (set_th t Outside p)))
   | (Producer k i n, Push_ret False) \<Rightarrow>
       Some (say [''producer-'', show_int k, '' stopped (queue closed)'']
         (set_pc t Finished (set_th t Outside p)))
   | (Consumer k, Outside) \<Rightarrow> Some (set_th t Pop_lock p)
   | (Consumer k, Pop_ret (Some r)) \<Rightarrow>
       Some (set_pc t (Consumer_got k r) (set_th t Outside p)\<lparr>processed := processed p + 1\<rparr>)
   | (Consumer k, Pop_ret None) \<Rightarrow> Some (set_pc t Finished (set_th t Outside p))
   | (Consumer_got k r, _) \<Rightarrow>
       Some (say [''worker-'', show_int k, '' handled req='', show_int r] (set_pc t (Consumer k) p))
   | (Main_join_producers (u # us) vs, _) \<Rightarrow>
       (if pc p u = Finished then Some (set_pc t (Main_join_producers us vs) p) else None)
   | (Main_join_producers [] vs, Outside) \<Rightarrow> Some (set_pc t (Main_close vs) (set_th t Close_lock p))
   | (Main_close vs, Close_ret) \<Rightarrow> Some (set_pc t (Main_join_consumers vs) (set_th t Outside p))
   | (Main_join_consumers (u # us), _) \<Rightarrow>
       (if pc p u = Finished then Some (set_pc t (Main_join_consumers us) p) else None)
   | (Main_join_consumers [], _) \<Rightarrow>
       Some (say [''Processed '', show_int (processed p), '' items.''] (set_pc t Finished p))
   | _ \<Rightarrow> None)"

declare inside_exec.simps [simp del] between_exec.simps [simp del]

text \<open>A thread that cannot move is passed over.\<close>

fun schedule :: "tid list \<Rightarrow> tid list \<Rightarrow> int effect list \<times> program \<Rightarrow> int effect list \<times> program" where
  "schedule ts [] (es, p) = (es, p)"
| "schedule ts (t # sched) (es, p) =
     (case inside_exec ts t (mon p) of
        Some (e, m) \<Rightarrow> schedule ts sched (es @ visible e, p\<lparr>mon := m\<rparr>)
      | None \<Rightarrow> (case between_exec t p of
          Some p' \<Rightarrow> schedule ts sched (es, p')
        | None \<Rightarrow> schedule ts sched (es, p)))"

section \<open>Soundness\<close>

definition outside_of :: "tid list \<Rightarrow> (tid \<Rightarrow> 'a tstate) \<Rightarrow> bool" where
  "outside_of ts f \<longleftrightarrow> (\<forall>u. u \<notin> set ts \<longrightarrow> f u = Outside)"

lemma outside_of_wake:
  "outside_of ts f \<Longrightarrow> outside_of ts (wake_first W g ts f)"
  by (auto simp: outside_of_def wake_first_def find_Some_iff split: option.splits)

lemma outside_of_upd: "outside_of ts f \<Longrightarrow> t \<in> set ts \<Longrightarrow> outside_of ts (f(t := x))"
  by (auto simp: outside_of_def)

lemma outside_of_notify_all:
  "outside_of ts f \<Longrightarrow> outside_of ts (notify_all is_pop_wait wake_pop f)"
  "outside_of ts f \<Longrightarrow> outside_of ts (notify_all is_push_wait wake_push f)"
  by (auto simp: outside_of_def notify_all_def)

lemma wake_first_pop_sound:
  "outside_of ts f \<Longrightarrow> notify_one_to is_pop_wait wake_pop f (wake_first is_pop_wait wake_pop ts f)"
  by (rule wake_first_sound) (auto simp: outside_of_def)

lemma wake_first_push_sound:
  "outside_of ts f \<Longrightarrow> notify_one_to is_push_wait wake_push f (wake_first is_push_wait wake_push ts f)"
  by (rule wake_first_sound) (metis is_push_wait.simps(2) outside_of_def)

lemmas exec_intros = outside_of_upd outside_of_wake outside_of_notify_all
  wake_first_pop_sound wake_first_push_sound

lemma push_rejected_here:
  "th m t = Push_lock x \<Longrightarrow> push_ready (bq m) \<Longrightarrow> closed (bq m) \<Longrightarrow>
   mon_step m (Rejected x) (m\<lparr>th := (th m)(t := Push_ret False)\<rparr>)"
  using push_rejected [of m t x "bq m"] by simp

lemma pop_drained_here:
  "th m t = Pop_lock \<Longrightarrow> pop_ready (bq m) \<Longrightarrow> items (bq m) = [] \<Longrightarrow>
   mon_step m Drained (m\<lparr>th := (th m)(t := Pop_ret None)\<rparr>)"
  using pop_drained [of m t "bq m"] by simp

lemma inside_exec_sound:
  assumes "outside_of ts (th m)" and "t \<in> set ts" and "inside_exec ts t m = Some (e, m')"
  shows "mon_step m e m' \<and> outside_of ts (th m')"
proof (cases "th m t")
  case (Push_lock x)
  with assms show ?thesis
    by (cases "push_ready (bq m)"; cases "closed (bq m)")
      (auto simp: inside_exec.simps intro!: exec_intros push_enqueues push_rejected_here push_blocks)
next
  case Pop_lock
  with assms show ?thesis
    by (cases "pop_ready (bq m)"; cases "items (bq m)")
      (auto simp: inside_exec.simps pop_step.simps intro!: exec_intros pop_dequeues pop_drained_here pop_blocks)
qed (use assms in \<open>auto simp: inside_exec.simps intro!: exec_intros close_sets close_wakes_pop close_wakes_push\<close>)

lemma between_exec_sound:
  assumes "between_exec t p = Some p'"
  shows "client_step p p'"
  using assms
  by (auto simp: between_exec.simps split: client.splits tstate.splits bool.splits option.splits list.splits if_splits
      intro: client_step.intros)

text \<open>A thread between two queue operations only moves itself.\<close>

lemma between_exec_outside:
  assumes "between_exec t p = Some p'" and "t \<in> set ts" and "outside_of ts (th (mon p))"
  shows "outside_of ts (th (mon p'))"
  using assms
  by (auto simp: between_exec.simps program_updates outside_of_def
      split: client.splits tstate.splits bool.splits option.splits list.splits if_splits)

lemma prog_tau: "prog_run p0 es p \<Longrightarrow> prog_step p Tau q \<Longrightarrow> prog_run p0 es q"
  using prog_snoc [of p0 es p Tau q] by (simp add: visible_def)

lemma schedule_sound:
  assumes "schedule ts sched (es, p) = (es', p')" and "set sched \<subseteq> set ts"
    and "outside_of ts (th (mon p))" and "prog_run p0 es p"
  shows "prog_run p0 es' p'"
  using assms
proof (induction sched arbitrary: es p)
  case Nil
  then show ?case by simp
next
  case (Cons t sched)
  from Cons.prems(2) have t: "t \<in> set ts" "set sched \<subseteq> set ts" by auto
  show ?case
  proof (cases "inside_exec ts t (mon p)")
    case (Some em)
    obtain e m where em: "em = (e, m)" by (cases em)
    with Some have ex: "inside_exec ts t (mon p) = Some (e, m)" by simp
    from inside_exec_sound [OF Cons.prems(3) t(1) ex]
    have step: "prog_step p e (p\<lparr>mon := m\<rparr>)" and o: "outside_of ts (th (mon (p\<lparr>mon := m\<rparr>)))"
      by (auto intro: inside_queue)
    from Cons.prems(1) ex have "schedule ts sched (es @ visible e, p\<lparr>mon := m\<rparr>) = (es', p')" by simp
    from Cons.IH [OF this t(2) o prog_snoc [OF Cons.prems(4) step]] show ?thesis .
  next
    case None
    note ins = this
    show ?thesis
    proof (cases "between_exec t p")
      case None
      with ins Cons.prems(1) have "schedule ts sched (es, p) = (es', p')" by simp
      from Cons.IH [OF this t(2) Cons.prems(3,4)] show ?thesis .
    next
      case (Some q)
      with ins Cons.prems(1) have run: "schedule ts sched (es, q) = (es', p')" by simp
      from Cons.IH [OF run t(2) between_exec_outside [OF Some t(1) Cons.prems(3)]
          prog_tau [OF Cons.prems(4) between_calls [OF between_exec_sound [OF Some]]]]
      show ?thesis .
    qed
  qed
qed

section \<open>A complete run\<close>

text \<open>One consumer, one producer with one request, capacity 1, and the consumer first.\<close>

definition small_roles :: "tid \<Rightarrow> client" where
  "small_roles = (\<lambda>_. No_thread)(0 := Main_join_producers [2] [1], 1 := Consumer 1, 2 := Producer_start 1 1)"

definition small_start :: program where
  "small_start = prog_init \<lparr>items = [], capacity = 1, closed = False\<rparr> small_roles"

definition small_schedule :: "tid list" where
  "small_schedule = [1, 1, 2, 2, 2, 2, 2, 1, 1, 1, 1, 1, 0, 0, 0, 0, 0, 0, 1, 1, 1, 0, 0]"

definition small_end :: "int effect list \<times> program" where
  "small_end = schedule [0, 1, 2] small_schedule ([], small_start)"

lemma small_run_result:
  "case small_end of (es, p) \<Rightarrow> (es, pc p 0, processed p, last (out p))
   = ([Enq 1000, Deq 1000, Closing, Drained], Finished, 1, ''Processed 1 items.'')"
  by code_simp

lemma small_reaches:
  "prog_reaches 1 [2] [1] small_roles (fst small_end) (snd small_end)"
proof -
  have "roles_ok [2] [1] small_roles"
    by (simp add: roles_ok_def small_roles_def)
  moreover have "prog_run small_start (fst small_end) (snd small_end)"
    by (rule schedule_sound [of "[0, 1, 2]" small_schedule "[]" small_start])
      (simp_all add: small_end_def small_schedule_def small_start_def prog_init_def bq_init_def outside_of_def prog_nil)
  ultimately show ?thesis
    by (simp add: prog_reaches_def bq_new_iff small_start_def)
qed

lemma small_end_values:
  "fst small_end = [Enq 1000, Deq 1000, Closing, Drained]" "pc (snd small_end) 0 = Finished"
proof -
  obtain es p where e: "small_end = (es, p)" by (rule prod.exhaust)
  from small_run_result have "es = [Enq 1000, Deq 1000, Closing, Drained] \<and> pc p 0 = Finished"
    unfolding e by simp
  then show "fst small_end = [Enq 1000, Deq 1000, Closing, Drained]" "pc (snd small_end) 0 = Finished"
    unfolding e by simp_all
qed

lemma bq_program_result_example:
  "mset (dequeued (fst small_end)) = requests [2] small_roles \<and> processed (snd small_end) = 1"
  using bq_program_result [OF small_reaches small_end_values(2)]
  by (simp add: small_end_values requests_def small_roles_def req_ids_def)

lemma demo_reaches_start:
  "prog_reaches 4 [3, 4] [1, 2] demo_roles [] (prog_init \<lparr>items = [], capacity = 4, closed = False\<rparr> demo_roles)"
  using demo_roles_ok prog_nil unfolding prog_reaches_def by (auto simp: bq_new_iff)

lemma bq_program_never_stuck_example:
  "\<exists>t e p'. prog_step (prog_init \<lparr>items = [], capacity = 4, closed = False\<rparr> demo_roles) e p' \<and>
     position p' t \<noteq> position (prog_init \<lparr>items = [], capacity = 4, closed = False\<rparr> demo_roles) t"
  using bq_program_never_stuck [OF demo_reaches_start]
  by (auto simp: prog_init_def demo_roles_def)

end
