(* ===== verification/BoundedQueueEnds.thy ===== *)
theory BoundedQueueEnds
  imports BoundedQueueRun
begin

text \<open>
  The program of \<^verbatim>\<open>examples/bounded_queue/main.cpp\<close> ends. \<open>weight\<close> bounds what a thread can
  still do: every action of a thread takes some of it away, a notification gives some to the
  threads it wakes, and the action that notifies pays for it. Only a spurious wake-up gives
  without paying, so the number of actions is bounded by the work there is and the number of
  spurious wake-ups. Together with the absence of deadlock and the result of
  \<open>BoundedQueueDemo\<close> this is the total correctness of the program.
\<close>

section \<open>Counting actions\<close>

definition spurious_wakeup :: "program \<Rightarrow> program \<Rightarrow> bool" where
  "spurious_wakeup p p' \<longleftrightarrow>
     (\<exists>t. blocked (th (mon p) t) \<and> p' = set_th t (wake_pop (wake_push (th (mon p) t))) p)"

lemma spurious_wakeupI:
  "th (mon p) t = Push_wait x \<Longrightarrow> spurious_wakeup p (p\<lparr>mon := mon p\<lparr>th := (th (mon p))(t := Push_lock x)\<rparr>\<rparr>)"
  "th (mon p) t = Pop_wait \<Longrightarrow> spurious_wakeup p (p\<lparr>mon := mon p\<lparr>th := (th (mon p))(t := Pop_lock)\<rparr>\<rparr>)"
  unfolding spurious_wakeup_def by (intro exI [of _ t]; simp add: blocked_def set_th_def)+

text \<open>\<open>prog_actions p k s es p'\<close>: a run with \<open>s\<close> spurious wake-ups and \<open>k\<close> other actions.\<close>

inductive prog_actions :: "program \<Rightarrow> nat \<Rightarrow> nat \<Rightarrow> int effect list \<Rightarrow> program \<Rightarrow> bool" where
  actions_nil: "prog_actions p 0 0 [] p"
| actions_snoc: "prog_actions p k s es p' \<Longrightarrow> prog_step p' e p'' \<Longrightarrow>
    prog_actions p (k + of_bool (\<not> spurious_wakeup p' p'')) (s + of_bool (spurious_wakeup p' p''))
      (es @ visible e) p''"

lemma actions_run: "prog_actions p k s es p' \<Longrightarrow> prog_run p es p'"
  by (induction rule: prog_actions.induct) (auto intro: prog_nil prog_snoc)

lemma run_actions: "prog_run p es p' \<Longrightarrow> \<exists>k s. prog_actions p k s es p'"
  by (induction rule: prog_run.induct) (blast intro: actions_nil actions_snoc)+

section \<open>What is left to do\<close>

text \<open>\<open>w\<close> is the number of threads a \<^verbatim>\<open>notify_all\<close> may wake.\<close>

fun weight :: "nat \<Rightarrow> client \<Rightarrow> int tstate \<Rightarrow> nat" where
  "weight w (Producer_start k n) x = 9 * nat n + 2"
| "weight w (Producer k i n) x = (case x of
     Push_lock y \<Rightarrow> 9 * nat (n - i)
   | Push_wait y \<Rightarrow> 9 * nat (n - i) - 1
   | Push_ret r \<Rightarrow> 9 * nat (n - i) - 7
   | _ \<Rightarrow> 9 * nat (n - i) + 1)"
| "weight w (Consumer k) x = (case x of
     Pop_lock \<Rightarrow> 2 | Pop_wait \<Rightarrow> 1 | Pop_ret None \<Rightarrow> 1 | Pop_ret (Some r) \<Rightarrow> 5 | _ \<Rightarrow> 3)"
| "weight w (Consumer_got k r) x = 4"
| "weight w (Main_join_producers us vs) x = length us + length vs + 6 + 2 * w"
| "weight w (Main_close vs) x = (case x of
     Close_lock \<Rightarrow> length vs + 5 + 2 * w
   | Close_notify_empty \<Rightarrow> length vs + 4 + 2 * w
   | Close_notify_full \<Rightarrow> length vs + 3 + w
   | _ \<Rightarrow> length vs + 2)"
| "weight w (Main_join_consumers us) x = length us + 1"
| "weight w c x = 0"

definition members :: "tid list \<Rightarrow> tid list \<Rightarrow> tid set" where
  "members ps cs = insert 0 (set ps \<union> set cs)"

definition total :: "nat \<Rightarrow> tid set \<Rightarrow> (tid \<Rightarrow> client) \<Rightarrow> (tid \<Rightarrow> int tstate) \<Rightarrow> nat" where
  "total w A c f = (\<Sum>t\<in>A. weight w (c t) (f t))"

definition left_to_do :: "nat \<Rightarrow> tid set \<Rightarrow> program \<Rightarrow> nat" where
  "left_to_do w A p = total w A (pc p) (th (mon p)) + 5 * length (items (bq (mon p)))"

lemma finite_members [simp]: "finite (members ps cs)"
  by (simp add: members_def)

lemma kinds_members: "kinds_ok ps cs p \<Longrightarrow> pc p t \<noteq> No_thread \<Longrightarrow> t \<in> members ps cs"
  by (drule kinds_okD(1) [OF _ refl, of _ _ _ t]) (auto simp: kind_ok_def members_def split: if_splits)

text \<open>A thread that is inside the queue is one of the program.\<close>

lemma inside_members: "kinds_ok ps cs p \<Longrightarrow> th (mon p) t \<noteq> Outside \<Longrightarrow> t \<in> members ps cs"
  using kinds_members [of ps cs p t] kinds_okD(2) [of ps cs p t No_thread] by auto

lemma total_moves:
  assumes "finite A" and "t \<in> A" and "\<And>u. u \<noteq> t \<Longrightarrow> c' u = c u \<and> f' u = f u"
  shows "total w A c' f' + weight w (c t) (f t) = total w A c f + weight w (c' t) (f' t)"
  unfolding total_def using assms(3) by (intro sum_one_moves [OF assms(1,2)]) auto

text \<open>A woken thread gets one more action.\<close>

lemma weight_woken:
  "agrees c Pop_wait \<Longrightarrow> weight w c Pop_lock = weight w c Pop_wait + 1"
  "agrees c (Push_wait x) \<Longrightarrow> weight w c (Push_lock x) = weight w c (Push_wait x) + 1"
  by (cases c; auto)+

lemma total_wake_one:
  assumes "finite A" and "\<And>u. f u \<noteq> Outside \<Longrightarrow> u \<in> A" and "\<And>u. agrees (c u) (f u)"
  shows "notify_one_to is_pop_wait wake_pop f f' \<Longrightarrow> total w A c f' \<le> total w A c f + 1"
    and "notify_one_to is_push_wait wake_push f f' \<Longrightarrow> total w A c f' \<le> total w A c f + 1"
proof -
  show "total w A c f' \<le> total w A c f + 1" if n: "notify_one_to is_pop_wait wake_pop f f'"
    using n
  proof (cases rule: notify_pop_cases)
    case (woken u)
    with assms(2) [of u] have "u \<in> A" by simp
    from total_moves [OF assms(1) this, of c c f' f w] woken assms(3) [of u] weight_woken(1) [of "c u" w]
    show ?thesis by simp
  qed simp
  show "total w A c f' \<le> total w A c f + 1" if n: "notify_one_to is_push_wait wake_push f f'"
    using n
  proof (cases rule: notify_push_cases)
    case (woken u x)
    with assms(2) [of u] have "u \<in> A" by simp
    from total_moves [OF assms(1) this, of c c f' f w] woken assms(3) [of u] weight_woken(2) [of "c u" x w]
    show ?thesis by simp
  qed simp
qed

lemma total_wake_all:
  assumes "finite A" and "\<And>u. agrees (c u) (f u)"
  shows "total w A c (notify_all is_pop_wait wake_pop f) \<le> total w A c f + card A"
    and "total w A c (notify_all is_push_wait wake_push f) \<le> total w A c f + card A"
proof -
  have "total w A c (notify_all is_pop_wait wake_pop f) \<le> (\<Sum>t\<in>A. weight w (c t) (f t) + 1)"
    unfolding total_def
  proof (rule sum_mono)
    fix t
    show "weight w (c t) (notify_all is_pop_wait wake_pop f t) \<le> weight w (c t) (f t) + 1"
      using assms(2) [of t] weight_woken(1) [of "c t" w] by (auto simp: notify_all_def)
  qed
  then show "total w A c (notify_all is_pop_wait wake_pop f) \<le> total w A c f + card A"
    unfolding sum.distrib by (simp add: total_def)
  have "total w A c (notify_all is_push_wait wake_push f) \<le> (\<Sum>t\<in>A. weight w (c t) (f t) + 1)"
    unfolding total_def
  proof (rule sum_mono)
    fix t
    show "weight w (c t) (notify_all is_push_wait wake_push f t) \<le> weight w (c t) (f t) + 1"
      using assms(2) [of t] weight_woken(2) [of "c t" _ w] by (auto simp: notify_all_def dest!: is_push_waitD)
  qed
  then show "total w A c (notify_all is_push_wait wake_push f) \<le> total w A c f + card A"
    unfolding sum.distrib by (simp add: total_def)
qed

section \<open>Every action does some of it\<close>

lemma upd_inside:
  "kinds_ok ps cs p \<Longrightarrow> t \<in> members ps cs \<Longrightarrow> ((th (mon p))(t := x)) u \<noteq> Outside \<Longrightarrow> u \<in> members ps cs"
  using inside_members [of ps cs p u] by (cases "u = t") auto

lemma upd_agrees:
  "kinds_ok ps cs p \<Longrightarrow> agrees (pc p t) x \<Longrightarrow> agrees (pc p u) (((th (mon p))(t := x)) u)"
  using kinds_okD(2) [of ps cs p u] by auto

lemma left_wakes_one:
  assumes "kinds_ok ps cs p" and "th (mon p) t \<noteq> Outside" and "agrees (pc p t) x"
  shows "notify_one_to is_pop_wait wake_pop ((th (mon p))(t := x)) f \<Longrightarrow>
      total w (members ps cs) (pc p) f \<le> total w (members ps cs) (pc p) ((th (mon p))(t := x)) + 1"
    and "notify_one_to is_push_wait wake_push ((th (mon p))(t := x)) f \<Longrightarrow>
      total w (members ps cs) (pc p) f \<le> total w (members ps cs) (pc p) ((th (mon p))(t := x)) + 1"
  by (rule total_wake_one [OF finite_members upd_inside [OF assms(1) inside_members [OF assms(1,2)]]
      upd_agrees [OF assms(1,3)]]; assumption)+

text \<open>One thread's new place in the queue.\<close>

lemma left_set_th:
  assumes "t \<in> members ps cs"
  shows "total w (members ps cs) (pc p) ((th (mon p))(t := x)) + weight w (pc p t) (th (mon p) t) =
    total w (members ps cs) (pc p) (th (mon p)) + weight w (pc p t) x"
  using total_moves [OF finite_members assms, of "pc p" "pc p" "(th (mon p))(t := x)" "th (mon p)" w] by simp

lemma left_mon_step:
  assumes "mon_step (mon p) e m" and "kinds_ok ps cs p" and "phase_ok ps cs p"
    and "\<not> spurious_wakeup p (p\<lparr>mon := m\<rparr>)" and w: "w = card (members ps cs)"
  shows "left_to_do w (members ps cs) (p\<lparr>mon := m\<rparr>) < left_to_do w (members ps cs) p"
proof -
  note ag = kinds_okD(2) [OF assms(2) refl]
  have t: "t \<in> members ps cs" if "th (mon p) t \<noteq> Outside" for t
    using inside_members assms(2) that .
  have mv: "total w (members ps cs) (pc p) ((th (mon p))(t := x)) + weight w (pc p t) (th (mon p) t) =
      total w (members ps cs) (pc p) (th (mon p)) + weight w (pc p t) x" if "th (mon p) t \<noteq> Outside" for t x
    using left_set_th t [OF that] .
  from assms(1) show ?thesis
  proof cases
    case (push_blocks t x)
    then obtain k i n where "pc p t = Producer k i n" "i < n" using ag [of t] agreesD(1) by metis
    with push_blocks mv [of t "Push_wait x"] show ?thesis
      by (simp add: left_to_do_def)
  next
    case (push_enqueues t x b f)
    then obtain k i n where c: "pc p t = Producer k i n" "i < n" using ag [of t] agreesD(1) by metis
    then have "0 < nat (n - i)" by simp
    moreover have "total w (members ps cs) (pc p) f \<le> total w (members ps cs) (pc p) ((th (mon p))(t := Push_ret True)) + 1"
      using push_enqueues c by (intro left_wakes_one(1) [OF assms(2)]) simp_all
    ultimately show ?thesis
      using push_enqueues c mv [of t "Push_ret True"] by (simp add: left_to_do_def)
  next
    case (push_rejected t x b)
    then have "\<not> producing (pc p t)" using closed_no_producers [OF assms(2,3)] by simp
    with push_rejected show ?thesis using ag [of t] by (auto dest: agreesD(1))
  next
    case (pop_blocks t)
    then obtain k where "pc p t = Consumer k" using ag [of t] agreesD(4) by metis
    with pop_blocks mv [of t Pop_wait] show ?thesis by (simp add: left_to_do_def)
  next
    case (pop_dequeues t x b f)
    then obtain k where c: "pc p t = Consumer k" using ag [of t] agreesD(4) by metis
    have "total w (members ps cs) (pc p) f \<le> total w (members ps cs) (pc p) ((th (mon p))(t := Pop_ret (Some x))) + 1"
      using pop_dequeues c by (intro left_wakes_one(2) [OF assms(2)]) simp_all
    with pop_dequeues c mv [of t "Pop_ret (Some x)"] show ?thesis
      by (auto simp: left_to_do_def)
  next
    case (pop_drained t b)
    then obtain k where "pc p t = Consumer k" using ag [of t] agreesD(4) by metis
    with pop_drained mv [of t "Pop_ret None"] show ?thesis by (simp add: left_to_do_def)
  next
    case (push_spurious t x)
    with assms(4) show ?thesis using spurious_wakeupI by auto
  next
    case (pop_spurious t)
    with assms(4) show ?thesis using spurious_wakeupI by auto
  next
    case (close_sets t)
    then obtain vs where "pc p t = Main_close vs" using ag [of t] agreesD(7) by metis
    with close_sets mv [of t Close_notify_empty] show ?thesis by (simp add: left_to_do_def)
  next
    case (close_wakes_pop t)
    then obtain vs where c: "pc p t = Main_close vs" using ag [of t] agreesD(8) by metis
    have "total w (members ps cs) (pc p) (notify_all is_pop_wait wake_pop ((th (mon p))(t := Close_notify_full)))
      \<le> total w (members ps cs) (pc p) ((th (mon p))(t := Close_notify_full)) + w"
      unfolding w using c upd_agrees [OF assms(2)] by (intro total_wake_all(1)) auto
    with close_wakes_pop c mv [of t Close_notify_full] show ?thesis
      by (simp add: left_to_do_def)
  next
    case (close_wakes_push t)
    then obtain vs where c: "pc p t = Main_close vs" using ag [of t] agreesD(9) by metis
    have "total w (members ps cs) (pc p) (notify_all is_push_wait wake_push ((th (mon p))(t := Close_ret)))
      \<le> total w (members ps cs) (pc p) ((th (mon p))(t := Close_ret)) + w"
      unfolding w using c upd_agrees [OF assms(2)] by (intro total_wake_all(2)) auto
    with close_wakes_push c mv [of t Close_ret] show ?thesis
      by (simp add: left_to_do_def)
  qed
qed

text \<open>The step of one thread between two queue operations.\<close>

lemma client_step_weight:
  assumes "client_step p p'" and "\<And>t. agrees (pc p t) (th (mon p) t)"
  shows "\<exists>t. pc p t \<noteq> No_thread \<and> (\<forall>u. u \<noteq> t \<longrightarrow> pc p' u = pc p u \<and> th (mon p') u = th (mon p) u) \<and>
    weight w (pc p' t) (th (mon p') t) < weight w (pc p t) (th (mon p) t) \<and>
    items (bq (mon p')) = items (bq (mon p))"
  using assms(1)
  by cases (rule_tac x = t in exI, insert assms(2), drule_tac x = t in meta_spec, fastforce simp: program_updates)+

lemma left_client_step:
  assumes "client_step p p'" and "kinds_ok ps cs p"
  shows "left_to_do w (members ps cs) p' < left_to_do w (members ps cs) p"
proof -
  obtain t where t: "pc p t \<noteq> No_thread" "\<And>u. u \<noteq> t \<Longrightarrow> pc p' u = pc p u \<and> th (mon p') u = th (mon p) u"
    "weight w (pc p' t) (th (mon p') t) < weight w (pc p t) (th (mon p) t)"
    "items (bq (mon p')) = items (bq (mon p))"
    using client_step_weight [OF assms(1) kinds_okD(2) [OF assms(2) refl], of w] by blast
  then show ?thesis
    using total_moves [of _ t "pc p'" "pc p" "th (mon p')" "th (mon p)" w, OF finite_members kinds_members [OF assms(2) t(1)] t(2)]
    by (simp add: left_to_do_def)
qed

text \<open>A spurious wake-up gives one action.\<close>

lemma left_spurious:
  assumes "spurious_wakeup p p'" and "kinds_ok ps cs p"
  shows "left_to_do w (members ps cs) p' \<le> left_to_do w (members ps cs) p + 1"
proof -
  from assms(1) obtain t where t: "blocked (th (mon p) t)"
    and p': "p' = set_th t (wake_pop (wake_push (th (mon p) t))) p"
    by (auto simp: spurious_wakeup_def)
  have ag: "agrees (pc p t) (th (mon p) t)" using kinds_okD(2) [OF assms(2) refl] .
  have "t \<in> members ps cs" using t by (intro inside_members [OF assms(2)]) (auto simp: blocked_def)
  from left_set_th [OF this, of w p "wake_pop (wake_push (th (mon p) t))"]
  show ?thesis
    using t ag weight_woken [of "pc p t"] unfolding p'
    by (auto simp: left_to_do_def set_th_def blocked_def dest!: is_push_waitD)
qed

lemma left_step:
  assumes "prog_step p e p'" and "prog_inv ps cs allr es p"
  shows "left_to_do (card (members ps cs)) (members ps cs) p' + of_bool (\<not> spurious_wakeup p p')
    \<le> left_to_do (card (members ps cs)) (members ps cs) p + of_bool (spurious_wakeup p p')"
proof (cases "spurious_wakeup p p'")
  case True
  with left_spurious [OF True] assms(2) show ?thesis by (simp add: prog_inv_def)
next
  case False
  with assms have "left_to_do (card (members ps cs)) (members ps cs) p' < left_to_do (card (members ps cs)) (members ps cs) p"
    by (auto simp: prog_inv_def elim!: prog_step.cases intro: left_mon_step left_client_step)
  with False show ?thesis by simp
qed

lemma actions_bounded:
  "prog_actions p k s es p' \<Longrightarrow> prog_inv ps cs allr [] p \<Longrightarrow>
   k + left_to_do (card (members ps cs)) (members ps cs) p' \<le> left_to_do (card (members ps cs)) (members ps cs) p + s"
proof (induction rule: prog_actions.induct)
  case (actions_snoc p k s es p' e p'')
  then have "prog_inv ps cs allr es p'" using actions_run prog_run_inv by blast
  from left_step [OF actions_snoc(2) this] actions_snoc show ?case by simp
qed simp

lemma req_ids_size: "size (req_ids k i n) = nat (n - i)"
  by (simp add: req_ids_def)

lemma left_initially:
  assumes "roles_ok ps cs f" and "BoundedQueue_new n = Inr b"
  shows "left_to_do (card (members ps cs)) (members ps cs) (prog_init b f)
    \<le> 9 * size (requests ps f) + 5 * length ps + 6 * length cs + 8"
proof -
  let ?w = "card (members ps cs)"
  from assms(1) have zero: "0 \<notin> set ps \<union> set cs" and disj: "set ps \<inter> set cs = {}"
    and f0: "f 0 = Main_join_producers ps cs" and pr: "\<And>t. t \<in> set ps \<Longrightarrow> \<exists>k n. f t = Producer_start k n"
    and co: "\<And>t. t \<in> set cs \<Longrightarrow> \<exists>k. f t = Consumer k"
    by (auto simp: roles_ok_def)
  have "(\<Sum>t\<in>set ps. weight ?w (f t) Outside) = (\<Sum>t\<in>set ps. 9 * size (todo (f t) Outside) + 2)"
    by (intro sum.cong) (auto simp: req_ids_size dest!: pr)
  also have "\<dots> = 9 * size (requests ps f) + 2 * card (set ps)"
    unfolding sum.distrib by (simp add: requests_def size_multiset_sum sum_distrib_left)
  finally have producers: "(\<Sum>t\<in>set ps. weight ?w (f t) Outside) = 9 * size (requests ps f) + 2 * card (set ps)" .
  have consumers: "(\<Sum>t\<in>set cs. weight ?w (f t) Outside) = 3 * card (set cs)"
    by (subst sum.cong [OF refl, of _ _ "\<lambda>_. 3"]) (auto dest!: co)
  have "total ?w (members ps cs) f (\<lambda>_. Outside) =
      weight ?w (f 0) Outside + 9 * size (requests ps f) + 2 * card (set ps) + 3 * card (set cs)"
    using zero disj producers consumers by (simp add: total_def members_def sum.union_disjoint)
  moreover have "?w \<le> 1 + length ps + length cs"
    using card_length [of ps] card_length [of cs] card_Un_le [of "set ps" "set cs"] card_insert_le_m1
    by (simp add: members_def card_insert_if)
  ultimately show ?thesis
    using f0 assms(2) card_length [of ps] card_length [of cs]
    by (auto simp: left_to_do_def prog_init_def bq_init_def bq_new_iff)
qed

section \<open>Total correctness\<close>

lemma unblocked_step:
  assumes "\<not> blocked (th (mon p) t)" and "position p' t \<noteq> position p t"
  shows "\<not> spurious_wakeup p p'"
  using assms by (auto simp: spurious_wakeup_def position_def set_th_def split: if_splits)

text \<open>C5. The program is totally correct, for any capacity, any producers, at least one consumer
  and every schedule. Beside spurious wake-ups it makes at most nine actions per request and
  a few per thread, plus one for each spurious wake-up. It never deadlocks: as long as \<^verbatim>\<open>main\<close>
  has not finished there is another action that is not a spurious wake-up. And when \<^verbatim>\<open>main\<close> has
  finished, every request of every producer has been taken from the queue exactly once, the
  queue is empty, every thread has returned, and the last line of the output reports the
  number of requests.\<close>

theorem bq_program_correct:
  assumes "roles_ok ps cs f" and "BoundedQueue_new n = Inr b" and "prog_actions (prog_init b f) k s es p"
  shows "k \<le> 9 * size (requests ps f) + 5 * length ps + 6 * length cs + 8 + s \<and>
    (if pc p 0 \<noteq> Finished then \<exists>e p'. prog_step p e p' \<and> \<not> spurious_wakeup p p'
     else mset (dequeued es) = requests ps f \<and> items (bq (mon p)) = [] \<and>
       (\<forall>t\<in>set ps \<union> set cs. pc p t = Finished) \<and>
       last (out p) = ''Processed '' @ show_int (int (size (requests ps f))) @ '' items.'')"
proof -
  have reaches: "prog_reaches n ps cs f es p"
    using assms actions_run by (auto simp: prog_reaches_def)
  have "k \<le> 9 * size (requests ps f) + 5 * length ps + 6 * length cs + 8 + s"
    using actions_bounded [OF assms(3) prog_inv_init [OF assms(1,2)]] left_initially [OF assms(1,2)] by simp
  moreover have "\<exists>e p'. prog_step p e p' \<and> \<not> spurious_wakeup p p'" if "pc p 0 \<noteq> Finished"
    using bq_program_never_stuck [OF reaches that] unblocked_step by blast
  ultimately show ?thesis
    using bq_program_result [OF reaches] by simp
qed

theorem bq_program_correct_witness:
  "(\<exists>k s. prog_actions small_start k s (fst small_end) (snd small_end) \<and> k \<le> 28 + s \<and>
     mset (dequeued (fst small_end)) = {#1000#} \<and> last (out (snd small_end)) = ''Processed 1 items.'') \<and>
   (\<exists>e p'. prog_step small_start e p' \<and> \<not> spurious_wakeup small_start p')"
proof
  have roles: "roles_ok [2] [1] small_roles" by (simp add: roles_ok_def small_roles_def)
  have new: "BoundedQueue_new 1 = Inr (\<lparr>items = [], capacity = 1, closed = False\<rparr> :: int bqueue)"
    by (simp add: bq_new_iff)
  have reqs: "requests [2] small_roles = {#1000#}"
    by (simp add: requests_def small_roles_def req_ids_def req_id_def)
  have shown: "''Processed '' @ show_int 1 @ '' items.'' = ''Processed 1 items.''" by code_simp
  have "prog_run small_start (fst small_end) (snd small_end)"
    using small_reaches by (simp add: prog_reaches_def bq_new_iff small_start_def)
  then obtain k s where run: "prog_actions small_start k s (fst small_end) (snd small_end)"
    using run_actions by blast
  with bq_program_correct [OF roles new run [unfolded small_start_def]] small_end_values(2) reqs shown
  show "\<exists>k s. prog_actions small_start k s (fst small_end) (snd small_end) \<and> k \<le> 28 + s \<and>
      mset (dequeued (fst small_end)) = {#1000#} \<and> last (out (snd small_end)) = ''Processed 1 items.''"
    by (intro exI [of _ k] exI [of _ s]) simp
  have "pc small_start 0 \<noteq> Finished" by (simp add: small_start_def prog_init_def small_roles_def)
  with bq_program_correct [OF roles new, of 0 0 "[]" small_start] actions_nil
  show "\<exists>e p'. prog_step small_start e p' \<and> \<not> spurious_wakeup small_start p'"
    by (simp add: small_start_def)
qed

end
