(* ===== verification/ThreadPool.thy ===== *)
theory ThreadPool
  imports Concurrency "HOL-Library.Multiset" "HOL-Library.Signed_Division"
begin

text \<open>
  The thread pool of \<^verbatim>\<open>examples/thread_pool/main.cpp\<close>, used by any number of threads.

  \<open>pool\<close> is the object: the queue of jobs, the flag \<^verbatim>\<open>stopping_\<close> and the worker threads,
  together with the shared states of the packaged tasks (\<open>fut\<close>, what a future's
  \<^verbatim>\<open>get\<close> will return, \<open>None\<close> while it is not ready). A job is the queued closure: the
  number of its packaged task and the argument the callable was bound to. The callable itself
  is the template parameter of \<^verbatim>\<open>submit\<close>, here the argument \<open>fn\<close> of the step relation; it
  returns a value or throws, and does not use the pool.

  \<open>wstate\<close> is where a thread is: a worker in \<^verbatim>\<open>worker_loop\<close>, a client in \<^verbatim>\<open>submit\<close>, or the
  owner in the destructor. \<open>pool_step\<close> has one rule per critical section, notification or
  step between them, and \<open>sys_step\<close> adds the calls of an arbitrary set of clients; thread 0
  owns the pool and is the one that may destroy it. All workers exist when the constructor
  returns.

  Proved: no notification is lost, jobs are started in the order of submission and run exactly
  once, the destructor returns only when every accepted job has run, and neither a future nor
  the destructor can wait for ever on threads that cannot move.
\<close>

section \<open>The pool\<close>

datatype 'a job = Job (task: nat) (arg: 'a)

datatype 'a wstate =
    Client
  | Worker_start nat
  | Worker_lock nat
  | Worker_wait nat
  | Worker_got nat "'a job"
  | Worker_run nat "'a job"
  | Worker_stopped nat
  | Submit_lock "'a job"
  | Submit_notify "'a job"
  | Submit_ret "'a job"
  | Submit_threw cpp_exn
  | Dtor_lock
  | Dtor_notify
  | Dtor_join "tid list"
  | Dtor_ret

record ('a, 'r) pool =
  queue :: "'a job list"
  stopping :: bool
  workers :: "tid list"
  th :: "tid \<Rightarrow> 'a wstate"
  fut :: "nat \<Rightarrow> (cpp_exn + 'r) option"
  next_task :: nat
  out :: console

definition ThreadPool_new :: "nat \<Rightarrow> console \<Rightarrow> cpp_exn + ('a, 'r) pool" where
  "ThreadPool_new n con =
     (if n = 0 then Inl (Invalid_argument ''threads must be > 0'')
      else Inr \<lparr>queue = [], stopping = False, workers = [1..<Suc n],
        th = (\<lambda>t. if 1 \<le> t \<and> t \<le> n then Worker_start (t - 1) else Client),
        fut = (\<lambda>_. None), next_task = 0, out = con\<rparr>)"

text \<open>The critical sections of \<^verbatim>\<open>submit\<close> and \<^verbatim>\<open>worker_loop\<close>.\<close>

definition submit_locked :: "'a job \<Rightarrow> 'a job list \<Rightarrow> bool \<Rightarrow> cpp_exn + 'a job list" where
  "submit_locked j q stop =
     (if stop then Inl (Runtime_error ''submit on stopped ThreadPool'') else Inr (q @ [j]))"

definition worker_ready :: "'a job list \<Rightarrow> bool \<Rightarrow> bool" where
  "worker_ready q stop \<longleftrightarrow> stop \<or> q \<noteq> []"

definition worker_take :: "'a job list \<Rightarrow> bool \<Rightarrow> ('a job \<times> 'a job list) option" where
  "worker_take q stop = (if stop \<and> q = [] then None else Some (hd q, tl q))"

definition worker_log :: "nat \<Rightarrow> string \<Rightarrow> console \<Rightarrow> console" where
  "worker_log i msg = log_line [''[worker-'', show_nat i, msg]"

fun is_wait :: "'a wstate \<Rightarrow> bool" where
  "is_wait (Worker_wait i) = True"
| "is_wait x = False"

fun wake :: "'a wstate \<Rightarrow> 'a wstate" where
  "wake (Worker_wait i) = Worker_lock i"
| "wake x = x"

datatype 'a pool_event =
    Accepted "'a job" | Refused "'a job" | Started "'a job" | Finished "'a job" | Stopping | Silent

inductive pool_step ::
  "('a \<Rightarrow> cpp_exn + 'r) \<Rightarrow> ('a, 'r) pool \<Rightarrow> 'a pool_event \<Rightarrow> ('a, 'r) pool \<Rightarrow> bool" for fn where
  worker_starts: "th s t = Worker_start i \<Longrightarrow>
    pool_step fn s Silent (s\<lparr>th := (th s)(t := Worker_lock i), out := worker_log i ''] start'' (out s)\<rparr>)"
| worker_blocks: "th s t = Worker_lock i \<Longrightarrow> \<not> worker_ready (queue s) (stopping s) \<Longrightarrow>
    pool_step fn s Silent (s\<lparr>th := (th s)(t := Worker_wait i)\<rparr>)"
| worker_spurious: "th s t = Worker_wait i \<Longrightarrow>
    pool_step fn s Silent (s\<lparr>th := (th s)(t := Worker_lock i)\<rparr>)"
| worker_stops: "th s t = Worker_lock i \<Longrightarrow> worker_ready (queue s) (stopping s) \<Longrightarrow>
    worker_take (queue s) (stopping s) = None \<Longrightarrow>
    pool_step fn s Silent (s\<lparr>th := (th s)(t := Worker_stopped i), out := worker_log i ''] stop'' (out s)\<rparr>)"
| worker_takes: "th s t = Worker_lock i \<Longrightarrow> worker_ready (queue s) (stopping s) \<Longrightarrow>
    worker_take (queue s) (stopping s) = Some (j, q) \<Longrightarrow>
    pool_step fn s (Started j) (s\<lparr>queue := q, th := (th s)(t := Worker_got i j)\<rparr>)"
| worker_logs: "th s t = Worker_got i j \<Longrightarrow>
    pool_step fn s Silent (s\<lparr>th := (th s)(t := Worker_run i j), out := worker_log i ''] run job'' (out s)\<rparr>)"
| worker_runs: "th s t = Worker_run i j \<Longrightarrow>
    pool_step fn s (Finished j)
      (s\<lparr>th := (th s)(t := Worker_lock i), fut := (fut s)(task j \<mapsto> fn (arg j))\<rparr>)"
| submit_accepted: "th s t = Submit_lock j \<Longrightarrow> submit_locked j (queue s) (stopping s) = Inr q \<Longrightarrow>
    pool_step fn s (Accepted j) (s\<lparr>queue := q, th := (th s)(t := Submit_notify j)\<rparr>)"
| submit_refused: "th s t = Submit_lock j \<Longrightarrow> submit_locked j (queue s) (stopping s) = Inl x \<Longrightarrow>
    pool_step fn s (Refused j) (s\<lparr>th := (th s)(t := Submit_threw x)\<rparr>)"
| submit_notifies: "th s t = Submit_notify j \<Longrightarrow>
    notify_one_to is_wait wake ((th s)(t := Submit_ret j)) f \<Longrightarrow>
    pool_step fn s Silent (s\<lparr>th := f\<rparr>)"
| dtor_sets: "th s t = Dtor_lock \<Longrightarrow>
    pool_step fn s Stopping (s\<lparr>stopping := True, th := (th s)(t := Dtor_notify)\<rparr>)"
| dtor_notifies: "th s t = Dtor_notify \<Longrightarrow>
    pool_step fn s Silent (s\<lparr>th := notify_all is_wait wake ((th s)(t := Dtor_join (workers s)))\<rparr>)"
| dtor_joins: "th s t = Dtor_join (u # us) \<Longrightarrow> th s u = Worker_stopped i \<Longrightarrow>
    pool_step fn s Silent (s\<lparr>th := (th s)(t := Dtor_join us)\<rparr>)"
| dtor_returns: "th s t = Dtor_join [] \<Longrightarrow>
    pool_step fn s Silent (s\<lparr>th := (th s)(t := Dtor_ret)\<rparr>)"

text \<open>
  The clients. A call of \<^verbatim>\<open>submit\<close> first makes a new packaged task, whose shared state is
  empty; when the call throws, the task and its future are gone with it.
\<close>

inductive sys_step ::
  "('a \<Rightarrow> cpp_exn + 'r) \<Rightarrow> ('a, 'r) pool \<Rightarrow> 'a pool_event \<Rightarrow> ('a, 'r) pool \<Rightarrow> bool" for fn where
  sys_inside: "pool_step fn s e s' \<Longrightarrow> sys_step fn s e s'"
| sys_submit: "th s t = Client \<Longrightarrow>
    sys_step fn s Silent
      (s\<lparr>th := (th s)(t := Submit_lock (Job (next_task s) a)), next_task := next_task s + 1\<rparr>)"
| sys_submitted: "th s t = Submit_ret j \<Longrightarrow> sys_step fn s Silent (s\<lparr>th := (th s)(t := Client)\<rparr>)"
| sys_threw: "th s t = Submit_threw x \<Longrightarrow> sys_step fn s Silent (s\<lparr>th := (th s)(t := Client)\<rparr>)"
| sys_destroy: "th s 0 = Client \<Longrightarrow> sys_step fn s Silent (s\<lparr>th := (th s)(0 := Dtor_lock)\<rparr>)"

inductive sys_run ::
  "('a \<Rightarrow> cpp_exn + 'r) \<Rightarrow> ('a, 'r) pool \<Rightarrow> 'a pool_event list \<Rightarrow> ('a, 'r) pool \<Rightarrow> bool" for fn where
  sys_nil: "sys_run fn s [] s"
| sys_snoc: "sys_run fn s es s' \<Longrightarrow> sys_step fn s' e s'' \<Longrightarrow> sys_run fn s (es @ [e]) s''"

definition pool_reaches ::
  "('a \<Rightarrow> cpp_exn + 'r) \<Rightarrow> nat \<Rightarrow> 'a pool_event list \<Rightarrow> ('a, 'r) pool \<Rightarrow> bool" where
  "pool_reaches fn n es s \<longleftrightarrow> (\<exists>s0 con. ThreadPool_new n con = Inr s0 \<and> sys_run fn s0 es s)"

fun accepted :: "'a pool_event list \<Rightarrow> 'a job list" where
  "accepted [] = []"
| "accepted (Accepted j # es) = j # accepted es"
| "accepted (e # es) = accepted es"

fun started :: "'a pool_event list \<Rightarrow> 'a job list" where
  "started [] = []"
| "started (Started j # es) = j # started es"
| "started (e # es) = started es"

fun finished :: "'a pool_event list \<Rightarrow> 'a job list" where
  "finished [] = []"
| "finished (Finished j # es) = j # finished es"
| "finished (e # es) = finished es"

lemma accepted_append [simp]: "accepted (es @ fs) = accepted es @ accepted fs"
  by (induction es rule: accepted.induct) simp_all

lemma started_append [simp]: "started (es @ fs) = started es @ started fs"
  by (induction es rule: started.induct) simp_all

lemma finished_append [simp]: "finished (es @ fs) = finished es @ finished fs"
  by (induction es rule: finished.induct) simp_all

section \<open>Critical sections\<close>

lemma submit_locked_Inr [simp]: "submit_locked j q stop = Inr q' \<longleftrightarrow> \<not> stop \<and> q' = q @ [j]"
  by (auto simp: submit_locked_def)

lemma submit_locked_Inl [simp]:
  "submit_locked j q stop = Inl x \<longleftrightarrow> stop \<and> x = Runtime_error ''submit on stopped ThreadPool''"
  by (auto simp: submit_locked_def)

lemma worker_take_None [simp]: "worker_take q stop = None \<longleftrightarrow> stop \<and> q = []"
  by (simp add: worker_take_def)

lemma worker_take_Some:
  "worker_ready q stop \<Longrightarrow> worker_take q stop = Some (j, q') \<longleftrightarrow> q = j # q'"
  by (cases q) (auto simp: worker_take_def worker_ready_def)

section \<open>The invariant\<close>

fun is_lock :: "'a wstate \<Rightarrow> bool" where
  "is_lock (Worker_lock i) = True"
| "is_lock x = False"

fun is_notify :: "'a wstate \<Rightarrow> bool" where
  "is_notify (Submit_notify j) = True"
| "is_notify x = False"

fun is_worker :: "'a wstate \<Rightarrow> bool" where
  "is_worker (Worker_start i) = True"
| "is_worker (Worker_lock i) = True"
| "is_worker (Worker_wait i) = True"
| "is_worker (Worker_got i j) = True"
| "is_worker (Worker_run i j) = True"
| "is_worker (Worker_stopped i) = True"
| "is_worker x = False"

fun is_stopped :: "'a wstate \<Rightarrow> bool" where
  "is_stopped (Worker_stopped i) = True"
| "is_stopped x = False"

fun is_dtor :: "'a wstate \<Rightarrow> bool" where
  "is_dtor Dtor_lock = True"
| "is_dtor Dtor_notify = True"
| "is_dtor (Dtor_join us) = True"
| "is_dtor Dtor_ret = True"
| "is_dtor x = False"

abbreviation active :: "'a wstate \<Rightarrow> bool" where
  "active x \<equiv> x \<noteq> Client"

text \<open>The jobs a worker has taken and not finished.\<close>

fun in_hand :: "'a wstate \<Rightarrow> 'a job multiset" where
  "in_hand (Worker_got i j) = {#j#}"
| "in_hand (Worker_run i j) = {#j#}"
| "in_hand x = {#}"

text \<open>
  While the pool is not stopping, if a worker is blocked there are at least as many threads
  that will look at the queue or notify as there are queued jobs; once it is stopping, a
  worker is blocked only while the destructor has not notified yet.
\<close>

definition wakeups :: "('a, 'r) pool \<Rightarrow> bool" where
  "wakeups s \<longleftrightarrow> (0 < cnt is_wait (th s) \<longrightarrow>
     (if stopping s then 0 < cnt (\<lambda>x. x = Dtor_notify) (th s)
      else length (queue s) \<le> cnt is_lock (th s) + cnt is_notify (th s)))"

definition threads_ok :: "nat \<Rightarrow> ('a, 'r) pool \<Rightarrow> bool" where
  "threads_ok n s \<longleftrightarrow> 0 < n \<and> workers s = [1..<Suc n] \<and>
     (\<forall>t. is_worker (th s t) \<longleftrightarrow> 1 \<le> t \<and> t \<le> n) \<and> (\<forall>t. is_dtor (th s t) \<longrightarrow> t = 0)"

definition phases_ok :: "nat \<Rightarrow> ('a, 'r) pool \<Rightarrow> bool" where
  "phases_ok n s \<longleftrightarrow>
     (stopping s \<longleftrightarrow> is_dtor (th s 0) \<and> th s 0 \<noteq> Dtor_lock) \<and>
     (\<forall>us. th s 0 = Dtor_join us \<longrightarrow>
        set us \<subseteq> {1..n} \<and> (\<forall>u\<in>{1..n}. u \<in> set us \<or> is_stopped (th s u))) \<and>
     (th s 0 = Dtor_ret \<longrightarrow> (\<forall>u\<in>{1..n}. is_stopped (th s u)))"

definition stops_ok :: "('a, 'r) pool \<Rightarrow> bool" where
  "stops_ok s \<longleftrightarrow> (\<forall>t. is_stopped (th s t) \<longrightarrow> stopping s \<and> queue s = [])"

definition jobs_ok :: "nat \<Rightarrow> 'a pool_event list \<Rightarrow> ('a, 'r) pool \<Rightarrow> bool" where
  "jobs_ok n es s \<longleftrightarrow> accepted es = started es @ queue s \<and>
     mset (finished es) + (\<Sum>t\<in>{1..n}. in_hand (th s t)) = mset (started es)"

text \<open>Every call of \<^verbatim>\<open>submit\<close> has a packaged task of its own.\<close>

definition tasks_ok :: "'a pool_event list \<Rightarrow> ('a, 'r) pool \<Rightarrow> bool" where
  "tasks_ok es s \<longleftrightarrow> distinct (map task (accepted es)) \<and>
     (\<forall>j\<in>set (accepted es). task j < next_task s) \<and>
     (\<forall>t j. th s t = Submit_lock j \<longrightarrow> task j < next_task s \<and> task j \<notin> task ` set (accepted es) \<and>
        (\<forall>u k. th s u = Submit_lock k \<longrightarrow> u \<noteq> t \<longrightarrow> task k \<noteq> task j))"

definition futs_ok :: "('a \<Rightarrow> cpp_exn + 'r) \<Rightarrow> 'a pool_event list \<Rightarrow> ('a, 'r) pool \<Rightarrow> bool" where
  "futs_ok fn es s \<longleftrightarrow>
     (\<forall>k r. fut s k = Some r \<longleftrightarrow> (\<exists>j\<in>set (finished es). task j = k \<and> r = fn (arg j)))"

section \<open>Preservation\<close>

lemma is_waitD: "is_wait x \<Longrightarrow> \<exists>i. x = Worker_wait i"
  by (cases x) auto

lemma notify_cases:
  assumes "notify_one_to is_wait wake f f'"
  obtains (woken) u i where "f u = Worker_wait i" and "f' = f(u := Worker_lock i)"
  | (nobody) "cnt is_wait f = 0" and "f' = f"
  using assms by (auto elim!: notify_one_to.cases dest: is_waitD simp: cnt_def)

text \<open>A notification changes no class of states that does not tell a blocked worker from a
  woken one.\<close>

lemma notify_class:
  "notify_one_to is_wait wake f f' \<Longrightarrow> (\<And>i. P (Worker_lock i) \<longleftrightarrow> P (Worker_wait i)) \<Longrightarrow> P (f' u) \<longleftrightarrow> P (f u)"
  by (erule notify_cases) auto

lemma notify_all_class:
  "(\<And>i. P (Worker_lock i) \<longleftrightarrow> P (Worker_wait i)) \<Longrightarrow> P (notify_all is_wait wake f u) \<longleftrightarrow> P (f u)"
  by (cases "f u") (auto simp: notify_all_def)

lemma notify_same:
  "notify_one_to is_wait wake f f' \<Longrightarrow> (\<And>i. x \<noteq> Worker_lock i \<and> x \<noteq> Worker_wait i) \<Longrightarrow> f' u = x \<longleftrightarrow> f u = x"
  by (erule notify_cases) auto

lemma notify_all_same:
  "(\<And>i. x \<noteq> Worker_lock i \<and> x \<noteq> Worker_wait i) \<Longrightarrow> notify_all is_wait wake f u = x \<longleftrightarrow> f u = x"
  by (cases "f u") (auto simp: notify_all_def)

lemma notify_in_hand:
  "notify_one_to is_wait wake f f' \<Longrightarrow> in_hand (f' u) = in_hand (f u)"
  by (erule notify_cases) auto

lemma notify_all_in_hand: "in_hand (notify_all is_wait wake f u) = in_hand (f u)"
  by (cases "f u") (auto simp: notify_all_def)

lemma fin_active:
  assumes "fin active f"
  shows "fin is_wait f" "fin is_lock f" "fin is_notify f" "fin (\<lambda>x. x = Dtor_notify) f"
  using assms by (auto intro: fin_mono)

lemma notify_all_cnt [simp]:
  "cnt is_wait (notify_all is_wait wake f) = 0"
  by (rule cnt_notify_all_0; auto dest: is_waitD)+

lemma fin_notify: "notify_one_to is_wait wake f f' \<Longrightarrow> fin active f' \<longleftrightarrow> fin active f"
  by (erule notify_cases) simp_all

lemma fin_active_step: "sys_step fn s e s' \<Longrightarrow> fin active (th s) \<Longrightarrow> fin active (th s')"
proof (induction rule: sys_step.induct)
  case (sys_inside s e s')
  then show ?case
  proof (induction rule: pool_step.induct)
    case (submit_notifies s t j f)
    then show ?case by (simp add: fin_notify)
  next
    case (dtor_notifies s t)
    then show ?case by (auto intro!: fin_notify_all dest: is_waitD)
  qed simp_all
qed simp_all

lemma wakeups_step:
  "sys_step fn s e s' \<Longrightarrow> fin active (th s) \<Longrightarrow> wakeups s \<Longrightarrow> wakeups s'"
proof (induction rule: sys_step.induct)
  case (sys_inside s e s')
  note fins = fin_active [OF sys_inside.prems(1)]
  from sys_inside fins show ?case
  proof (induction rule: pool_step.induct)
    case (submit_notifies s t j f)
    from submit_notifies(2) show ?case
    proof (cases rule: notify_cases)
      case (woken u i)
      with submit_notifies show ?thesis
        by (auto simp: wakeups_def cnt_upd split: if_splits)
    next
      case nobody
      with submit_notifies show ?thesis by (simp add: wakeups_def)
    qed
  next
    case (worker_takes s t i j q)
    then show ?case by (auto simp: wakeups_def cnt_upd worker_take_Some split: if_splits)
  next
    case (worker_blocks s t i)
    then show ?case by (auto simp: wakeups_def cnt_upd worker_ready_def split: if_splits)
  next
    case (dtor_notifies s t)
    then show ?case by (simp add: wakeups_def)
  qed (auto simp: wakeups_def cnt_upd split: if_splits)
qed (auto simp: wakeups_def cnt_upd fin_active split: if_splits)

text \<open>What one thread's move does to the classification of the threads.\<close>

lemma threads_ok_class:
  assumes "threads_ok n s" and "\<And>u. is_worker (th s' u) \<longleftrightarrow> is_worker (th s u)"
    and "\<And>u. is_dtor (th s' u) \<Longrightarrow> is_dtor (th s u) \<or> u = 0" and "workers s' = workers s"
  shows "threads_ok n s'"
  using assms unfolding threads_ok_def by metis

lemma notify_is_worker: "notify_one_to is_wait wake f f' \<Longrightarrow> is_worker (f' u) \<longleftrightarrow> is_worker (f u)"
  by (rule notify_class) simp_all

lemma notify_is_dtor: "notify_one_to is_wait wake f f' \<Longrightarrow> is_dtor (f' u) \<longleftrightarrow> is_dtor (f u)"
  by (rule notify_class) simp_all

lemma notify_is_stopped: "notify_one_to is_wait wake f f' \<Longrightarrow> is_stopped (f' u) \<longleftrightarrow> is_stopped (f u)"
  by (rule notify_class) simp_all

lemma notify_all_is_worker: "is_worker (notify_all is_wait wake f u) \<longleftrightarrow> is_worker (f u)"
  by (rule notify_all_class) simp

lemma notify_all_is_dtor: "is_dtor (notify_all is_wait wake f u) \<longleftrightarrow> is_dtor (f u)"
  by (rule notify_all_class) simp

lemma notify_all_is_stopped: "is_stopped (notify_all is_wait wake f u) \<longleftrightarrow> is_stopped (f u)"
  by (rule notify_all_class) simp

lemmas notify_simps = notify_is_worker notify_is_dtor notify_is_stopped notify_in_hand

lemmas notify_all_simps = notify_all_is_worker notify_all_is_dtor notify_all_is_stopped notify_all_in_hand

lemma threads_ok_step: "sys_step fn s e s' \<Longrightarrow> threads_ok n s \<Longrightarrow> threads_ok n s'"
proof (induction rule: sys_step.induct)
  case (sys_inside s e s')
  then show ?case
  proof (induction rule: pool_step.induct)
    case (submit_notifies s t j f)
    from submit_notifies(3) show ?case
      by (rule threads_ok_class)
        (use submit_notifies(1) in \<open>auto simp: notify_simps [OF submit_notifies(2)] split: if_splits\<close>)
  next
    case (dtor_notifies s t)
    moreover from this have "t = 0" by (simp add: threads_ok_def)
    ultimately show ?case
      by (auto simp: threads_ok_def notify_all_simps)
  qed (erule threads_ok_class; force split: if_splits)+
qed (erule threads_ok_class; force split: if_splits)+

lemma dtor_thread: "threads_ok n s \<Longrightarrow> is_dtor (th s t) \<Longrightarrow> t = 0"
  by (simp add: threads_ok_def)

lemma not_dtor: "threads_ok n s \<Longrightarrow> \<not> is_dtor (th s t) \<Longrightarrow> is_worker (th s t) \<or> \<not> (1 \<le> t \<and> t \<le> n)"
  by (auto simp: threads_ok_def)

text \<open>A move of a thread other than the owner, or of the owner outside the destructor.\<close>

lemma phases_ok_other:
  assumes "phases_ok n s" and "stopping s' = stopping s" and "is_dtor (th s' 0) \<Longrightarrow> th s' 0 = th s 0"
    and "is_dtor (th s 0) \<Longrightarrow> th s' 0 = th s 0" and "\<And>u. is_stopped (th s u) \<Longrightarrow> is_stopped (th s' u)"
  shows "phases_ok n s'"
proof (cases "is_dtor (th s 0)")
  case True
  with assms(4) have "th s' 0 = th s 0" by simp
  with assms show ?thesis unfolding phases_ok_def by metis
next
  case False
  then have "\<not> is_dtor (th s' 0)" using assms(3) by auto
  with False assms(1,2) show ?thesis by (auto simp: phases_ok_def)
qed

lemma phases_ok_step: "sys_step fn s e s' \<Longrightarrow> threads_ok n s \<Longrightarrow> phases_ok n s \<Longrightarrow> phases_ok n s'"
proof (induction rule: sys_step.induct)
  case (sys_inside s e s')
  then show ?case
  proof (induction rule: pool_step.induct)
    case (submit_notifies s t j f)
    have same: "f 0 = th s 0" if "is_dtor (f 0) \<or> is_dtor (th s 0)"
      using submit_notifies(2) that submit_notifies(1) by (cases rule: notify_cases) (auto split: if_splits)
    from submit_notifies(4) show ?case
      by (rule phases_ok_other)
        (use same submit_notifies(1) in \<open>auto simp: notify_simps [OF submit_notifies(2)]\<close>)
  next
    case (dtor_sets s t)
    then have "t = 0" using dtor_thread [of n s t] by simp
    with dtor_sets show ?case by (simp add: phases_ok_def)
  next
    case (dtor_notifies s t)
    then have "t = 0" using dtor_thread [of n s t] by simp
    with dtor_notifies show ?case
      by (auto simp: phases_ok_def threads_ok_def notify_all_def)
  next
    case (dtor_joins s t u us i)
    then have "t = 0" using dtor_thread [of n s t] by simp
    with dtor_joins show ?case
      by (auto simp: phases_ok_def)
  next
    case (dtor_returns s t)
    then have "t = 0" using dtor_thread [of n s t] by simp
    with dtor_returns show ?case by (auto simp: phases_ok_def)
  qed (erule phases_ok_other; force split: if_splits)+
next
  case (sys_destroy s)
  then show ?case by (simp add: phases_ok_def)
qed (erule phases_ok_other; force split: if_splits)+

lemma stops_ok_step: "sys_step fn s e s' \<Longrightarrow> stops_ok s \<Longrightarrow> stops_ok s'"
proof (induction rule: sys_step.induct)
  case (sys_inside s e s')
  then show ?case
  proof (induction rule: pool_step.induct)
    case (worker_takes s t i j q)
    then show ?case by (auto simp: stops_ok_def worker_take_Some)
  next
    case (submit_notifies s t j f)
    then show ?case by (auto simp: stops_ok_def notify_simps [OF submit_notifies(2)] split: if_splits)
  next
    case (dtor_notifies s t)
    then show ?case by (auto simp: stops_ok_def notify_all_simps)
  qed (auto simp: stops_ok_def)
qed (auto simp: stops_ok_def)

text \<open>Counting the jobs.\<close>

lemma jobs_ok_other:
  assumes "jobs_ok n es s" and "queue s' = queue s" and "\<And>u. in_hand (th s' u) = in_hand (th s u)"
    and "accepted [e] = []" and "started [e] = []" and "finished [e] = []"
  shows "jobs_ok n (es @ [e]) s'"
  using assms by (simp add: jobs_ok_def)

lemma in_hand_moves:
  assumes "t \<in> {1..n}" and "\<And>u. u \<noteq> t \<Longrightarrow> th s' u = th s u"
  shows "(\<Sum>u\<in>{1..n}. in_hand (th s' u)) + in_hand (th s t) = (\<Sum>u\<in>{1..n}. in_hand (th s u)) + in_hand (th s' t)"
  using assms by (intro sum_one_moves) auto

lemma jobs_ok_step:
  "sys_step fn s e s' \<Longrightarrow> threads_ok n s \<Longrightarrow> jobs_ok n es s \<Longrightarrow> jobs_ok n (es @ [e]) s'"
proof (induction rule: sys_step.induct)
  case (sys_inside s e s')
  then show ?case
  proof (induction rule: pool_step.induct)
    case (worker_takes s t i j q)
    then have "is_worker (th s t)" by simp
    then have "t \<in> {1..n}" using worker_takes.prems(1) by (simp add: threads_ok_def)
    from in_hand_moves [OF this, of "s\<lparr>queue := q, th := (th s)(t := Worker_got i j)\<rparr>" s] worker_takes
    show ?case by (simp add: jobs_ok_def worker_take_Some)
  next
    case (worker_runs s t i j)
    then have "is_worker (th s t)" by simp
    then have "t \<in> {1..n}" using worker_runs.prems(1) by (simp add: threads_ok_def)
    from in_hand_moves [OF this, of "s\<lparr>th := (th s)(t := Worker_lock i), fut := (fut s)(task j \<mapsto> fn (arg j))\<rparr>" s]
      worker_runs
    show ?case by (simp add: jobs_ok_def) (metis union_mset_add_mset_right)
  next
    case (worker_logs s t i j)
    then have "in_hand (((th s)(t := Worker_run i j)) u) = in_hand (th s u)" for u
      by simp
    with worker_logs show ?case by (intro jobs_ok_other [of n es s]) simp_all
  next
    case (submit_accepted s t j q)
    then have "in_hand (((th s)(t := Submit_notify j)) u) = in_hand (th s u)" for u
      by simp
    then have "(\<Sum>u\<in>{1..n}. in_hand (((th s)(t := Submit_notify j)) u)) = (\<Sum>u\<in>{1..n}. in_hand (th s u))"
      by (intro sum.cong refl)
    with submit_accepted show ?case unfolding jobs_ok_def by simp
  next
    case (submit_notifies s t j f)
    then have "in_hand (((th s)(t := Submit_ret j)) u) = in_hand (th s u)" for u
      by simp
    with submit_notifies show ?case
      by (intro jobs_ok_other [of n es s]) (simp_all add: notify_simps [OF submit_notifies(2)])
  next
    case (dtor_notifies s t)
    then show ?case by (intro jobs_ok_other [of n es s]) (auto simp: notify_all_simps)
  qed (erule jobs_ok_other; auto)+
qed (erule jobs_ok_other; auto)+

section \<open>Tasks and futures\<close>

lemma tasks_okI:
  assumes "distinct (map task (accepted es))" and "\<And>j. j \<in> set (accepted es) \<Longrightarrow> task j < next_task s"
    and "\<And>t j. th s t = Submit_lock j \<Longrightarrow> task j < next_task s \<and> task j \<notin> task ` set (accepted es)"
    and "\<And>t j u k. th s t = Submit_lock j \<Longrightarrow> th s u = Submit_lock k \<Longrightarrow> u \<noteq> t \<Longrightarrow> task k \<noteq> task j"
  shows "tasks_ok es s"
  using assms by (auto simp: tasks_ok_def)

lemma tasks_okD:
  assumes "tasks_ok es s"
  shows "distinct (map task (accepted es))" and "j \<in> set (accepted es) \<Longrightarrow> task j < next_task s"
    and "th s t = Submit_lock j \<Longrightarrow> task j < next_task s \<and> task j \<notin> task ` set (accepted es)"
    and "th s t = Submit_lock j \<Longrightarrow> th s u = Submit_lock k \<Longrightarrow> u \<noteq> t \<Longrightarrow> task k \<noteq> task j"
  using assms unfolding tasks_ok_def by metis+

lemma tasks_ok_other:
  assumes "tasks_ok es s" and "next_task s' = next_task s" and "accepted [e] = []"
    and "\<And>t j. th s' t = Submit_lock j \<Longrightarrow> th s t = Submit_lock j"
  shows "tasks_ok (es @ [e]) s'"
proof (rule tasks_okI)
  note d = tasks_okD [OF assms(1)]
  show "task j < next_task s' \<and> task j \<notin> task ` set (accepted (es @ [e]))" if "th s' t = Submit_lock j" for t j
    using d(3) [OF assms(4) [OF that]] assms(2,3) by simp
  show "task k \<noteq> task j" if "th s' t = Submit_lock j" "th s' u = Submit_lock k" "u \<noteq> t" for t j u k
    using that(3) by (rule d(4) [OF assms(4) [OF that(1)] assms(4) [OF that(2)]])
qed (use assms(2,3) tasks_okD(1,2) [OF assms(1)] in auto)

lemma tasks_ok_step: "sys_step fn s e s' \<Longrightarrow> tasks_ok es s \<Longrightarrow> tasks_ok (es @ [e]) s'"
proof (induction rule: sys_step.induct)
  case (sys_inside s e s')
  then show ?case
  proof (induction rule: pool_step.induct)
    case (submit_accepted s t j q)
    note d = tasks_okD [OF submit_accepted(3)]
    show ?case
    proof (rule tasks_okI)
      show "distinct (map task (accepted (es @ [Accepted j])))"
        using d(1) d(3) [OF submit_accepted(1)] by (auto simp: image_iff)
    qed (use d submit_accepted(1) in \<open>auto split: if_splits\<close>)
  next
    case (submit_notifies s t j f)
    from submit_notifies(3) show ?case
    proof (rule tasks_ok_other)
      show "th (s\<lparr>th := f\<rparr>) u = Submit_lock k \<Longrightarrow> th s u = Submit_lock k" for u k
        using notify_same [OF submit_notifies(2), of "Submit_lock k" u] by (auto split: if_splits)
    qed simp_all
  next
    case (dtor_notifies s t)
    from dtor_notifies(2) show ?case
    proof (rule tasks_ok_other)
      show "th (s\<lparr>th := notify_all is_wait wake ((th s)(t := Dtor_join (workers s)))\<rparr>) u = Submit_lock k \<Longrightarrow>
        th s u = Submit_lock k" for u k
        using notify_all_same [of "Submit_lock k" "(th s)(t := Dtor_join (workers s))" u] by (auto split: if_splits)
    qed simp_all
  qed (erule tasks_ok_other; auto split: if_splits)+
next
  case (sys_submit s t a)
  note d = tasks_okD [OF sys_submit(2)]
  show ?case
  proof (rule tasks_okI)
    let ?s = "s\<lparr>th := (th s)(t := Submit_lock (Job (next_task s) a)), next_task := next_task s + 1\<rparr>"
    show "task k \<noteq> task j" if "th ?s v = Submit_lock j" "th ?s u = Submit_lock k" "u \<noteq> v" for v j u k
      using that d(4) [of v j u k] d(3) [of v j] d(3) [of u k] by (auto split: if_splits)
    show "task j < next_task ?s \<and> task j \<notin> task ` set (accepted (es @ [Silent]))"
      if "th ?s v = Submit_lock j" for v j
      using that d(2) d(3) [of v j] by (force split: if_splits)
  qed (use d(1,2) in \<open>force+\<close>)
qed (erule tasks_ok_other; auto split: if_splits)+

lemma finished_accepted:
  assumes "jobs_ok n es s"
  shows "set (finished es) \<subseteq> set (accepted es)"
proof -
  have "mset (finished es) \<subseteq># mset (started es)"
    using assms unfolding jobs_ok_def by (metis mset_subset_eq_add_left)
  then have "set (finished es) \<subseteq> set (started es)"
    using set_mset_mono by fastforce
  with assms show ?thesis by (auto simp: jobs_ok_def)
qed

lemma futs_ok_step:
  "sys_step fn s e s' \<Longrightarrow> threads_ok n s \<Longrightarrow> jobs_ok n es s \<Longrightarrow> tasks_ok es s \<Longrightarrow> futs_ok fn es s \<Longrightarrow>
   futs_ok fn (es @ [e]) s'"
proof (induction rule: sys_step.induct)
  case (sys_inside s e s')
  then show ?case
  proof (induction rule: pool_step.induct)
    case (worker_runs s t i j)
    have "j \<in># (\<Sum>u\<in>{1..n}. in_hand (th s u))"
    proof -
      have "is_worker (th s t)" using worker_runs(1) by simp
      then have "t \<in> {1..n}" using worker_runs.prems(1) by (simp add: threads_ok_def)
      then show ?thesis
        using worker_runs(1) sum.remove [of "{1..n}" t "\<lambda>u. in_hand (th s u)"] by simp
    qed
    then have "j \<in># mset (started es)"
      using worker_runs.prems(2) unfolding jobs_ok_def by (metis union_iff)
    then have "j \<in> set (accepted es)"
      using worker_runs.prems(2) by (simp add: jobs_ok_def)
    then have "k = j" if "k \<in> set (finished es)" "task k = task j" for k
      using that finished_accepted [OF worker_runs.prems(2)] worker_runs.prems(3)
      by (auto simp: tasks_ok_def distinct_map dest: inj_onD)
    with worker_runs.prems(4) show ?case
      by (auto simp: futs_ok_def)
  qed (simp_all add: futs_ok_def)
qed (simp_all add: futs_ok_def)

section \<open>Reachable states\<close>

definition pool_inv ::
  "('a \<Rightarrow> cpp_exn + 'r) \<Rightarrow> nat \<Rightarrow> 'a pool_event list \<Rightarrow> ('a, 'r) pool \<Rightarrow> bool" where
  "pool_inv fn n es s \<longleftrightarrow> fin active (th s) \<and> wakeups s \<and> threads_ok n s \<and> phases_ok n s \<and> stops_ok s \<and>
     jobs_ok n es s \<and> tasks_ok es s \<and> futs_ok fn es s"

lemma pool_invD:
  assumes "pool_inv fn n es s"
  shows "fin active (th s)" and "wakeups s" and "threads_ok n s" and "phases_ok n s" and "stops_ok s"
    and "jobs_ok n es s" and "tasks_ok es s" and "futs_ok fn es s"
  using assms by (simp_all add: pool_inv_def)

lemma pool_inv_step: "sys_step fn s e s' \<Longrightarrow> pool_inv fn n es s \<Longrightarrow> pool_inv fn n (es @ [e]) s'"
  unfolding pool_inv_def
  by (intro conjI)
    (blast intro: fin_active_step wakeups_step threads_ok_step phases_ok_step stops_ok_step jobs_ok_step
      tasks_ok_step futs_ok_step)+

lemma pool_new_iff:
  "ThreadPool_new n con = Inr s \<longleftrightarrow> 0 < n \<and> s = \<lparr>queue = [], stopping = False, workers = [1..<Suc n],
     th = (\<lambda>t. if 1 \<le> t \<and> t \<le> n then Worker_start (t - 1) else Client),
     fut = (\<lambda>_. None), next_task = 0, out = con\<rparr>"
  by (auto simp: ThreadPool_new_def)

lemma pool_inv_init:
  assumes "ThreadPool_new n con = Inr s"
  shows "pool_inv fn n [] s"
proof -
  have "{t. active (th s t)} = {1..n}"
    using assms by (auto simp: pool_new_iff)
  then have "fin active (th s)" by (simp add: fin_def)
  moreover have "cnt is_wait (th s) = 0"
    using assms by (simp add: pool_new_iff cnt_def)
  moreover have "(\<Sum>t\<in>{1..n}. in_hand (th s t)) = {#}"
    using assms by (intro sum.neutral) (simp add: pool_new_iff)
  ultimately show ?thesis
    using assms unfolding pool_inv_def wakeups_def jobs_ok_def
    by (auto simp: pool_new_iff threads_ok_def phases_ok_def stops_ok_def tasks_ok_def futs_ok_def)
qed

lemma sys_run_inv: "sys_run fn s es s' \<Longrightarrow> pool_inv fn n [] s \<Longrightarrow> pool_inv fn n es s'"
  by (induction rule: sys_run.induct) (auto intro: pool_inv_step)

lemma pool_reaches_inv: "pool_reaches fn n es s \<Longrightarrow> pool_inv fn n es s"
  by (auto simp: pool_reaches_def intro: sys_run_inv pool_inv_init)

section \<open>No lost notification\<close>

lemma cnt_lock_notify:
  assumes "fin active f"
  shows "card {u. is_lock (f u) \<or> is_notify (f u)} = cnt is_lock f + cnt is_notify f"
proof -
  have "{u. is_lock (f u) \<or> is_notify (f u)} = {u. is_lock (f u)} \<union> {u. is_notify (f u)}" by auto
  moreover have "{u. is_lock (f u)} \<inter> {u. is_notify (f u)} = {}"
  proof -
    have "is_lock x \<Longrightarrow> \<not> is_notify x" for x :: "'b wstate" by (cases x) auto
    then show ?thesis by auto
  qed
  ultimately show ?thesis
    using fin_active(2,3) [OF assms] by (simp add: cnt_def fin_def card_Un_disjoint)
qed

interpretation work: wakeup_protocol
  "\<lambda>s. fin active (th s) \<and> wakeups s \<and> \<not> stopping s" "\<lambda>s. {u. is_wait (th s u)}"
  "\<lambda>s. {u. is_lock (th s u) \<or> is_notify (th s u)}" "\<lambda>s. length (queue s)"
proof unfold_locales
  fix s :: "('a, 'r) pool"
  assume g: "fin active (th s) \<and> wakeups s \<and> \<not> stopping s" and "{u. is_wait (th s u)} \<noteq> {}"
  then have "0 < cnt is_wait (th s)"
    by (auto intro: cnt_pos fin_active)
  with g show "length (queue s) \<le> card {u. is_lock (th s u) \<or> is_notify (th s u)}"
    by (simp add: wakeups_def cnt_lock_notify)
qed

lemma waiting_rescued:
  assumes "pool_inv fn n es s" and "is_wait (th s u)" and "worker_ready (queue s) (stopping s)"
  shows "\<exists>v. is_lock (th s v) \<or> is_notify (th s v) \<or> th s v = Dtor_notify"
proof (cases "stopping s")
  case True
  have "0 < cnt is_wait (th s)"
    using assms(2) by (intro cnt_pos fin_active pool_invD [OF assms(1)])
  with True have "0 < cnt (\<lambda>x. x = Dtor_notify) (th s)"
    using pool_invD(2) [OF assms(1)] by (simp add: wakeups_def)
  then show ?thesis by (auto dest: cnt_posD)
next
  case False
  with assms(3) have "queue s \<noteq> []" by (simp add: worker_ready_def)
  with False assms(1,2) show ?thesis
    using work.not_stranded [of s u] pool_invD(1,2) [OF assms(1)] by auto
qed

section \<open>Who can move\<close>

definition moves :: "('a \<Rightarrow> cpp_exn + 'r) \<Rightarrow> ('a, 'r) pool \<Rightarrow> tid \<Rightarrow> bool" where
  "moves fn s v \<longleftrightarrow> (\<exists>e s'. pool_step fn s e s' \<and> th s' v \<noteq> th s v)"

lemma movesI: "pool_step fn s e s' \<Longrightarrow> th s' v \<noteq> th s v \<Longrightarrow> moves fn s v"
  by (auto simp: moves_def)

lemma lock_moves:
  assumes "th s v = Worker_lock i"
  shows "moves fn s v"
proof (cases "worker_ready (queue s) (stopping s)")
  case False
  then show ?thesis using assms by (intro movesI [OF worker_blocks [OF assms]]) simp_all
next
  case ready: True
  show ?thesis
  proof (cases "worker_take (queue s) (stopping s)")
    case None
    then show ?thesis using assms by (intro movesI [OF worker_stops [OF assms ready]]) simp_all
  next
    case (Some r)
    then obtain j q where "worker_take (queue s) (stopping s) = Some (j, q)" by (cases r) auto
    from movesI [OF worker_takes [OF assms ready this], where v = v] assms show ?thesis by simp
  qed
qed

lemma worker_moves:
  assumes "is_worker (th s v)" and "\<not> is_wait (th s v)" and "\<not> is_stopped (th s v)"
  shows "moves fn s v"
proof (cases "th s v")
  case (Worker_start i)
  from movesI [OF worker_starts [OF this], where v = v] this show ?thesis by simp
next
  case (Worker_lock i)
  then show ?thesis by (rule lock_moves)
next
  case (Worker_got i j)
  from movesI [OF worker_logs [OF this], where v = v] this show ?thesis by simp
next
  case (Worker_run i j)
  from movesI [OF worker_runs [OF this], where v = v] this show ?thesis by simp
qed (use assms in simp_all)

lemma notify_moves:
  assumes "is_notify (th s v)"
  shows "moves fn s v"
proof -
  from assms obtain j where j: "th s v = Submit_notify j" by (cases "th s v") auto
  obtain f where f: "notify_one_to is_wait wake ((th s)(v := Submit_ret j)) f"
    using notify_one_total by blast
  then have "f v = Submit_ret j" using notify_same [OF f, of "Submit_ret j" v] by simp
  with movesI [OF submit_notifies [OF j f], where v = v] j show ?thesis by simp
qed

lemma dtor_notify_moves:
  assumes "th s v = Dtor_notify"
  shows "moves fn s v"
  using movesI [OF dtor_notifies [OF assms], where v = v] assms by (simp add: notify_all_def)

definition pool_thread :: "'a wstate \<Rightarrow> bool" where
  "pool_thread x \<longleftrightarrow> is_worker x \<and> \<not> is_wait x \<or> is_notify x \<or> is_dtor x"

lemma rescuer_moves:
  assumes "pool_inv fn n es s" and "is_wait (th s u)" and "worker_ready (queue s) (stopping s)"
  shows "\<exists>v. pool_thread (th s v) \<and> moves fn s v"
proof -
  obtain v where "is_lock (th s v) \<or> is_notify (th s v) \<or> th s v = Dtor_notify"
    using waiting_rescued [OF assms] by blast
  moreover have "pool_thread (th s v) \<and> moves fn s v" if "is_lock (th s v)"
    using that lock_moves [of s v _ fn] by (cases "th s v") (auto simp: pool_thread_def)
  moreover have "pool_thread (th s v) \<and> moves fn s v" if "is_notify (th s v)"
    using that notify_moves [of s v fn] by (simp add: pool_thread_def)
  moreover have "pool_thread (th s v) \<and> moves fn s v" if "th s v = Dtor_notify"
    using that dtor_notify_moves [of s v fn] by (simp add: pool_thread_def)
  ultimately show ?thesis by blast
qed

text \<open>A worker that has not stopped moves, or is blocked and somebody else moves for it.\<close>

lemma live_worker:
  assumes "pool_inv fn n es s" and "is_worker (th s u)" and "\<not> is_stopped (th s u)"
    and "worker_ready (queue s) (stopping s)"
  shows "\<exists>v. pool_thread (th s v) \<and> moves fn s v"
proof (cases "is_wait (th s u)")
  case True
  with assms show ?thesis by (intro rescuer_moves)
next
  case False
  with assms show ?thesis using worker_moves [of s u] by (auto simp: pool_thread_def)
qed

lemma pending_job_moves:
  assumes inv: "pool_inv fn n es s" and "j \<in> set (accepted es)" and "fut s (task j) = None"
  shows "\<exists>v. pool_thread (th s v) \<and> moves fn s v"
proof (cases "queue s = []")
  case False
  have "0 < n" and "is_worker (th s 1)" using pool_invD(3) [OF inv] by (auto simp: threads_ok_def)
  moreover have "\<not> is_stopped (th s 1)" using pool_invD(5) [OF inv] False by (auto simp: stops_ok_def)
  ultimately show ?thesis using False by (intro live_worker [OF inv]) (auto simp: worker_ready_def)
next
  case True
  with assms(2) pool_invD(6) [OF inv] have "j \<in># mset (started es)" by (simp add: jobs_ok_def)
  moreover have "j \<notin> set (finished es)"
  proof
    assume "j \<in> set (finished es)"
    then have "fut s (task j) = Some (fn (arg j))"
      using pool_invD(8) [OF inv] by (auto simp: futs_ok_def)
    with assms(3) show False by simp
  qed
  ultimately have "j \<in># (\<Sum>t\<in>{1..n}. in_hand (th s t))"
    using pool_invD(6) [OF inv] unfolding jobs_ok_def by (metis set_mset_mset union_iff)
  then obtain t where "j \<in># in_hand (th s t)" by (auto simp: set_mset_sum)
  then have "is_worker (th s t) \<and> \<not> is_wait (th s t) \<and> \<not> is_stopped (th s t)" by (cases "th s t") auto
  then show ?thesis using worker_moves [of s t] by (auto simp: pool_thread_def)
qed

lemma destructor_moves:
  assumes inv: "pool_inv fn n es s" and "is_dtor (th s 0)" and "th s 0 \<noteq> Dtor_ret"
  shows "\<exists>v. pool_thread (th s v) \<and> moves fn s v"
proof -
  have "moves fn s 0 \<or> (\<exists>v. pool_thread (th s v) \<and> moves fn s v)"
  proof (cases "th s 0")
    case Dtor_lock
    from movesI [OF dtor_sets [OF this], where v = 0] this show ?thesis by simp
  next
    case Dtor_notify
    then show ?thesis using dtor_notify_moves by blast
  next
    case (Dtor_join us)
    show ?thesis
    proof (cases us)
      case Nil
      with Dtor_join have "th s 0 = Dtor_join []" by simp
      from movesI [OF dtor_returns [OF this], where v = 0] this show ?thesis by simp
    next
      case (Cons u us')
      with Dtor_join have "u \<in> {1..n}" and stop: "stopping s"
        using pool_invD(4) [OF inv] by (auto simp: phases_ok_def)
      then have w: "is_worker (th s u)" using pool_invD(3) [OF inv] by (simp add: threads_ok_def)
      show ?thesis
      proof (cases "is_stopped (th s u)")
        case True
        then obtain i where "th s u = Worker_stopped i" by (cases "th s u") auto
        from movesI [OF dtor_joins [OF Dtor_join [unfolded Cons] this], where v = 0] Dtor_join Cons
        show ?thesis by simp
      next
        case False
        with w stop show ?thesis by (intro disjI2 live_worker [OF inv]) (auto simp: worker_ready_def)
      qed
    qed
  qed (use assms(2,3) in simp_all)
  then show ?thesis using assms(2) by (auto simp: pool_thread_def)
qed

text \<open>What holds once the destructor has returned.\<close>

lemma destroyed_jobs:
  assumes "pool_inv fn n es s" and "th s 0 = Dtor_ret"
  shows "queue s = [] \<and> started es = accepted es \<and> mset (finished es) = mset (accepted es) \<and>
    (\<forall>j\<in>set (accepted es). fut s (task j) = Some (fn (arg j))) \<and> (\<forall>u\<in>{1..n}. is_stopped (th s u))"
proof -
  note inv = pool_invD [OF assms(1)]
  have stopped: "\<forall>u\<in>{1..n}. is_stopped (th s u)" and "0 < n"
    using inv(3,4) assms(2) by (auto simp: phases_ok_def threads_ok_def)
  then have empty: "queue s = []" using inv(5) by (fastforce simp: stops_ok_def)
  have "in_hand (th s u) = {#}" if "u \<in> {1..n}" for u
    using bspec [OF stopped that] by (cases "th s u") auto
  then have "(\<Sum>u\<in>{1..n}. in_hand (th s u)) = {#}"
    by (intro sum.neutral) blast
  with empty inv(6) have jobs: "started es = accepted es" "mset (finished es) = mset (accepted es)"
    by (simp_all add: jobs_ok_def)
  then have "set (finished es) = set (accepted es)" by (metis set_mset_mset)
  with inv(8) have "\<forall>j\<in>set (accepted es). fut s (task j) = Some (fn (arg j))"
    by (auto simp: futs_ok_def)
  with empty jobs stopped show ?thesis by simp
qed

section \<open>The job of the example\<close>

text \<open>
  \<^verbatim>\<open>expensive_parse\<close>: \<open>smod\<close> is the remainder of C++, with the sign of the dividend.
\<close>

definition parse_step :: "int \<Rightarrow> int \<Rightarrow> int \<Rightarrow> int" where
  "parse_step request_id i acc = (acc * 131 + request_id + i) smod 1000003"

primrec parse_loop :: "int \<Rightarrow> nat \<Rightarrow> int" where
  "parse_loop request_id 0 = 0"
| "parse_loop request_id (Suc i) = parse_step request_id (int i) (parse_loop request_id i)"

definition expensive_parse :: "int \<Rightarrow> cpp_exn + int" where
  "expensive_parse request_id = Inr (parse_loop request_id 100000)"

definition int32 :: "int \<Rightarrow> bool" where
  "int32 x \<longleftrightarrow> - (2 ^ 31) \<le> x \<and> x < 2 ^ 31"

lemma parse_loop_bound: "\<bar>parse_loop r k\<bar> < 1000003"
proof (cases k)
  case (Suc i)
  have "\<bar>x smod 1000003\<bar> < 1000003" for x :: int
    by (simp add: signed_modulo_int_def abs_mult)
  with Suc show ?thesis by (simp add: parse_step_def)
qed simp

section \<open>Properties\<close>

text \<open>C6. Every accepted job is started in the order of submission and at most once, whatever
  the interleaving: what has been accepted is what has been started followed by the queue,
  with no task twice. A future is ready exactly when its job has finished, and then holds
  what the callable returned or threw for the argument it was bound to.\<close>

theorem pool_jobs_in_order:
  assumes "pool_reaches fn n es s"
  shows "accepted es = started es @ queue s \<and> distinct (map task (accepted es)) \<and>
    mset (finished es) \<subseteq># mset (started es) \<and>
    (\<forall>k r. fut s k = Some r \<longleftrightarrow> (\<exists>j\<in>set (finished es). task j = k \<and> r = fn (arg j)))"
proof -
  note inv = pool_invD [OF pool_reaches_inv [OF assms]]
  have "mset (finished es) \<subseteq># mset (started es)"
    using inv(6) unfolding jobs_ok_def by (metis mset_subset_eq_add_left)
  with inv(6-8) show ?thesis by (simp add: jobs_ok_def tasks_ok_def futs_ok_def)
qed

text \<open>C7. When the destructor returns, every worker has left its loop, the queue is empty, and
  every job that was ever accepted has run exactly once, so that each of their futures is
  ready: no broken promise.\<close>

theorem pool_destructor_complete:
  assumes "pool_reaches fn n es s" and "th s 0 = Dtor_ret"
  shows "queue s = [] \<and> started es = accepted es \<and> mset (finished es) = mset (accepted es) \<and>
    (\<forall>j\<in>set (accepted es). fut s (task j) = Some (fn (arg j))) \<and> (\<forall>u\<in>{1..n}. is_stopped (th s u))"
  using destroyed_jobs [OF pool_reaches_inv [OF assms(1)] assms(2)] .

text \<open>C8. No deadlock in the pool: as long as the future of an accepted job is not ready, or
  the destructor has been called and has not returned, some worker that is not blocked, some
  \<^verbatim>\<open>submit\<close> about to notify, or the destructor itself has a step that moves it.\<close>

theorem pool_never_stuck:
  assumes "pool_reaches fn n es s"
    and "(\<exists>j\<in>set (accepted es). fut s (task j) = None) \<or> is_dtor (th s 0) \<and> th s 0 \<noteq> Dtor_ret"
  shows "\<exists>v e s'. pool_thread (th s v) \<and> pool_step fn s e s' \<and> th s' v \<noteq> th s v"
  using assms(2) pending_job_moves [OF pool_reaches_inv [OF assms(1)]]
    destructor_moves [OF pool_reaches_inv [OF assms(1)]]
  by (auto simp: moves_def)

text \<open>C9. \<^verbatim>\<open>expensive_parse\<close> stays inside 32-bit \<^verbatim>\<open>int\<close> in every iteration and every
  subexpression, for request numbers up to two thousand million in size, and its accumulator
  stays below the modulus.\<close>

theorem expensive_parse_no_overflow:
  assumes "\<bar>request_id\<bar> \<le> 2000000000" and "k < 100000"
  shows "int32 (parse_loop request_id k * 131) \<and> int32 (parse_loop request_id k * 131 + request_id) \<and>
    int32 (parse_loop request_id k * 131 + request_id + int k) \<and> \<bar>parse_loop request_id (Suc k)\<bar> < 1000003"
proof -
  have "- 1000003 < parse_loop request_id k" "parse_loop request_id k < 1000003"
    using parse_loop_bound [of request_id k] by linarith+
  moreover have "- 2000000000 \<le> request_id" "request_id \<le> 2000000000"
    using assms(1) by linarith+
  ultimately show ?thesis
    using assms(2) parse_loop_bound [of request_id "Suc k"] by (simp add: int32_def)
qed

section \<open>Witnesses\<close>

theorem expensive_parse_no_overflow_witness:
  "int32 (parse_loop 10 3 * 131) \<and> parse_loop 10 3 = 173063"
  using expensive_parse_no_overflow [of 10 3] by (simp add: numeral_3_eq_3 parse_step_def)

end
