(* ===== verification/ThreadPoolDemo.thy ===== *)
theory ThreadPoolDemo
  imports ThreadPool
begin

text \<open>
  \<^verbatim>\<open>main\<close> of \<^verbatim>\<open>examples/thread_pool/main.cpp\<close> on the pool of \<open>ThreadPool\<close>: it submits the
  requests 1 to \<open>m\<close> (10 in the code), gets the futures in the order of submission, reports
  the sum, and destroys the pool on leaving its scope. \<open>main_pc\<close> is where \<^verbatim>\<open>main\<close> is
  between two calls of the pool; inside one its position is the \<open>wstate\<close> of thread 0. The
  callable \<open>fn\<close> is \<open>expensive_parse\<close> in the code; the theorems hold for any callable. An
  exception that reaches \<^verbatim>\<open>main\<close> ends the program (\<open>Terminated\<close>).

  Proved: the checksum and absence of deadlock, from which \<open>ThreadPoolEnds\<close> shows total
  correctness.
\<close>

datatype main_pc =
    Submitting int "nat list"
  | Getting "nat list" int
  | Reported
  | Leaving
  | Terminated cpp_exn

record prog =
  pl :: "(int, int) pool"
  mpc :: main_pc

inductive main_step ::
  "(int \<Rightarrow> cpp_exn + int) \<Rightarrow> int \<Rightarrow> prog \<Rightarrow> int pool_event \<Rightarrow> prog \<Rightarrow> bool" for fn m where
  pool_moves: "pool_step fn (pl p) e s \<Longrightarrow> main_step fn m p e (p\<lparr>pl := s\<rparr>)"
| main_submits: "mpc p = Submitting i fs \<Longrightarrow> th (pl p) 0 = Client \<Longrightarrow> i \<le> m \<Longrightarrow>
    main_step fn m p Silent (p\<lparr>pl := (pl p)\<lparr>th := (th (pl p))(0 := Submit_lock (Job (next_task (pl p)) i)),
      next_task := next_task (pl p) + 1\<rparr>\<rparr>)"
| main_submitted: "mpc p = Submitting i fs \<Longrightarrow> th (pl p) 0 = Submit_ret j \<Longrightarrow>
    main_step fn m p Silent
      (p\<lparr>pl := (pl p)\<lparr>th := (th (pl p))(0 := Client)\<rparr>, mpc := Submitting (i + 1) (fs @ [task j])\<rparr>)"
| main_submit_threw: "mpc p = Submitting i fs \<Longrightarrow> th (pl p) 0 = Submit_threw x \<Longrightarrow>
    main_step fn m p Silent (p\<lparr>pl := (pl p)\<lparr>th := (th (pl p))(0 := Client)\<rparr>, mpc := Terminated x\<rparr>)"
| main_collects: "mpc p = Submitting i fs \<Longrightarrow> th (pl p) 0 = Client \<Longrightarrow> \<not> i \<le> m \<Longrightarrow>
    main_step fn m p Silent (p\<lparr>mpc := Getting fs 0\<rparr>)"
| main_gets: "mpc p = Getting (k # ks) tot \<Longrightarrow> fut (pl p) k = Some (Inr v) \<Longrightarrow>
    main_step fn m p Silent (p\<lparr>mpc := Getting ks (tot + v)\<rparr>)"
| main_get_throws: "mpc p = Getting (k # ks) tot \<Longrightarrow> fut (pl p) k = Some (Inl x) \<Longrightarrow>
    main_step fn m p Silent (p\<lparr>mpc := Terminated x\<rparr>)"
| main_reports: "mpc p = Getting [] tot \<Longrightarrow>
    main_step fn m p Silent (p\<lparr>pl := (pl p)\<lparr>out := log_line
      [''Processed '', show_int m, '' requests; checksum='', show_int tot] (out (pl p))\<rparr>, mpc := Reported\<rparr>)"
| main_leaves: "mpc p = Reported \<Longrightarrow> th (pl p) 0 = Client \<Longrightarrow>
    main_step fn m p Silent (p\<lparr>pl := (pl p)\<lparr>th := (th (pl p))(0 := Dtor_lock)\<rparr>, mpc := Leaving\<rparr>)"

inductive main_run ::
  "(int \<Rightarrow> cpp_exn + int) \<Rightarrow> int \<Rightarrow> prog \<Rightarrow> int pool_event list \<Rightarrow> prog \<Rightarrow> bool" for fn m where
  main_nil: "main_run fn m p [] p"
| main_snoc: "main_run fn m p es p' \<Longrightarrow> main_step fn m p' e p'' \<Longrightarrow> main_run fn m p (es @ [e]) p''"

text \<open>The program from the start: \<open>n\<close> workers and \<open>m\<close> requests; in the code 4 and 10.\<close>

definition main_init :: "nat \<Rightarrow> cpp_exn + prog" where
  "main_init n = (case ThreadPool_new n (log_line [''Thread pool example: fan-out parsing stage.''] []) of
     Inl x \<Rightarrow> Inl x
   | Inr s \<Rightarrow> Inr \<lparr>pl = s, mpc = Submitting 1 []\<rparr>)"

definition main_reaches ::
  "(int \<Rightarrow> cpp_exn + int) \<Rightarrow> nat \<Rightarrow> int \<Rightarrow> int pool_event list \<Rightarrow> prog \<Rightarrow> bool" where
  "main_reaches fn n m es p \<longleftrightarrow> (\<exists>p0. main_init n = Inr p0 \<and> main_run fn m p0 es p)"

section \<open>The pool inside the program\<close>

text \<open>
  Every step of the program is a step of the pool under its clients, or leaves everything but
  the console alone.
\<close>

definition quiet :: "prog \<Rightarrow> prog \<Rightarrow> bool" where
  "quiet p p' \<longleftrightarrow> (\<exists>con. pl p' = (pl p)\<lparr>out := con\<rparr>)"

lemma quietI: "pl p' = pl p \<Longrightarrow> quiet p p'"
  unfolding quiet_def by (rule exI [of _ "out (pl p)"]) simp

lemma main_step_pool:
  "main_step fn m p e p' \<Longrightarrow> sys_step fn (pl p) e (pl p') \<or> e = Silent \<and> quiet p p'"
proof (induction rule: main_step.induct)
  case (pool_moves p e s)
  then show ?case by (simp add: sys_inside)
next
  case (main_submits p i fs)
  then show ?case using sys_submit [of "pl p" 0 fn i] by simp
next
  case (main_submitted p i fs j)
  then show ?case using sys_submitted [of "pl p" 0 j fn] by simp
next
  case (main_submit_threw p i fs x)
  then show ?case using sys_threw [of "pl p" 0 x fn] by simp
next
  case (main_reports p tot)
  show ?case by (auto simp: quiet_def)
next
  case (main_leaves p)
  then show ?case using sys_destroy [of "pl p" fn] by simp
qed (simp_all add: quietI)

lemma pool_inv_quiet:
  assumes "pool_inv fn n es s"
  shows "pool_inv fn n (es @ [Silent]) (s\<lparr>out := con\<rparr>)"
proof -
  note inv = pool_invD [OF assms]
  have "tasks_ok (es @ [Silent]) (s\<lparr>out := con\<rparr>)"
    using inv(7) by (rule tasks_ok_other) simp_all
  moreover have "phases_ok n (s\<lparr>out := con\<rparr>)"
    using inv(4) by (rule phases_ok_other) simp_all
  moreover have "threads_ok n (s\<lparr>out := con\<rparr>)"
    using inv(3) by (simp add: threads_ok_def)
  ultimately show ?thesis
    using inv(1,2,5,6,8) by (simp add: pool_inv_def wakeups_def stops_ok_def jobs_ok_def futs_ok_def)
qed

lemma pool_inv_main: "main_step fn m p e p' \<Longrightarrow> pool_inv fn n es (pl p) \<Longrightarrow> pool_inv fn n (es @ [e]) (pl p')"
  using main_step_pool [of fn m p e p'] pool_inv_step [of fn "pl p" e "pl p'" n es]
    pool_inv_quiet [of fn n es "pl p"]
  by (auto simp: quiet_def)

section \<open>What main has done\<close>

text \<open>The job of the call of \<^verbatim>\<open>submit\<close> that is under way and accepted already.\<close>

fun pending :: "'a wstate \<Rightarrow> 'a job list" where
  "pending (Submit_notify j) = [j]"
| "pending (Submit_ret j) = [j]"
| "pending x = []"

fun submitting :: "int \<Rightarrow> int \<Rightarrow> int wstate \<Rightarrow> bool" where
  "submitting i m (Submit_lock j) = (arg j = i \<and> i \<le> m)"
| "submitting i m (Submit_notify j) = (arg j = i \<and> i \<le> m)"
| "submitting i m (Submit_ret j) = (arg j = i \<and> i \<le> m)"
| "submitting i m x = (x = Client)"

fun outcome_value :: "cpp_exn + int \<Rightarrow> int" where
  "outcome_value (Inr v) = v"
| "outcome_value (Inl x) = 0"

text \<open>
  The requests submitted so far are the accepted jobs, in order; while \<^verbatim>\<open>main\<close> collects, the
  sum is that of the futures it has passed. Only thread 0 calls the pool.
\<close>

definition main_ok :: "(int \<Rightarrow> cpp_exn + int) \<Rightarrow> int \<Rightarrow> int pool_event list \<Rightarrow> prog \<Rightarrow> bool" where
  "main_ok fn m es p \<longleftrightarrow> (case mpc p of
     Submitting i fs \<Rightarrow> 1 \<le> i \<and> i \<le> m + 1 \<and> submitting i m (th (pl p) 0) \<and>
       map task (accepted es) = fs @ map task (pending (th (pl p) 0)) \<and>
       map arg (accepted es) = [1..i - 1] @ map arg (pending (th (pl p) 0))
   | Getting ks tot \<Rightarrow> th (pl p) 0 = Client \<and> map arg (accepted es) = [1..m] \<and>
       (\<exists>js js'. accepted es = js @ js' \<and> map task js' = ks \<and> (\<forall>j\<in>set js. \<exists>v. fn (arg j) = Inr v) \<and>
         tot = (\<Sum>j\<leftarrow>js. outcome_value (fn (arg j))))
   | Reported \<Rightarrow> th (pl p) 0 = Client \<and> map arg (accepted es) = [1..m]
   | Leaving \<Rightarrow> is_dtor (th (pl p) 0) \<and> map arg (accepted es) = [1..m]
   | Terminated x \<Rightarrow> \<exists>i\<in>{1..m}. fn i = Inl x)"

definition report :: "(int \<Rightarrow> cpp_exn + int) \<Rightarrow> int \<Rightarrow> string" where
  "report fn m = concat [''Processed '', show_int m, '' requests; checksum='',
     show_int (\<Sum>i\<leftarrow>[1..m]. outcome_value (fn i))]"

definition reported :: "(int \<Rightarrow> cpp_exn + int) \<Rightarrow> int \<Rightarrow> prog \<Rightarrow> bool" where
  "reported fn m p \<longleftrightarrow> (mpc p = Reported \<or> mpc p = Leaving \<longrightarrow> report fn m \<in> set (out (pl p)))"

definition only_main :: "('a, 'r) pool \<Rightarrow> bool" where
  "only_main s \<longleftrightarrow> (\<forall>t. t \<noteq> 0 \<longrightarrow> th s t = Client \<or> is_worker (th s t))"

lemma only_mainD: "only_main s \<Longrightarrow> \<not> is_worker (th s v) \<Longrightarrow> th s v \<noteq> Client \<Longrightarrow> v = 0"
  by (auto simp: only_main_def)

lemma pool_step_out: "pool_step fn s e s' \<Longrightarrow> set (out s) \<subseteq> set (out s')"
  by (induction rule: pool_step.induct) (auto simp: worker_log_def)

lemma pool_step_other:
  "pool_step fn s e s' \<Longrightarrow> th s t = Client \<or> is_worker (th s t) \<Longrightarrow> th s' t = Client \<or> is_worker (th s' t)"
proof (induction rule: pool_step.induct)
  case (submit_notifies s v j f)
  then show ?case
    using notify_class [OF submit_notifies(2), of is_worker t] notify_same [OF submit_notifies(2), of Client t]
    by (cases "v = t") auto
next
  case (dtor_notifies s v)
  then show ?case
    using notify_all_same [of Client "(th s)(v := Dtor_join (workers s))" t]
    by (cases "v = t") (auto simp: notify_all_simps)
qed auto

lemma only_main_step: "main_step fn m p e p' \<Longrightarrow> only_main (pl p) \<Longrightarrow> only_main (pl p')"
proof (induction rule: main_step.induct)
  case (pool_moves p e s)
  then show ?case using pool_step_other [OF pool_moves(1)] by (auto simp: only_main_def)
qed (auto simp: only_main_def)

text \<open>A step of the pool seen from thread 0.\<close>

inductive main_view :: "'a wstate \<Rightarrow> 'a pool_event \<Rightarrow> 'a wstate \<Rightarrow> bool \<Rightarrow> bool" where
  view_same: "accepted [e] = [] \<Longrightarrow> main_view x e x stop"
| view_accepted: "main_view (Submit_lock j) (Accepted j) (Submit_notify j) stop"
| view_threw: "main_view (Submit_lock j) (Refused j) (Submit_threw x) True"
| view_notified: "main_view (Submit_notify j) Silent (Submit_ret j) stop"
| view_dtor: "is_dtor x \<Longrightarrow> is_dtor y \<Longrightarrow> accepted [e] = [] \<Longrightarrow> main_view x e y stop"

lemma pool_step_main:
  "pool_step fn s e s' \<Longrightarrow> only_main s \<Longrightarrow> \<not> is_worker (th s 0) \<Longrightarrow> main_view (th s 0) e (th s' 0) (stopping s)"
proof (induction rule: pool_step.induct)
  case (submit_notifies s v j f)
  then have "v = 0" using only_mainD [of s v] by simp
  with submit_notifies show ?case
    using notify_same [OF submit_notifies(2), of "Submit_ret j" 0] view_notified by simp
next
  case (submit_accepted s v j q)
  then have "v = 0" using only_mainD [of s v] by simp
  with submit_accepted show ?case using view_accepted by simp
next
  case (submit_refused s v j x)
  then have "v = 0" using only_mainD [of s v] by simp
  with submit_refused show ?case using view_threw by simp
next
  case (dtor_notifies s v)
  then have "v = 0" using only_mainD [of s v] by simp
  with dtor_notifies show ?case by (intro view_dtor) (simp_all add: notify_all_simps)
next
  case (dtor_sets s v)
  then have "v = 0" using only_mainD [of s v] by simp
  with dtor_sets show ?case by (intro view_dtor) simp_all
next
  case (dtor_joins s v u us i)
  then have "v = 0" using only_mainD [of s v] by simp
  with dtor_joins show ?case by (intro view_dtor) simp_all
next
  case (dtor_returns s v)
  then have "v = 0" using only_mainD [of s v] by simp
  with dtor_returns show ?case by (intro view_dtor) simp_all
qed (auto intro!: view_same)

lemma fut_of_job:
  assumes "pool_inv fn n es s" and "j \<in> set (accepted es)" and "fut s (task j) = Some r"
  shows "fn (arg j) = r"
proof -
  note inv = pool_invD [OF assms(1)]
  from assms(3) inv(8) obtain k where k: "k \<in> set (finished es)" "task k = task j" "r = fn (arg k)"
    by (auto simp: futs_ok_def)
  then have "k \<in> set (accepted es)" using finished_accepted [OF inv(6)] by blast
  then have "k = j" using k(2) assms(2) inv(7) by (auto simp: tasks_ok_def distinct_map dest: inj_onD)
  with k show ?thesis by simp
qed

lemma main_ok_view:
  assumes "main_ok fn m es p" and "main_view (th (pl p) 0) e (th s 0) (stopping (pl p))"
    and "stopping (pl p) \<longrightarrow> is_dtor (th (pl p) 0)"
  shows "main_ok fn m (es @ [e]) (p\<lparr>pl := s\<rparr>)"
proof (cases "mpc p")
  case (Submitting i fs)
  from assms(2) show ?thesis
    by (cases rule: main_view.cases) (use Submitting assms(1,3) in \<open>auto simp: main_ok_def elim: is_dtor.elims\<close>)
next
  case (Getting ks tot)
  with assms(1) have "th (pl p) 0 = Client" by (simp add: main_ok_def)
  with assms(2) show ?thesis
    by (cases rule: main_view.cases) (use Getting assms(1) in \<open>simp_all add: main_ok_def\<close>)
next
  case Reported
  with assms(1) have "th (pl p) 0 = Client" by (simp add: main_ok_def)
  with assms(2) show ?thesis
    by (cases rule: main_view.cases) (use Reported assms(1) in \<open>simp_all add: main_ok_def\<close>)
next
  case Leaving
  from assms(2) show ?thesis
    by (cases rule: main_view.cases) (use Leaving assms(1) in \<open>auto simp: main_ok_def\<close>)
qed (use assms(1) in \<open>simp add: main_ok_def\<close>)

lemma main_thread: "pool_inv fn n es s \<Longrightarrow> \<not> is_worker (th s 0)"
  by (drule pool_invD(3)) (simp add: threads_ok_def)

lemma stopping_dtor: "pool_inv fn n es s \<Longrightarrow> stopping s \<longrightarrow> is_dtor (th s 0)"
  by (drule pool_invD(4)) (simp add: phases_ok_def)

text \<open>The future that \<^verbatim>\<open>main\<close> waits for belongs to an accepted job.\<close>

lemma awaited_job:
  assumes "main_ok fn m es p" and "mpc p = Getting (k # ks) tot"
  obtains js j js' where "accepted es = js @ j # js'" and "task j = k" and "map task js' = ks"
    and "\<forall>j\<in>set js. \<exists>v. fn (arg j) = Inr v" and "tot = (\<Sum>j\<leftarrow>js. outcome_value (fn (arg j)))"
proof -
  from assms obtain js rest where r: "accepted es = js @ rest" "map task rest = k # ks"
    "\<forall>j\<in>set js. \<exists>v. fn (arg j) = Inr v" "tot = (\<Sum>j\<leftarrow>js. outcome_value (fn (arg j)))"
    by (auto simp: main_ok_def)
  then obtain j js' where "rest = j # js'" by (cases rest) auto
  with r show ?thesis using that [of js j js'] by simp
qed

lemma main_ok_step:
  "main_step fn m p e p' \<Longrightarrow> pool_inv fn n es (pl p) \<Longrightarrow> only_main (pl p) \<Longrightarrow> main_ok fn m es p \<Longrightarrow>
   main_ok fn m (es @ [e]) p'"
proof (induction rule: main_step.induct)
  case (pool_moves p e s)
  then show ?case
    by (intro main_ok_view pool_step_main stopping_dtor main_thread)
next
  case (main_submitted p i fs j)
  then show ?case by (auto simp: main_ok_def upto_rec2 [of 1 i])
next
  case (main_collects p i fs)
  then have "i = m + 1" by (simp add: main_ok_def)
  then have "\<exists>js js'. accepted es = js @ js' \<and> map task js' = map task (accepted es) \<and>
    (\<forall>j\<in>set js. \<exists>v. fn (arg j) = Inr v) \<and> 0 = (\<Sum>j\<leftarrow>js. outcome_value (fn (arg j)))"
    by (intro exI [of _ "[]"] exI [of _ "accepted es"]) simp
  with main_collects \<open>i = m + 1\<close> show ?case by (auto simp: main_ok_def)
next
  case (main_gets p k ks tot v)
  obtain js j js' where js: "accepted es = js @ j # js'" "task j = k" "map task js' = ks"
    "\<forall>j\<in>set js. \<exists>v. fn (arg j) = Inr v" "tot = (\<Sum>j\<leftarrow>js. outcome_value (fn (arg j)))"
    using awaited_job [OF main_gets(5,1)] .
  have "fn (arg j) = Inr v"
    by (rule fut_of_job [OF main_gets(3)]) (use js main_gets(2) in simp_all)
  with js have "\<exists>js js'. accepted es = js @ js' \<and> map task js' = ks \<and>
    (\<forall>j\<in>set js. \<exists>v. fn (arg j) = Inr v) \<and> tot + v = (\<Sum>j\<leftarrow>js. outcome_value (fn (arg j)))"
    by (intro exI [of _ "js @ [j]"] exI [of _ js']) auto
  with main_gets show ?case by (simp add: main_ok_def)
next
  case (main_get_throws p k ks tot x)
  obtain js j js' where js: "accepted es = js @ j # js'" "task j = k"
    using awaited_job [OF main_get_throws(5,1)] .
  have args: "map arg (accepted es) = [1..m]" using main_get_throws by (simp add: main_ok_def)
  have "fn (arg j) = Inl x"
    by (rule fut_of_job [OF main_get_throws(3)]) (use js main_get_throws(2) in simp_all)
  moreover have "arg j \<in> set [1..m]" unfolding args [symmetric] using js(1) by simp
  ultimately show ?case by (auto simp: main_ok_def)
next
  case (main_submit_threw p i fs x)
  then show ?case by (simp add: main_ok_def)
qed (auto simp: main_ok_def)

lemma reported_step:
  "main_step fn m p e p' \<Longrightarrow> main_ok fn m es p \<Longrightarrow> reported fn m p \<Longrightarrow> reported fn m p'"
proof (induction rule: main_step.induct)
  case (pool_moves p e s)
  then show ?case using pool_step_out [OF pool_moves(1)] by (auto simp: reported_def)
next
  case (main_reports p tot)
  then have "map arg (accepted es) = [1..m]" "tot = (\<Sum>j\<leftarrow>accepted es. outcome_value (fn (arg j)))"
    by (auto simp: main_ok_def)
  then have "tot = (\<Sum>i\<leftarrow>[1..m]. outcome_value (fn i))"
    by (simp add: comp_def flip: \<open>map arg (accepted es) = [1..m]\<close>)
  then show ?case by (simp add: reported_def report_def)
qed (auto simp: reported_def)

section \<open>Reachable states of the program\<close>

definition main_inv :: "(int \<Rightarrow> cpp_exn + int) \<Rightarrow> nat \<Rightarrow> int \<Rightarrow> int pool_event list \<Rightarrow> prog \<Rightarrow> bool" where
  "main_inv fn n m es p \<longleftrightarrow>
     pool_inv fn n es (pl p) \<and> only_main (pl p) \<and> main_ok fn m es p \<and> reported fn m p"

lemma main_inv_step: "main_step fn m p e p' \<Longrightarrow> main_inv fn n m es p \<Longrightarrow> main_inv fn n m (es @ [e]) p'"
  by (auto simp: main_inv_def intro: pool_inv_main only_main_step main_ok_step reported_step)

lemma main_inv_init: "main_init n = Inr p \<Longrightarrow> 0 \<le> m \<Longrightarrow> main_inv fn n m [] p"
  by (auto simp: main_init_def main_inv_def main_ok_def reported_def only_main_def pool_new_iff
      intro: pool_inv_init split: sum.splits)

lemma main_run_inv: "main_run fn m p es p' \<Longrightarrow> main_inv fn n m [] p \<Longrightarrow> main_inv fn n m es p'"
  by (induction rule: main_run.induct) (auto intro: main_inv_step)

lemma main_reaches_inv: "main_reaches fn n m es p \<Longrightarrow> 0 \<le> m \<Longrightarrow> main_inv fn n m es p"
  by (auto simp: main_reaches_def intro: main_run_inv main_inv_init)

text \<open>Some thread moves until \<^verbatim>\<open>main\<close> is done: the pool if the awaited future is not ready.\<close>

lemma main_moves:
  assumes inv: "main_inv fn n m es p" and "\<nexists>x. mpc p = Terminated x" and "mpc p \<noteq> Leaving \<or> th (pl p) 0 \<noteq> Dtor_ret"
  shows "\<exists>e p'. main_step fn m p e p' \<and> (mpc p' \<noteq> mpc p \<or>
    (\<exists>t. (t = 0 \<or> pool_thread (th (pl p) t)) \<and> th (pl p') t \<noteq> th (pl p) t))"
proof -
  have pi: "pool_inv fn n es (pl p)" and ok: "main_ok fn m es p" using inv by (auto simp: main_inv_def)
  have pool: ?thesis if "(t = 0 \<or> pool_thread (th (pl p) t)) \<and> moves fn (pl p) t" for t
  proof -
    from that obtain e s' where st: "pool_step fn (pl p) e s'" "th s' t \<noteq> th (pl p) t"
      by (auto simp: moves_def)
    with pool_moves [OF st(1)] that show ?thesis by (intro exI [of _ e] exI [of _ "p\<lparr>pl := s'\<rparr>"]) auto
  qed
  show ?thesis
  proof (cases "mpc p")
    case (Submitting i fs)
    note mp = this
    show ?thesis
    proof (cases "th (pl p) 0")
      case Client
      then show ?thesis
        using main_submits [OF mp Client] main_collects [OF mp Client] mp
        by (cases "i \<le> m") (force, force)
    next
      case (Submit_lock j)
      have "moves fn (pl p) 0"
      proof (cases "stopping (pl p)")
        case True
        then show ?thesis using Submit_lock stopping_dtor [OF pi] by simp
      next
        case False
        then show ?thesis
          using movesI [OF submit_accepted [OF Submit_lock], of "queue (pl p) @ [j]" 0] Submit_lock by simp
      qed
      then show ?thesis by (intro pool [of 0]) simp
    next
      case (Submit_notify j)
      then show ?thesis using notify_moves [of "pl p" 0] by (intro pool [of 0]) simp
    next
      case (Submit_ret j)
      then show ?thesis using main_submitted [OF mp Submit_ret, of fn m] mp by force
    qed (use ok mp in \<open>simp_all add: main_ok_def\<close>)
  next
    case (Getting ks tot)
    show ?thesis
    proof (cases ks)
      case Nil
      with main_reports [of p tot fn m] Getting show ?thesis by force
    next
      case (Cons k ks')
      obtain js j js' where "accepted es = js @ j # js'" "task j = k"
        using awaited_job [OF ok Getting [unfolded Cons]] .
      then have j: "j \<in> set (accepted es)" "task j = k" by simp_all
      show ?thesis
      proof (cases "fut (pl p) k")
        case None
        with j pending_job_moves [OF pi] pool show ?thesis by blast
      next
        case (Some r)
        with Getting Cons main_gets [of p k ks' tot _ fn m] main_get_throws [of p k ks' tot _ fn m]
        show ?thesis by (cases r) (force, force)
      qed
    qed
  next
    case Reported
    with ok main_leaves [of p fn m] show ?thesis by (force simp: main_ok_def)
  next
    case Leaving
    with ok assms(3) have "is_dtor (th (pl p) 0)" "th (pl p) 0 \<noteq> Dtor_ret" by (simp_all add: main_ok_def)
    with destructor_moves [OF pi] pool show ?thesis by blast
  qed (use assms(2) in simp)
qed

section \<open>The checksum and absence of deadlock\<close>

text \<open>The example computes what it says: for any callable that does not throw, any number
  of workers and requests and any schedule, when \<^verbatim>\<open>main\<close> has left its scope the console
  holds the checksum line with the sum over all requests, exactly those requests were
  accepted, in order, and each has run once.\<close>

lemma thread_pool_checksum:
  assumes "main_reaches fn n m es p" and "0 \<le> m" and "mpc p = Leaving" and "th (pl p) 0 = Dtor_ret"
  shows "report fn m \<in> set (out (pl p)) \<and> map arg (accepted es) = [1..m] \<and>
    mset (finished es) = mset (accepted es) \<and> queue (pl p) = []"
proof -
  have inv: "main_inv fn n m es p" using assms(1,2) by (rule main_reaches_inv)
  then have "report fn m \<in> set (out (pl p))" and "map arg (accepted es) = [1..m]"
    using assms(3) by (auto simp: main_inv_def reported_def main_ok_def)
  moreover have pi: "pool_inv fn n es (pl p)" using inv by (simp add: main_inv_def)
  then have "mset (finished es) = mset (accepted es) \<and> queue (pl p) = []"
    using destroyed_jobs assms(4) by blast
  ultimately show ?thesis by blast
qed

text \<open>No deadlock in the example: until \<^verbatim>\<open>main\<close> has left its scope, or an exception of the
  callable has reached it, \<^verbatim>\<open>main\<close> or a thread of the pool that is not blocked has a step
  that moves it.\<close>

lemma thread_pool_never_stuck:
  assumes "main_reaches fn n m es p" and "0 \<le> m" and "\<forall>i\<in>{1..m}. \<exists>v. fn i = Inr v"
    and "mpc p \<noteq> Leaving \<or> th (pl p) 0 \<noteq> Dtor_ret"
  shows "\<exists>e p'. main_step fn m p e p' \<and> (mpc p' \<noteq> mpc p \<or>
    (\<exists>t. (t = 0 \<or> pool_thread (th (pl p) t)) \<and> th (pl p') t \<noteq> th (pl p) t))"
proof -
  have inv: "main_inv fn n m es p" using assms(1,2) by (rule main_reaches_inv)
  then have "\<nexists>x. mpc p = Terminated x"
    using assms(3) by (fastforce simp: main_inv_def main_ok_def)
  then show ?thesis using assms(4) by (rule main_moves [OF inv])
qed

end
