(* ===== verification/ThreadPoolRun.thy ===== *)
theory ThreadPoolRun
  imports ThreadPoolDemo
begin

text \<open>
  An executable scheduler for the thread pool and its example: \<open>pool_exec\<close> makes the step of
  a given thread inside the pool, \<open>sys_exec\<close> follows a script of calls and moves, and
  \<open>main_exec\<close> runs the program. Their steps are steps of the relations, so evaluating them
  gives the runs that the witnesses are about.
\<close>

fun pool_exec :: "('a \<Rightarrow> cpp_exn + 'r) \<Rightarrow> tid \<Rightarrow> ('a, 'r) pool \<Rightarrow> ('a pool_event \<times> ('a, 'r) pool) option" where
  "pool_exec fn t s = (case th s t of
     Worker_start i \<Rightarrow>
       Some (Silent, s\<lparr>th := (th s)(t := Worker_lock i), out := worker_log i ''] start'' (out s)\<rparr>)
   | Worker_lock i \<Rightarrow>
       (if worker_ready (queue s) (stopping s) then
          (case worker_take (queue s) (stopping s) of
             None \<Rightarrow> Some (Silent,
               s\<lparr>th := (th s)(t := Worker_stopped i), out := worker_log i ''] stop'' (out s)\<rparr>)
           | Some (j, q) \<Rightarrow> Some (Started j, s\<lparr>queue := q, th := (th s)(t := Worker_got i j)\<rparr>))
        else Some (Silent, s\<lparr>th := (th s)(t := Worker_wait i)\<rparr>))
   | Worker_got i j \<Rightarrow>
       Some (Silent, s\<lparr>th := (th s)(t := Worker_run i j), out := worker_log i ''] run job'' (out s)\<rparr>)
   | Worker_run i j \<Rightarrow>
       Some (Finished j, s\<lparr>th := (th s)(t := Worker_lock i), fut := (fut s)(task j \<mapsto> fn (arg j))\<rparr>)
   | Submit_lock j \<Rightarrow>
       (case submit_locked j (queue s) (stopping s) of
          Inr q \<Rightarrow> Some (Accepted j, s\<lparr>queue := q, th := (th s)(t := Submit_notify j)\<rparr>)
        | Inl x \<Rightarrow> Some (Refused j, s\<lparr>th := (th s)(t := Submit_threw x)\<rparr>))
   | Submit_notify j \<Rightarrow>
       Some (Silent, s\<lparr>th := wake_first is_wait wake (workers s) ((th s)(t := Submit_ret j))\<rparr>)
   | Dtor_lock \<Rightarrow> Some (Stopping, s\<lparr>stopping := True, th := (th s)(t := Dtor_notify)\<rparr>)
   | Dtor_notify \<Rightarrow>
       Some (Silent, s\<lparr>th := notify_all is_wait wake ((th s)(t := Dtor_join (workers s)))\<rparr>)
   | Dtor_join (u # us) \<Rightarrow>
       (if is_stopped (th s u) then Some (Silent, s\<lparr>th := (th s)(t := Dtor_join us)\<rparr>) else None)
   | Dtor_join [] \<Rightarrow> Some (Silent, s\<lparr>th := (th s)(t := Dtor_ret)\<rparr>)
   | _ \<Rightarrow> None)"

declare pool_exec.simps [simp del]

lemma blocked_is_worker: "threads_ok n s \<Longrightarrow> is_wait (th s u) \<Longrightarrow> u \<in> set (workers s)"
  by (drule is_waitD) (auto simp: threads_ok_def dest!: spec [of _ u])

lemma pool_exec_sound:
  assumes "pool_exec fn t s = Some (e, s')" and "threads_ok n s"
  shows "pool_step fn s e s'"
proof (cases "th s t")
  case (Worker_lock i)
  with assms(1) show ?thesis
    by (auto simp: pool_exec.simps split: if_splits option.splits prod.splits
        intro: worker_blocks worker_stops worker_takes)
next
  case (Submit_lock j)
  with assms(1) show ?thesis
    by (auto simp: pool_exec.simps split: sum.splits intro: submit_accepted submit_refused)
next
  case (Submit_notify j)
  have "notify_one_to is_wait wake ((th s)(t := Submit_ret j))
    (wake_first is_wait wake (workers s) ((th s)(t := Submit_ret j)))"
    by (rule wake_first_sound) (use blocked_is_worker [OF assms(2)] in \<open>auto split: if_splits\<close>)
  with Submit_notify assms(1) show ?thesis
    by (auto simp: pool_exec.simps intro: submit_notifies)
next
  case (Dtor_join us)
  show ?thesis
  proof (cases us)
    case Nil
    with Dtor_join assms(1) show ?thesis by (auto simp: pool_exec.simps intro: dtor_returns)
  next
    case (Cons u us')
    with Dtor_join assms(1) have "is_stopped (th s u)" and s': "e = Silent" "s' = s\<lparr>th := (th s)(t := Dtor_join us')\<rparr>"
      by (auto simp: pool_exec.simps split: if_splits)
    then obtain i where "th s u = Worker_stopped i" by (cases "th s u") auto
    from dtor_joins [OF Dtor_join [unfolded Cons] this] show ?thesis unfolding s' .
  qed
qed (use assms(1) in \<open>auto simp: pool_exec.simps intro: pool_step.intros\<close>)

section \<open>Scripts of calls\<close>

datatype 'a action = Move tid | Call_submit tid 'a | Call_return tid | Call_destroy

fun sys_exec :: "('a \<Rightarrow> cpp_exn + 'r) \<Rightarrow> 'a action \<Rightarrow> ('a, 'r) pool \<Rightarrow> ('a pool_event \<times> ('a, 'r) pool) option" where
  "sys_exec fn (Move t) s = pool_exec fn t s"
| "sys_exec fn (Call_submit t a) s =
     (if th s t = Client then Some (Silent,
        s\<lparr>th := (th s)(t := Submit_lock (Job (next_task s) a)), next_task := next_task s + 1\<rparr>)
      else None)"
| "sys_exec fn (Call_return t) s = (case th s t of
     Submit_ret j \<Rightarrow> Some (Silent, s\<lparr>th := (th s)(t := Client)\<rparr>)
   | Submit_threw x \<Rightarrow> Some (Silent, s\<lparr>th := (th s)(t := Client)\<rparr>)
   | _ \<Rightarrow> None)"
| "sys_exec fn Call_destroy s =
     (if th s 0 = Client then Some (Silent, s\<lparr>th := (th s)(0 := Dtor_lock)\<rparr>) else None)"

fun sys_script :: "('a \<Rightarrow> cpp_exn + 'r) \<Rightarrow> 'a action list \<Rightarrow> 'a pool_event list \<times> ('a, 'r) pool \<Rightarrow>
    'a pool_event list \<times> ('a, 'r) pool" where
  "sys_script fn [] (es, s) = (es, s)"
| "sys_script fn (a # acts) (es, s) = (case sys_exec fn a s of
     Some (e, s') \<Rightarrow> sys_script fn acts (es @ [e], s')
   | None \<Rightarrow> sys_script fn acts (es, s))"

lemma sys_exec_sound:
  assumes "sys_exec fn a s = Some (e, s')" and "threads_ok n s"
  shows "sys_step fn s e s'"
proof (cases a)
  case (Move t)
  with assms show ?thesis by (auto intro: sys_inside pool_exec_sound)
next
  case (Call_submit t x)
  with assms(1) show ?thesis using sys_submit [of s t fn x] by (auto split: if_splits)
qed (use assms(1) in \<open>auto split: if_splits wstate.splits intro: sys_step.intros\<close>)

lemma sys_script_sound:
  "sys_script fn acts (es, s) = (es', s') \<Longrightarrow> sys_run fn s0 es s \<Longrightarrow> pool_inv fn n es s \<Longrightarrow> sys_run fn s0 es' s'"
proof (induction acts arbitrary: es s)
  case (Cons a acts)
  show ?case
  proof (cases "sys_exec fn a s")
    case None
    with Cons.prems(1) have "sys_script fn acts (es, s) = (es', s')" by simp
    from Cons.IH [OF this Cons.prems(2,3)] show ?thesis .
  next
    case (Some r)
    obtain e t where r: "r = (e, t)" by (cases r)
    with Some have st: "sys_step fn s e t" using sys_exec_sound pool_invD(3) [OF Cons.prems(3)] by blast
    from Cons.prems(1) Some r have "sys_script fn acts (es @ [e], t) = (es', s')" by simp
    from Cons.IH [OF this sys_snoc [OF Cons.prems(2) st] pool_inv_step [OF st Cons.prems(3)]] show ?thesis .
  qed
qed simp

section \<open>The example\<close>

fun main_exec :: "(int \<Rightarrow> cpp_exn + int) \<Rightarrow> int \<Rightarrow> tid \<Rightarrow> prog \<Rightarrow> (int pool_event \<times> prog) option" where
  "main_exec fn m t p = (case pool_exec fn t (pl p) of
     Some (e, s) \<Rightarrow> Some (e, p\<lparr>pl := s\<rparr>)
   | None \<Rightarrow> if t \<noteq> 0 then None else (case (mpc p, th (pl p) 0) of
       (Submitting i fs, Client) \<Rightarrow> Some (Silent,
         if i \<le> m then p\<lparr>pl := (pl p)\<lparr>th := (th (pl p))(0 := Submit_lock (Job (next_task (pl p)) i)),
           next_task := next_task (pl p) + 1\<rparr>\<rparr>
         else p\<lparr>mpc := Getting fs 0\<rparr>)
     | (Submitting i fs, Submit_ret j) \<Rightarrow> Some (Silent,
         p\<lparr>pl := (pl p)\<lparr>th := (th (pl p))(0 := Client)\<rparr>, mpc := Submitting (i + 1) (fs @ [task j])\<rparr>)
     | (Getting (k # ks) tot, _) \<Rightarrow> (case fut (pl p) k of
         Some (Inr v) \<Rightarrow> Some (Silent, p\<lparr>mpc := Getting ks (tot + v)\<rparr>)
       | Some (Inl x) \<Rightarrow> Some (Silent, p\<lparr>mpc := Terminated x\<rparr>)
       | None \<Rightarrow> None)
     | (Getting [] tot, _) \<Rightarrow> Some (Silent, p\<lparr>pl := (pl p)\<lparr>out := log_line
         [''Processed '', show_int m, '' requests; checksum='', show_int tot] (out (pl p))\<rparr>, mpc := Reported\<rparr>)
     | (Reported, Client) \<Rightarrow> Some (Silent,
         p\<lparr>pl := (pl p)\<lparr>th := (th (pl p))(0 := Dtor_lock)\<rparr>, mpc := Leaving\<rparr>)
     | _ \<Rightarrow> None))"

declare main_exec.simps [simp del]

lemma main_exec_sound:
  assumes "main_exec fn m t p = Some (e, p')" and "threads_ok n (pl p)"
  shows "main_step fn m p e p'"
proof (cases "pool_exec fn t (pl p)")
  case (Some r)
  obtain e' s where r: "r = (e', s)" by (cases r)
  with Some have "pool_step fn (pl p) e' s" using pool_exec_sound assms(2) by blast
  from pool_moves [OF this] Some r assms(1) show ?thesis by (auto simp: main_exec.simps)
next
  case None
  with assms(1) show ?thesis
  proof (cases "mpc p")
    case (Submitting i fs)
    with None assms(1) show ?thesis
      using main_submits [of p i fs m fn] main_collects [of p i fs m fn] main_submitted [of p i fs _ fn m]
      by (cases "th (pl p) 0") (auto simp: main_exec.simps split: if_splits)
  next
    case (Getting ks tot)
    with None assms(1) show ?thesis
      using main_gets [of p _ _ tot _ fn m] main_get_throws [of p _ _ tot _ fn m] main_reports [of p tot fn m]
      by (cases ks) (auto simp: main_exec.simps split: if_splits option.splits sum.splits wstate.splits)
  next
    case Reported
    with None assms(1) show ?thesis
      using main_leaves [of p fn m]
      by (cases "th (pl p) 0") (auto simp: main_exec.simps split: if_splits)
  qed (auto simp: main_exec.simps split: if_splits)
qed

fun main_schedule :: "(int \<Rightarrow> cpp_exn + int) \<Rightarrow> int \<Rightarrow> tid list \<Rightarrow> int pool_event list \<times> prog \<Rightarrow>
    int pool_event list \<times> prog" where
  "main_schedule fn m [] (es, p) = (es, p)"
| "main_schedule fn m (t # ts) (es, p) = (case main_exec fn m t p of
     Some (e, p') \<Rightarrow> main_schedule fn m ts (es @ [e], p')
   | None \<Rightarrow> main_schedule fn m ts (es, p))"

lemma main_schedule_sound:
  "main_schedule fn m ts (es, p) = (es', p') \<Longrightarrow> main_run fn m p0 es p \<Longrightarrow> main_inv fn n m es p \<Longrightarrow>
   main_run fn m p0 es' p'"
proof (induction ts arbitrary: es p)
  case (Cons t ts)
  show ?case
  proof (cases "main_exec fn m t p")
    case None
    with Cons.prems(1) have "main_schedule fn m ts (es, p) = (es', p')" by simp
    from Cons.IH [OF this Cons.prems(2,3)] show ?thesis .
  next
    case (Some r)
    obtain e q where r: "r = (e, q)" by (cases r)
    have "threads_ok n (pl p)" using Cons.prems(3) by (simp add: main_inv_def pool_inv_def)
    with Some r have st: "main_step fn m p e q" using main_exec_sound by blast
    from Cons.prems(1) Some r have "main_schedule fn m ts (es @ [e], q) = (es', p')" by simp
    from Cons.IH [OF this main_snoc [OF Cons.prems(2) st] main_inv_step [OF st Cons.prems(3)]] show ?thesis .
  qed
qed simp

section \<open>Witnesses\<close>

definition doubled :: "int \<Rightarrow> cpp_exn + int" where
  "doubled x = (if x = 13 then Inl (Runtime_error ''unlucky'') else Inr (2 * x))"

definition one_worker :: "(int, int) pool" where
  "one_worker = \<lparr>queue = [], stopping = False, workers = [1],
     th = (\<lambda>t. if 1 \<le> t \<and> t \<le> 1 then Worker_start (t - 1) else Client),
     fut = (\<lambda>_. None), next_task = 0, out = []\<rparr>"

lemma one_worker_new: "ThreadPool_new 1 [] = Inr one_worker"
  by (simp add: ThreadPool_new_def one_worker_def)

text \<open>
  The worker blocks, then thread 0 submits 7 and 13; while nobody has run them the pool has
  work, and at the end the destructor has returned.
\<close>

definition submit_script :: "int action list" where
  "submit_script = [Move 1, Move 1, Call_submit 0 7, Move 0]"

definition full_script :: "int action list" where
  "full_script = submit_script @ [Move 0, Call_return 0, Call_submit 0 13, Move 0, Move 0, Call_return 0,
     Move 1, Call_destroy, Move 0, Move 0, Move 1, Move 1, Move 1, Move 1, Move 1, Move 1, Move 0, Move 0]"

definition submit_state :: "int pool_event list \<times> (int, int) pool" where
  "submit_state = sys_script doubled submit_script ([], one_worker)"

definition full_state :: "int pool_event list \<times> (int, int) pool" where
  "full_state = sys_script doubled full_script ([], one_worker)"

lemma script_reaches:
  assumes "r = sys_script doubled acts ([], one_worker)"
  shows "pool_reaches doubled 1 (fst r) (snd r)"
proof -
  have "sys_run doubled one_worker (fst r) (snd r)"
    by (rule sys_script_sound [of doubled acts "[]" one_worker _ _ _ 1])
      (use assms one_worker_new in \<open>simp_all add: sys_nil pool_inv_init\<close>)
  with one_worker_new show ?thesis by (auto simp: pool_reaches_def)
qed

lemma submit_state_values:
  "case submit_state of (es, s) \<Rightarrow> accepted es = [Job 0 7] \<and> fut s 0 = None \<and> is_wait (th s 1)"
  by code_simp

lemma full_state_values:
  "case full_state of (es, s) \<Rightarrow> (accepted es, finished es, th s 0, fut s 0, fut s 1) =
     ([Job 0 7, Job 1 13], [Job 0 7, Job 1 13], Dtor_ret, Some (Inr 14), Some (Inl (Runtime_error ''unlucky'')))"
  by code_simp

theorem pool_jobs_in_order_witness:
  "accepted (fst full_state) = started (fst full_state) @ queue (snd full_state) \<and>
   fut (snd full_state) 1 = Some (Inl (Runtime_error ''unlucky''))"
  using pool_jobs_in_order [OF script_reaches [OF full_state_def]] full_state_values
  by (simp add: case_prod_beta doubled_def)

theorem pool_destructor_complete_witness:
  "queue (snd full_state) = [] \<and> is_stopped (th (snd full_state) 1) \<and>
   mset (finished (fst full_state)) = {#Job 0 7, Job 1 13#}"
proof -
  have "th (snd full_state) 0 = Dtor_ret" and a: "accepted (fst full_state) = [Job 0 7, Job 1 13]"
    using full_state_values by (simp_all add: case_prod_beta)
  from pool_destructor_complete [OF script_reaches [OF full_state_def] this(1)] show ?thesis
    by (simp add: a)
qed

theorem pool_never_stuck_witness:
  "\<exists>v e s'. pool_thread (th (snd submit_state) v) \<and> pool_step doubled (snd submit_state) e s' \<and>
     th s' v \<noteq> th (snd submit_state) v"
proof -
  have "accepted (fst submit_state) = [Job 0 7]" and "fut (snd submit_state) 0 = None"
    using submit_state_values by (simp_all add: case_prod_beta)
  then have "\<exists>j\<in>set (accepted (fst submit_state)). fut (snd submit_state) (task j) = None" by simp
  then show ?thesis
    by (intro pool_never_stuck [OF script_reaches [OF submit_state_def]] disjI1)
qed

text \<open>The example with one worker and two requests, its threads taking turns.\<close>

definition small_main :: prog where
  "small_main = \<lparr>pl = one_worker\<lparr>out := log_line [''Thread pool example: fan-out parsing stage.''] []\<rparr>,
     mpc = Submitting 1 []\<rparr>"

definition main_end :: "int pool_event list \<times> prog" where
  "main_end = main_schedule doubled 2 (concat (replicate 30 [0, 1])) ([], small_main)"

lemma small_main_init: "main_init 1 = Inr small_main"
  by (simp add: main_init_def ThreadPool_new_def small_main_def one_worker_def)

lemma main_end_reaches: "main_reaches doubled 1 2 (fst main_end) (snd main_end)"
proof -
  have "main_run doubled 2 small_main (fst main_end) (snd main_end)"
    by (rule main_schedule_sound [of doubled 2 "concat (replicate 30 [0, 1])" "[]" small_main _ _ _ 1])
      (use main_inv_init [OF small_main_init] in \<open>simp_all add: main_end_def main_nil\<close>)
  with small_main_init show ?thesis by (auto simp: main_reaches_def)
qed

lemma main_end_values:
  "case main_end of (es, p) \<Rightarrow> (mpc p, th (pl p) 0) = (Leaving, Dtor_ret)"
  by code_simp

lemma thread_pool_checksum_example:
  "''Processed 2 requests; checksum=6'' \<in> set (out (pl (snd main_end)))"
proof -
  have "mpc (snd main_end) = Leaving" "th (pl (snd main_end)) 0 = Dtor_ret"
    using main_end_values by (simp_all add: case_prod_beta)
  from thread_pool_checksum [OF main_end_reaches _ this]
  have "report doubled 2 \<in> set (out (pl (snd main_end)))" by simp
  moreover have "report doubled 2 = ''Processed 2 requests; checksum=6''" by code_simp
  ultimately show ?thesis by simp
qed

lemma thread_pool_never_stuck_example:
  "\<exists>e p'. main_step doubled 2 small_main e p' \<and> (mpc p' \<noteq> mpc small_main \<or>
     (\<exists>t. (t = 0 \<or> pool_thread (th (pl small_main) t)) \<and> th (pl p') t \<noteq> th (pl small_main) t))"
proof (rule thread_pool_never_stuck)
  show "main_reaches doubled 1 2 [] small_main"
    using small_main_init by (auto simp: main_reaches_def main_nil)
  show "\<forall>i\<in>{1..2}. \<exists>v. doubled i = Inr v" by (simp add: doubled_def)
qed (simp_all add: small_main_def)

end
