(* ===== verification/ThreadPoolEnds.thy ===== *)
theory ThreadPoolEnds
  imports ThreadPoolRun
begin

text \<open>
  The program of \<^verbatim>\<open>examples/thread_pool/main.cpp\<close> ends, whether or not the callable throws. As
  in \<open>BoundedQueueEnds\<close>, \<open>worker_weight\<close> and \<open>main_weight\<close> bound what a thread can still do,
  an action that notifies pays for the workers it wakes, and only a spurious wake-up gives
  without paying. With the absence of deadlock and the checksum of \<open>ThreadPoolDemo\<close> this is
  the total correctness of the program.
\<close>

section \<open>Counting actions\<close>

definition spurious_wakeup :: "prog \<Rightarrow> prog \<Rightarrow> bool" where
  "spurious_wakeup p p' \<longleftrightarrow>
     (\<exists>t. is_wait (th (pl p) t) \<and> p' = p\<lparr>pl := (pl p)\<lparr>th := (th (pl p))(t := wake (th (pl p) t))\<rparr>\<rparr>)"

lemma worker_spurious_wakeupI:
  "th (pl p) t = Worker_wait i \<Longrightarrow> spurious_wakeup p (p\<lparr>pl := (pl p)\<lparr>th := (th (pl p))(t := Worker_lock i)\<rparr>\<rparr>)"
  unfolding spurious_wakeup_def by (intro exI [of _ t]) simp

text \<open>\<open>main_actions fn m p k s es p'\<close>: a run with \<open>s\<close> spurious wake-ups and \<open>k\<close> other actions.\<close>

inductive main_actions ::
  "(int \<Rightarrow> cpp_exn + int) \<Rightarrow> int \<Rightarrow> prog \<Rightarrow> nat \<Rightarrow> nat \<Rightarrow> int pool_event list \<Rightarrow> prog \<Rightarrow> bool" for fn m where
  main_actions_nil: "main_actions fn m p 0 0 [] p"
| main_actions_snoc: "main_actions fn m p k s es p' \<Longrightarrow> main_step fn m p' e p'' \<Longrightarrow>
    main_actions fn m p (k + of_bool (\<not> spurious_wakeup p' p'')) (s + of_bool (spurious_wakeup p' p''))
      (es @ [e]) p''"

lemma main_actions_run: "main_actions fn m p k s es p' \<Longrightarrow> main_run fn m p es p'"
  by (induction rule: main_actions.induct) (auto intro: main_nil main_snoc)

lemma main_run_actions: "main_run fn m p es p' \<Longrightarrow> \<exists>k s. main_actions fn m p k s es p'"
  by (induction rule: main_run.induct) (blast intro: main_actions_nil main_actions_snoc)+

section \<open>What is left to do\<close>

fun worker_weight :: "'a wstate \<Rightarrow> nat" where
  "worker_weight (Worker_start i) = 3"
| "worker_weight (Worker_lock i) = 2"
| "worker_weight (Worker_wait i) = 1"
| "worker_weight (Worker_got i j) = 4"
| "worker_weight (Worker_run i j) = 3"
| "worker_weight x = 0"

fun main_weight :: "nat \<Rightarrow> int \<Rightarrow> main_pc \<Rightarrow> int wstate \<Rightarrow> nat" where
  "main_weight n m (Submitting i fs) x = 9 * nat (m + 1 - i) + length fs + 2 * n + 6 -
     (case x of Submit_lock j \<Rightarrow> 1 | Submit_notify j \<Rightarrow> 5 | Submit_ret j \<Rightarrow> 7 | Submit_threw e \<Rightarrow> 2 | _ \<Rightarrow> 0)"
| "main_weight n m (Getting ks tot) x = length ks + 2 * n + 5"
| "main_weight n m Reported x = 2 * n + 4"
| "main_weight n m Leaving x = (case x of
     Dtor_lock \<Rightarrow> 2 * n + 3 | Dtor_notify \<Rightarrow> 2 * n + 2 | Dtor_join us \<Rightarrow> length us + 1 | _ \<Rightarrow> 0)"
| "main_weight n m (Terminated e) x = 0"

definition workers_left :: "nat \<Rightarrow> (tid \<Rightarrow> 'a wstate) \<Rightarrow> nat" where
  "workers_left n f = (\<Sum>t\<in>{1..n}. worker_weight (f t))"

definition left_to_do :: "nat \<Rightarrow> int \<Rightarrow> prog \<Rightarrow> nat" where
  "left_to_do n m p =
     workers_left n (th (pl p)) + 3 * length (queue (pl p)) + main_weight n m (mpc p) (th (pl p) 0)"

lemma workers_left_main [simp]: "workers_left n (f(0 := x)) = workers_left n f"
  unfolding workers_left_def by (intro sum.cong) auto

lemma workers_left_upd:
  assumes "1 \<le> t \<and> t \<le> n"
  shows "workers_left n (f(t := x)) + worker_weight (f t) = workers_left n f + worker_weight x"
  using sum_one_moves [of "{1..n}" t "\<lambda>u. worker_weight ((f(t := x)) u)" "\<lambda>u. worker_weight (f u)"] assms
  by (simp add: workers_left_def)

lemma workers_left_notify:
  assumes "notify_one_to is_wait wake f f'" and "\<And>u. is_worker (f u) \<Longrightarrow> 1 \<le> u \<and> u \<le> n"
  shows "workers_left n f' \<le> workers_left n f + 1"
  using assms(1)
proof (cases rule: notify_cases)
  case (woken u i)
  with assms(2) [of u] workers_left_upd [of u n f "Worker_lock i"] show ?thesis by simp
qed simp

lemma workers_left_notify_all: "workers_left n (notify_all is_wait wake f) \<le> workers_left n f + n"
proof -
  have "workers_left n (notify_all is_wait wake f) \<le> (\<Sum>t\<in>{1..n}. worker_weight (f t) + 1)"
    unfolding workers_left_def
    by (rule sum_mono) (auto simp: notify_all_def dest!: is_waitD)
  then show ?thesis unfolding sum.distrib by (simp add: workers_left_def)
qed

section \<open>How main ends\<close>

text \<open>When an exception has ended \<^verbatim>\<open>main\<close> it is in no call of the pool, and the exception is that of
  the first request that throws; when \<^verbatim>\<open>main\<close> reports, no request throws.\<close>

definition first_throw :: "(int \<Rightarrow> cpp_exn + int) \<Rightarrow> int \<Rightarrow> cpp_exn \<Rightarrow> bool" where
  "first_throw fn m x \<longleftrightarrow> (\<exists>i\<in>{1..m}. fn i = Inl x \<and> (\<forall>j\<in>{1..<i}. \<exists>v. fn j = Inr v))"

definition end_ok :: "(int \<Rightarrow> cpp_exn + int) \<Rightarrow> int \<Rightarrow> prog \<Rightarrow> bool" where
  "end_ok fn m p \<longleftrightarrow> (\<forall>x. mpc p = Terminated x \<longrightarrow> th (pl p) 0 = Client \<and> first_throw fn m x) \<and>
     (mpc p = Reported \<or> mpc p = Leaving \<longrightarrow> (\<forall>i\<in>{1..m}. \<exists>v. fn i = Inr v))"

lemma upto_split_at:
  assumes "xs @ i # ys = [1..m]"
  shows "i \<in> {1..m}" and "set xs = {1..<i}"
proof -
  have sorted: "sorted_wrt (<) (xs @ i # ys)" unfolding assms by simp
  have members: "set (xs @ i # ys) = {1..m}" unfolding assms by simp
  then show i: "i \<in> {1..m}" by auto
  have "x \<in> set xs \<longleftrightarrow> x \<in> set (xs @ i # ys) \<and> x < i" for x
    using sorted by (fastforce simp: sorted_wrt_append)
  then show "set xs = {1..<i}" using i unfolding members by fastforce
qed

lemma end_ok_step:
  "main_step fn m p e p' \<Longrightarrow> main_inv fn n m es p \<Longrightarrow> end_ok fn m p \<Longrightarrow> end_ok fn m p'"
proof (induction rule: main_step.induct)
  case (pool_moves p e s)
  then have "th s 0 = Client" if "th (pl p) 0 = Client"
    using pool_step_main [OF pool_moves(1)] main_thread that
    by (auto simp: main_inv_def elim: main_view.cases)
  with pool_moves show ?case by (simp add: end_ok_def)
next
  case (main_get_throws p k ks tot x)
  then have ok: "main_ok fn m es p" and pool: "pool_inv fn n es (pl p)" by (auto simp: main_inv_def)
  obtain js j js' where js: "accepted es = js @ j # js'" "task j = k" "\<forall>j\<in>set js. \<exists>v. fn (arg j) = Inr v"
    using awaited_job [OF ok main_get_throws(1)] .
  have "map arg js @ arg j # map arg js' = [1..m]"
    using ok main_get_throws(1) js(1) by (simp add: main_ok_def)
  note at = upto_split_at [OF this]
  have "fn (arg j) = Inl x"
    by (rule fut_of_job [OF pool]) (use js main_get_throws(2) in simp_all)
  moreover have "\<forall>i\<in>{1..<arg j}. \<exists>v. fn i = Inr v"
    unfolding at(2) [symmetric] using js(3) by auto
  ultimately have "first_throw fn m x" using at(1) by (auto simp: first_throw_def)
  with ok main_get_throws(1) show ?case by (simp add: end_ok_def main_ok_def)
next
  case (main_reports p tot)
  then have args: "map arg (accepted es) = [1..m]" and ok: "\<forall>j\<in>set (accepted es). \<exists>v. fn (arg j) = Inr v"
    by (auto simp: main_inv_def main_ok_def)
  have "arg ` set (accepted es) = {1..m}" using arg_cong [OF args, of set] by simp
  with ok have "\<forall>i\<in>{1..m}. \<exists>v. fn i = Inr v" by (metis imageE)
  then show ?case by (simp add: end_ok_def)
qed (auto simp: end_ok_def main_inv_def main_ok_def)

lemma end_ok_run: "main_run fn m p es p' \<Longrightarrow> main_inv fn n m [] p \<Longrightarrow> end_ok fn m p \<Longrightarrow> end_ok fn m p'"
  by (induction rule: main_run.induct) (auto dest: main_run_inv intro: end_ok_step)

section \<open>Every action does some of it\<close>

lemma not_submitting_dtor: "is_dtor x \<Longrightarrow> \<not> submitting i m x"
  by (cases x) auto

lemma main_weight_inside:
  assumes "main_ok fn m es p" and "end_ok fn m p"
  shows "th (pl p) 0 = Submit_lock j \<Longrightarrow> main_weight n m (mpc p) (Submit_notify k) + 4 = main_weight n m (mpc p) (Submit_lock j)"
    and "th (pl p) 0 = Submit_lock j \<Longrightarrow> main_weight n m (mpc p) (Submit_threw x) < main_weight n m (mpc p) (Submit_lock j)"
    and "th (pl p) 0 = Submit_notify j \<Longrightarrow> main_weight n m (mpc p) (Submit_ret k) + 2 = main_weight n m (mpc p) (Submit_notify j)"
    and "is_dtor (th (pl p) 0) \<Longrightarrow> mpc p = Leaving"
  using assms not_submitting_dtor by (fastforce simp: main_ok_def end_ok_def split: main_pc.splits)+

lemma left_pool_step:
  assumes "pool_step fn (pl p) e s" and inv: "main_inv fn n m es p" and "end_ok fn m p"
    and "\<not> spurious_wakeup p (p\<lparr>pl := s\<rparr>)"
  shows "left_to_do n m (p\<lparr>pl := s\<rparr>) < left_to_do n m p"
proof -
  have ok: "main_ok fn m es p" and only: "only_main (pl p)" and thr: "threads_ok n (pl p)"
    using inv by (auto simp: main_inv_def pool_inv_def)
  note inside = main_weight_inside [OF ok assms(3)]
  have w: "1 \<le> t \<and> t \<le> n \<and> t \<noteq> 0" if "is_worker (th (pl p) t)" for t
    using thr that by (auto simp: threads_ok_def)
  have upd: "workers_left n ((th (pl p))(t := x)) + worker_weight (th (pl p) t) = workers_left n (th (pl p)) + worker_weight x"
    if "is_worker (th (pl p) t)" for t x
    using workers_left_upd w [OF that] by blast
  have z: "t = 0" if "\<not> is_worker (th (pl p) t)" "th (pl p) t \<noteq> Client" for t
    using only_mainD [OF only that] .
  from assms(1) show ?thesis
  proof cases
    case (worker_starts t i)
    with upd [of t "Worker_lock i"] w [of t] show ?thesis by (simp add: left_to_do_def)
  next
    case (worker_blocks t i)
    with upd [of t "Worker_wait i"] w [of t] show ?thesis by (simp add: left_to_do_def)
  next
    case (worker_spurious t i)
    with assms(4) show ?thesis using worker_spurious_wakeupI by auto
  next
    case (worker_stops t i)
    with upd [of t "Worker_stopped i"] w [of t] show ?thesis by (simp add: left_to_do_def)
  next
    case (worker_takes t i j q)
    with upd [of t "Worker_got i j"] w [of t] show ?thesis by (simp add: left_to_do_def worker_take_Some)
  next
    case (worker_logs t i j)
    with upd [of t "Worker_run i j"] w [of t] show ?thesis by (simp add: left_to_do_def)
  next
    case (worker_runs t i j)
    with upd [of t "Worker_lock i"] w [of t] show ?thesis by (simp add: left_to_do_def)
  next
    case (submit_accepted t j q)
    with z [of t] inside(1) [of j n j] show ?thesis by (simp add: left_to_do_def)
  next
    case (submit_refused t j x)
    with z [of t] inside(2) [of j n x] show ?thesis by (simp add: left_to_do_def)
  next
    case (submit_notifies t j f)
    then have t: "t = 0" using z [of t] by simp
    have "workers_left n f \<le> workers_left n ((th (pl p))(0 := Submit_ret j)) + 1"
      by (rule workers_left_notify [OF submit_notifies(4) [unfolded t]]) (use w in \<open>auto split: if_splits\<close>)
    moreover have "f 0 = Submit_ret j" using notify_same [OF submit_notifies(4), of "Submit_ret j" 0] t by simp
    ultimately show ?thesis using submit_notifies t inside(3) [of j n j] by (simp add: left_to_do_def)
  next
    case (dtor_sets t)
    with z [of t] inside(4) show ?thesis by (simp add: left_to_do_def)
  next
    case (dtor_notifies t)
    then have t: "t = 0" using z [of t] by simp
    have "length (workers (pl p)) = n" using thr by (simp add: threads_ok_def)
    then show ?thesis
      using dtor_notifies t inside(4) notify_all_same [of "Dtor_join (workers (pl p))" "(th (pl p))(0 := Dtor_join (workers (pl p)))" 0]
        workers_left_notify_all [of n "(th (pl p))(0 := Dtor_join (workers (pl p)))"]
      by (simp add: left_to_do_def)
  next
    case (dtor_joins t u us i)
    with z [of t] inside(4) show ?thesis by (simp add: left_to_do_def)
  next
    case (dtor_returns t)
    with z [of t] inside(4) show ?thesis by (simp add: left_to_do_def)
  qed
qed

lemma left_main_step:
  assumes "main_step fn m p e p'" and inv: "main_inv fn n m es p" and "end_ok fn m p"
    and "\<not> spurious_wakeup p p'"
  shows "left_to_do n m p' < left_to_do n m p"
proof -
  have ok: "main_ok fn m es p" using inv by (simp add: main_inv_def)
  from assms(1) show ?thesis
  proof cases
    case (pool_moves s)
    with assms(4) show ?thesis using left_pool_step [OF _ inv assms(3)] by simp
  next
    case (main_submitted i fs j)
    with ok have "i \<le> m" by (simp add: main_ok_def)
    then have "nat (m + 1 - i) = Suc (nat (m - i))" by simp
    with main_submitted show ?thesis by (simp add: left_to_do_def)
  next
    case (main_submit_threw i fs x)
    then show ?thesis by (simp add: left_to_do_def)
  qed (use ok in \<open>auto simp: left_to_do_def main_ok_def\<close>)
qed

text \<open>A spurious wake-up gives one action.\<close>

lemma left_main_spurious:
  assumes "spurious_wakeup p p'" and "main_inv fn n m es p"
  shows "left_to_do n m p' \<le> left_to_do n m p + 1"
proof -
  from assms(1) obtain t i where t: "th (pl p) t = Worker_wait i"
    and p': "p' = p\<lparr>pl := (pl p)\<lparr>th := (th (pl p))(t := Worker_lock i)\<rparr>\<rparr>"
    by (auto simp: spurious_wakeup_def dest!: is_waitD)
  have "1 \<le> t \<and> t \<le> n"
    using t pool_invD(3) [of fn n es "pl p"] assms(2) unfolding main_inv_def threads_ok_def
    by (metis is_worker.simps(3))
  with workers_left_upd [OF this, of "th (pl p)" "Worker_lock i"] t show ?thesis
    by (simp add: p' left_to_do_def)
qed

lemma main_actions_bounded:
  "main_actions fn m p k s es p' \<Longrightarrow> main_inv fn n m [] p \<Longrightarrow> end_ok fn m p \<Longrightarrow>
   k + left_to_do n m p' \<le> left_to_do n m p + s"
proof (induction rule: main_actions.induct)
  case (main_actions_snoc p k s es p' e p'')
  then have "main_inv fn n m es p'" and "end_ok fn m p'"
    using main_actions_run main_run_inv end_ok_run by blast+
  with main_actions_snoc left_main_step [OF main_actions_snoc(2)] left_main_spurious [of p' p'' fn n m es] show ?case
    by (cases "spurious_wakeup p' p''") fastforce+
qed simp

lemma start_left:
  assumes "main_init n = Inr p" and "0 \<le> m"
  shows "left_to_do n m p = 9 * nat m + 5 * n + 6" and "end_ok fn m p"
proof -
  from assms obtain con where p: "0 < n" "p = \<lparr>pl = \<lparr>queue = [], stopping = False, workers = [1..<Suc n],
     th = (\<lambda>t. if 1 \<le> t \<and> t \<le> n then Worker_start (t - 1) else Client),
     fut = (\<lambda>_. None), next_task = 0, out = con\<rparr>, mpc = Submitting 1 []\<rparr>"
    by (auto simp: main_init_def pool_new_iff split: sum.splits)
  have "workers_left n (\<lambda>t. if 1 \<le> t \<and> t \<le> n then Worker_start (t - 1) else Client) = 3 * n"
    unfolding workers_left_def by (subst sum.cong [OF refl, of _ _ "\<lambda>_. 3"]) auto
  with p assms(2) show "left_to_do n m p = 9 * nat m + 5 * n + 6"
    by (simp add: left_to_do_def)
  show "end_ok fn m p" using p by (simp add: end_ok_def)
qed

section \<open>Total correctness\<close>

lemma another_action:
  assumes "main_inv fn n m es p" and "\<nexists>x. mpc p = Terminated x" and "mpc p \<noteq> Leaving \<or> th (pl p) 0 \<noteq> Dtor_ret"
  shows "\<exists>e p'. main_step fn m p e p' \<and> \<not> spurious_wakeup p p'"
proof -
  obtain e p' where "main_step fn m p e p'" and moved: "mpc p' \<noteq> mpc p \<or>
      (\<exists>t. (t = 0 \<or> pool_thread (th (pl p) t)) \<and> th (pl p') t \<noteq> th (pl p) t)"
    using main_moves [OF assms] by (elim exE conjE)
  moreover have "\<not> is_worker (th (pl p) 0)"
    using assms(1) main_thread by (auto simp: main_inv_def)
  with moved have "\<not> spurious_wakeup p p'"
    by (auto simp: spurious_wakeup_def pool_thread_def split: if_splits dest!: is_waitD)
  ultimately show ?thesis by blast
qed

text \<open>C10. The program is totally correct, for any callable, any workers, any number of requests
  and every schedule. Beside spurious wake-ups it makes at most nine actions per request and
  five per worker, plus one for each spurious wake-up. Until it is over, \<^verbatim>\<open>main\<close> or a thread of
  the pool has another action that is not a spurious wake-up. It ends in one of two ways: an
  exception has left \<^verbatim>\<open>main\<close>, and it is the one of the first request that throws; or no request
  throws, \<^verbatim>\<open>main\<close> has printed the checksum over all requests, each request has been accepted
  in order and run once, and every worker has stopped.\<close>

theorem thread_pool_correct:
  assumes "main_init n = Inr p0" and "0 \<le> m" and "main_actions fn m p0 k s es p"
  shows "k \<le> 9 * nat m + 5 * n + 6 + s \<and> (case mpc p of
     Terminated x \<Rightarrow> first_throw fn m x
   | _ \<Rightarrow> if mpc p \<noteq> Leaving \<or> th (pl p) 0 \<noteq> Dtor_ret then \<exists>e p'. main_step fn m p e p' \<and> \<not> spurious_wakeup p p'
      else (\<forall>i\<in>{1..m}. \<exists>v. fn i = Inr v) \<and> report fn m \<in> set (out (pl p)) \<and>
        map arg (accepted es) = [1..m] \<and> mset (finished es) = mset (accepted es) \<and>
        queue (pl p) = [] \<and> (\<forall>u\<in>{1..n}. is_stopped (th (pl p) u)))"
proof -
  have inv0: "main_inv fn n m [] p0" using assms(1,2) by (rule main_inv_init)
  note start = start_left [OF assms(1,2)]
  have run: "main_run fn m p0 es p" using main_actions_run [OF assms(3)] .
  have inv: "main_inv fn n m es p" and ending: "end_ok fn m p"
    using main_run_inv [OF run inv0] end_ok_run [OF run inv0 start(2)] by simp_all
  have reaches: "main_reaches fn n m es p" using assms(1) run by (auto simp: main_reaches_def)
  have pool: "pool_inv fn n es (pl p)" using inv by (simp add: main_inv_def)
  have "k \<le> 9 * nat m + 5 * n + 6 + s"
    using main_actions_bounded [OF assms(3) inv0 start(2)] start(1) by simp
  moreover have "first_throw fn m x" if "mpc p = Terminated x" for x
    using ending that by (simp add: end_ok_def)
  moreover have "\<exists>e p'. main_step fn m p e p' \<and> \<not> spurious_wakeup p p'"
    if "\<nexists>x. mpc p = Terminated x" and "mpc p \<noteq> Leaving \<or> th (pl p) 0 \<noteq> Dtor_ret"
    using another_action [OF inv that] .
  moreover have "(\<forall>i\<in>{1..m}. \<exists>v. fn i = Inr v) \<and> report fn m \<in> set (out (pl p)) \<and> map arg (accepted es) = [1..m] \<and>
      mset (finished es) = mset (accepted es) \<and> queue (pl p) = [] \<and> (\<forall>u\<in>{1..n}. is_stopped (th (pl p) u))"
    if "mpc p = Leaving" and "th (pl p) 0 = Dtor_ret"
    using that ending thread_pool_checksum [OF reaches assms(2) that] destroyed_jobs [OF pool that(2)]
    by (simp add: end_ok_def)
  ultimately show ?thesis by (auto split: main_pc.splits)
qed

text \<open>The second of two requests throws.\<close>

definition second_throws :: "int \<Rightarrow> cpp_exn + int" where
  "second_throws x = (if x = 2 then Inl (Runtime_error ''unlucky'') else Inr x)"

definition throwing_end :: "int pool_event list \<times> prog" where
  "throwing_end = main_schedule second_throws 2 (concat (replicate 20 [0, 1])) ([], small_main)"

lemma throwing_end_values: "mpc (snd throwing_end) = Terminated (Runtime_error ''unlucky'')"
  by code_simp

theorem thread_pool_correct_witness:
  "(\<exists>k s. main_actions doubled 2 small_main k s (fst main_end) (snd main_end) \<and> k \<le> 29 + s \<and>
     ''Processed 2 requests; checksum=6'' \<in> set (out (pl (snd main_end)))) \<and>
   (\<exists>e p'. main_step doubled 2 small_main e p' \<and> \<not> spurious_wakeup small_main p') \<and>
   first_throw second_throws 2 (Runtime_error ''unlucky'')"
proof (intro conjI)
  have "main_run doubled 2 small_main (fst main_end) (snd main_end)"
    using main_end_reaches unfolding main_reaches_def small_main_init by simp
  then obtain k s where run: "main_actions doubled 2 small_main k s (fst main_end) (snd main_end)"
    using main_run_actions by blast
  have "mpc (snd main_end) = Leaving" "th (pl (snd main_end)) 0 = Dtor_ret"
    using main_end_values by (simp_all add: case_prod_beta)
  moreover have "report doubled 2 = ''Processed 2 requests; checksum=6''" by code_simp
  ultimately show "\<exists>k s. main_actions doubled 2 small_main k s (fst main_end) (snd main_end) \<and> k \<le> 29 + s \<and>
     ''Processed 2 requests; checksum=6'' \<in> set (out (pl (snd main_end)))"
    using thread_pool_correct [OF small_main_init _ run] run by (intro exI [of _ k] exI [of _ s]) simp
  show "\<exists>e p'. main_step doubled 2 small_main e p' \<and> \<not> spurious_wakeup small_main p'"
    using thread_pool_correct [OF small_main_init _ main_actions_nil, of 2 doubled] by (simp add: small_main_def)
  have "main_run second_throws 2 small_main (fst throwing_end) (snd throwing_end)"
    by (rule main_schedule_sound [of second_throws 2 "concat (replicate 20 [0, 1])" "[]" small_main _ _ _ 1])
      (use main_inv_init [OF small_main_init] in \<open>simp_all add: throwing_end_def main_nil\<close>)
  then obtain k s where "main_actions second_throws 2 small_main k s (fst throwing_end) (snd throwing_end)"
    using main_run_actions by blast
  from thread_pool_correct [OF small_main_init _ this] throwing_end_values
  show "first_throw second_throws 2 (Runtime_error ''unlucky'')" by simp
qed

end
