(* ===== verification/FuturesPromises.thy ===== *)
theory FuturesPromises
  imports Concurrency
begin

text \<open>
  The race of \<^verbatim>\<open>examples/futures_promises/main.cpp\<close>: the lookups run in threads of their
  own and the first success fulfils a promise, or the last failure an error.

  \<open>shared\<close> is the struct \<^verbatim>\<open>FirstSuccess\<close> with the state of its promise: nothing yet, a value
  or an exception. \<open>lookup_step\<close> is one atomic action of a lookup thread, from the end of its
  lookup to its return: the exchange of the flag, \<^verbatim>\<open>set_value\<close>, the locked store of the error,
  the \<^verbatim>\<open>fetch_sub\<close>, the second exchange, the locked read and \<^verbatim>\<open>set_exception\<close>. Setting a
  promise twice throws \<^verbatim>\<open>std::future_error\<close>: out of \<^verbatim>\<open>set_value\<close> the catch block of the
  thread reports it as a failure, out of \<^verbatim>\<open>set_exception\<close> it leaves the thread and ends the
  program (\<open>Crashed\<close>). Proved: neither happens, in no interleaving; the promise is always
  fulfilled, with a value if and only if some lookup succeeds; every run is finite.
\<close>

section \<open>The shared state and the threads\<close>

record shared =
  prom :: "(cpp_exn + string) option"
  done_flag :: bool
  remaining :: int
  last_error :: "cpp_exn option"

definition FirstSuccess_new :: "int \<Rightarrow> shared" where
  "FirstSuccess_new n = \<lparr>prom = None, done_flag = False, remaining = n, last_error = None\<rparr>"

datatype lookup_pc =
    Looking
  | Exchange string
  | Set_value string
  | Store_error cpp_exn
  | Decrement
  | Exchange_error
  | Read_error
  | Set_exception cpp_exn
  | Returned
  | Crashed

definition already_satisfied :: cpp_exn where
  "already_satisfied = Runtime_error ''std::future_error: Promise already satisfied''"

fun lookup_step :: "cpp_exn + string \<Rightarrow> shared \<Rightarrow> lookup_pc \<Rightarrow> shared \<times> lookup_pc" where
  "lookup_step oc s Looking = (s, case oc of Inr v \<Rightarrow> Exchange v | Inl e \<Rightarrow> Store_error e)"
| "lookup_step oc s (Exchange v) =
     (if done_flag s then (s, Returned) else (s\<lparr>done_flag := True\<rparr>, Set_value v))"
| "lookup_step oc s (Set_value v) =
     (if prom s = None then (s\<lparr>prom := Some (Inr v)\<rparr>, Returned) else (s, Store_error already_satisfied))"
| "lookup_step oc s (Store_error e) = (s\<lparr>last_error := Some e\<rparr>, Decrement)"
| "lookup_step oc s Decrement =
     (s\<lparr>remaining := remaining s - 1\<rparr>, if remaining s = 1 then Exchange_error else Returned)"
| "lookup_step oc s Exchange_error =
     (if done_flag s then (s, Returned) else (s\<lparr>done_flag := True\<rparr>, Read_error))"
| "lookup_step oc s Read_error =
     (s, Set_exception (case last_error s of Some e \<Rightarrow> e | None \<Rightarrow> Runtime_error ''all lookups failed''))"
| "lookup_step oc s (Set_exception e) =
     (if prom s = None then (s\<lparr>prom := Some (Inl e)\<rparr>, Returned) else (s, Crashed))"
| "lookup_step oc s Returned = (s, Returned)"
| "lookup_step oc s Crashed = (s, Crashed)"

text \<open>
  \<open>n\<close> lookups race; \<open>oc t\<close> is what the lookup of thread \<open>t\<close> returns or throws. Any thread
  that has not ended may be the next to act.
\<close>

definition ended :: "lookup_pc \<Rightarrow> bool" where
  "ended x \<longleftrightarrow> x = Returned \<or> x = Crashed"

type_synonym race = "shared \<times> (tid \<Rightarrow> lookup_pc)"

inductive race_step :: "nat \<Rightarrow> (tid \<Rightarrow> cpp_exn + string) \<Rightarrow> race \<Rightarrow> race \<Rightarrow> bool" for n oc where
  race_act: "t < n \<Longrightarrow> \<not> ended (th t) \<Longrightarrow> lookup_step (oc t) s (th t) = (s', x) \<Longrightarrow>
    race_step n oc (s, th) (s', th(t := x))"

inductive race_run :: "nat \<Rightarrow> (tid \<Rightarrow> cpp_exn + string) \<Rightarrow> race \<Rightarrow> nat \<Rightarrow> race \<Rightarrow> bool" for n oc where
  race_nil: "race_run n oc r 0 r"
| race_snoc: "race_run n oc r k r' \<Longrightarrow> race_step n oc r' r'' \<Longrightarrow> race_run n oc r (Suc k) r''"

definition race_init :: "nat \<Rightarrow> race" where
  "race_init n = (FirstSuccess_new (int n), \<lambda>_. Looking)"

section \<open>The invariant\<close>

fun settling :: "lookup_pc \<Rightarrow> bool" where
  "settling (Set_value v) = True"
| "settling Read_error = True"
| "settling (Set_exception e) = True"
| "settling x = False"

fun last_failure :: "lookup_pc \<Rightarrow> bool" where
  "last_failure Exchange_error = True"
| "last_failure Read_error = True"
| "last_failure (Set_exception e) = True"
| "last_failure x = False"

text \<open>A thread counts as outstanding until it has decremented \<^verbatim>\<open>remaining\<close>; a success never does.\<close>

definition outstanding :: "cpp_exn + string \<Rightarrow> lookup_pc \<Rightarrow> bool" where
  "outstanding oc x \<longleftrightarrow> isl oc \<longrightarrow> \<not> last_failure x \<and> \<not> ended x"

definition all_fail :: "nat \<Rightarrow> (tid \<Rightarrow> cpp_exn + string) \<Rightarrow> bool" where
  "all_fail n oc \<longleftrightarrow> (\<forall>t<n. isl (oc t))"

definition thrown :: "nat \<Rightarrow> (tid \<Rightarrow> cpp_exn + string) \<Rightarrow> cpp_exn set" where
  "thrown n oc = {e. \<exists>t<n. oc t = Inl e}"

fun pc_ok :: "nat \<Rightarrow> (tid \<Rightarrow> cpp_exn + string) \<Rightarrow> shared \<Rightarrow> cpp_exn + string \<Rightarrow> lookup_pc \<Rightarrow> bool" where
  "pc_ok n oc s o1 Looking = True"
| "pc_ok n oc s o1 (Exchange v) = (o1 = Inr v)"
| "pc_ok n oc s o1 (Set_value v) = (o1 = Inr v)"
| "pc_ok n oc s o1 (Store_error e) = (o1 = Inl e)"
| "pc_ok n oc s o1 Decrement = (isl o1 \<and> last_error s \<noteq> None)"
| "pc_ok n oc s o1 Exchange_error = (isl o1 \<and> all_fail n oc \<and> last_error s \<noteq> None)"
| "pc_ok n oc s o1 Read_error = (isl o1 \<and> all_fail n oc \<and> last_error s \<noteq> None)"
| "pc_ok n oc s o1 (Set_exception e) = (isl o1 \<and> all_fail n oc \<and> e \<in> thrown n oc)"
| "pc_ok n oc s o1 Returned = (\<not> isl o1 \<longrightarrow> done_flag s)"
| "pc_ok n oc s o1 Crashed = False"

definition race_inv :: "nat \<Rightarrow> (tid \<Rightarrow> cpp_exn + string) \<Rightarrow> race \<Rightarrow> bool" where
  "race_inv n oc r \<longleftrightarrow> (case r of (s, th) \<Rightarrow>
     (\<forall>t<n. pc_ok n oc s (oc t) (th t)) \<and>
     (\<forall>e. last_error s = Some e \<longrightarrow> e \<in> thrown n oc) \<and>
     remaining s = (\<Sum>t<n. of_bool (outstanding (oc t) (th t))) \<and>
     (\<Sum>t<n. of_bool (settling (th t))) + of_bool (prom s \<noteq> None) = (of_bool (done_flag s) :: int) \<and>
     (remaining s = 0 \<longrightarrow> n = 0 \<or> done_flag s \<or> (\<exists>t<n. th t = Exchange_error)) \<and>
     (\<forall>v. prom s = Some (Inr v) \<longrightarrow> (\<exists>t<n. oc t = Inr v)) \<and>
     (\<forall>e. prom s = Some (Inl e) \<longrightarrow> all_fail n oc \<and> e \<in> thrown n oc))"

lemma count_moves:
  fixes n :: nat
  assumes "t < n"
  shows "(\<Sum>u<n. of_bool (P u ((th(t := x)) u))) =
    (\<Sum>u<n. of_bool (P u (th u))) - of_bool (P t (th t)) + (of_bool (P t x) :: int)"
proof -
  have "(\<Sum>u<n. of_bool (P u ((th(t := x)) u))) + of_bool (P t (th t)) =
    (\<Sum>u<n. of_bool (P u (th u))) + (of_bool (P t ((th(t := x)) t)) :: int)"
    by (rule sum_one_moves) (use assms in auto)
  then show ?thesis by simp
qed

lemma count_ge: "(t::nat) < n \<Longrightarrow> P t (th t) \<Longrightarrow> 1 \<le> (\<Sum>u<n. of_bool (P u (th u)) :: int)"
  by (subst sum.remove [of _ t]) (auto intro: sum_nonneg)

lemma count_zeroD: "(\<Sum>u<(n::nat). of_bool (P u (th u)) :: int) = 0 \<Longrightarrow> t < n \<Longrightarrow> \<not> P t (th t)"
  using count_ge [of t n P th] by auto

text \<open>The \<^verbatim>\<open>fetch_sub\<close> that returns 1 is made by the last outstanding lookup.\<close>

lemma last_outstanding:
  assumes "(\<Sum>u<n. of_bool (outstanding (oc u) (th u)) :: int) = 1" and "t < n" and "th t = Decrement" and "isl (oc t)"
  shows "all_fail n oc"
proof -
  have "outstanding (oc t) (th t)" using assms(3) by (simp add: outstanding_def ended_def)
  with assms(1) have "(\<Sum>u<n. of_bool (outstanding (oc u) ((th(t := Returned)) u)) :: int) = 0"
    using assms(2,4) by (subst count_moves) (simp_all add: outstanding_def ended_def)
  then have "\<not> outstanding (oc u) ((th(t := Returned)) u)" if "u < n" for u
    using that count_zeroD [of "\<lambda>u x. outstanding (oc u) x" "th(t := Returned)" n u] by simp
  then show ?thesis by (auto simp: all_fail_def outstanding_def)
qed

lemma pc_ok_mono:
  "pc_ok n oc s o1 x \<Longrightarrow> (last_error s \<noteq> None \<longrightarrow> last_error s' \<noteq> None) \<Longrightarrow> (done_flag s \<longrightarrow> done_flag s') \<Longrightarrow>
   pc_ok n oc s' o1 x"
  by (cases x) auto

text \<open>
  The invariant in the form the cases of a step use: the sums over the threads after the
  step, and what the moved thread's new position has to satisfy.
\<close>

lemma race_inv_move:
  assumes inv: "race_inv n oc (s, th)" and t: "t < n" and x: "pc_ok n oc s' (oc t) x"
    and mono: "last_error s \<noteq> None \<longrightarrow> last_error s' \<noteq> None" "done_flag s \<longrightarrow> done_flag s'"
    and err: "last_error s' = last_error s \<or> (\<exists>e\<in>thrown n oc. last_error s' = Some e)"
    and rem: "remaining s' = remaining s - of_bool (outstanding (oc t) (th t)) + of_bool (outstanding (oc t) x)"
    and set: "of_bool (settling x) + of_bool (prom s' \<noteq> None) - of_bool (done_flag s') =
      of_bool (settling (th t)) + of_bool (prom s \<noteq> None) - (of_bool (done_flag s) :: int)"
    and last: "remaining s' = 0 \<longrightarrow> done_flag s' \<or> x = Exchange_error \<or> (remaining s = 0 \<and> th t \<noteq> Exchange_error)"
    and prom: "prom s' = prom s \<or> prom s' = Some (oc t) \<and> \<not> isl (oc t) \<or>
      (\<exists>e\<in>thrown n oc. prom s' = Some (Inl e) \<and> all_fail n oc)"
  shows "race_inv n oc (s', th(t := x))"
proof -
  note i = inv [unfolded race_inv_def prod.case]
  have "\<forall>u<n. pc_ok n oc s' (oc u) ((th(t := x)) u)"
    using i x mono pc_ok_mono by (metis fun_upd_apply)
  moreover have "\<forall>e. last_error s' = Some e \<longrightarrow> e \<in> thrown n oc"
    using i err by auto
  moreover have "remaining s' = (\<Sum>u<n. of_bool (outstanding (oc u) ((th(t := x)) u)))"
    using i rem count_moves [of t n "\<lambda>u. outstanding (oc u)" th x] t by linarith
  moreover have "(\<Sum>u<n. of_bool (settling ((th(t := x)) u))) + of_bool (prom s' \<noteq> None) =
      (of_bool (done_flag s') :: int)"
    using i set count_moves [of t n "\<lambda>_. settling" th x] t by linarith
  moreover have "remaining s' = 0 \<longrightarrow> n = 0 \<or> done_flag s' \<or> (\<exists>u<n. (th(t := x)) u = Exchange_error)"
    using i last t mono(2) by (metis fun_upd_apply)
  moreover have "\<forall>v. prom s' = Some (Inr v) \<longrightarrow> (\<exists>u<n. oc u = Inr v)"
    using i prom t by auto
  moreover have "\<forall>e. prom s' = Some (Inl e) \<longrightarrow> all_fail n oc \<and> e \<in> thrown n oc"
    using i prom by auto
  ultimately show ?thesis by (simp add: race_inv_def)
qed

lemma race_inv_step: "race_step n oc r r' \<Longrightarrow> race_inv n oc r \<Longrightarrow> race_inv n oc r'"
proof (induction rule: race_step.induct)
  case (race_act t th s s' x)
  note inv = race_act(4) [unfolded race_inv_def prod.case]
  from inv race_act(1) have pc: "pc_ok n oc s (oc t) (th t)" by blast
  have settled: "th t = Set_value v \<or> th t = Set_exception e \<or> th t = Read_error \<Longrightarrow> prom s = None \<and> done_flag s" for v e
    using inv count_ge [of t n "\<lambda>_. settling" th] race_act(1)
    by (cases "prom s = None"; cases "done_flag s") auto
  note m = race_inv_move [OF race_act(4,1)]
  show ?case
  proof (cases "th t")
    case Looking
    with race_act(3) pc show ?thesis
      by (cases "oc t") (intro m; auto simp: outstanding_def ended_def)+
  next
    case (Exchange v)
    with race_act(3) pc inv show ?thesis
      by (intro m) (auto simp: outstanding_def ended_def split: if_splits)
  next
    case (Set_value v)
    with race_act(3) pc settled show ?thesis
      by (intro m) (auto simp: outstanding_def ended_def split: if_splits)
  next
    case (Store_error e)
    with race_act(1,3) pc show ?thesis
      by (intro m) (auto simp: outstanding_def ended_def thrown_def)
  next
    case Decrement
    have "all_fail n oc" if "remaining s = 1"
      by (rule last_outstanding [of oc th n t]) (use inv that race_act(1) Decrement pc in auto)
    with Decrement race_act(3) pc show ?thesis
      by (intro m) (auto simp: outstanding_def ended_def split: if_splits)
  next
    case Exchange_error
    with race_act(3) pc show ?thesis
      by (intro m) (auto simp: outstanding_def ended_def split: if_splits)
  next
    case Read_error
    with race_act(3) pc inv settled show ?thesis
      by (intro m) (auto simp: outstanding_def ended_def)
  next
    case (Set_exception e)
    with race_act(3) pc settled show ?thesis
      by (intro m) (auto simp: outstanding_def ended_def split: if_splits)
  qed (use race_act(2) in \<open>simp_all add: ended_def\<close>)
qed

lemma race_inv_init: "race_inv n oc (race_init n)"
  by (simp add: race_inv_def race_init_def FirstSuccess_new_def outstanding_def ended_def)

lemma race_run_inv: "race_run n oc r k r' \<Longrightarrow> race_inv n oc r \<Longrightarrow> race_inv n oc r'"
  by (induction rule: race_run.induct) (auto intro: race_inv_step)

section \<open>Every run ends\<close>

fun rank :: "lookup_pc \<Rightarrow> nat" where
  "rank Looking = 8"
| "rank (Exchange v) = 7"
| "rank (Set_value v) = 6"
| "rank (Store_error e) = 5"
| "rank Decrement = 4"
| "rank Exchange_error = 3"
| "rank Read_error = 2"
| "rank (Set_exception e) = 1"
| "rank x = 0"

lemma lookup_step_rank: "lookup_step oc s x = (s', x') \<Longrightarrow> \<not> ended x \<Longrightarrow> rank x' < rank x"
  by (cases x) (auto simp: ended_def split: if_splits sum.splits)

lemma race_step_rank:
  "race_step n oc r r' \<Longrightarrow> (\<Sum>u<n. rank (snd r' u)) < (\<Sum>u<n. rank (snd r u))"
proof (induction rule: race_step.induct)
  case (race_act t th s s' x)
  have "(\<Sum>u<n. rank ((th(t := x)) u)) + rank (th t) = (\<Sum>u<n. rank (th u)) + rank ((th(t := x)) t)"
    by (rule sum_one_moves) (use race_act(1) in auto)
  with lookup_step_rank [OF race_act(3,2)] show ?case by simp
qed

lemma race_run_rank:
  "race_run n oc r k r' \<Longrightarrow> k + (\<Sum>u<n. rank (snd r' u)) \<le> (\<Sum>u<n. rank (snd r u))"
  by (induction rule: race_run.induct) (auto dest: race_step_rank)

lemma race_stuck: "\<nexists>r'. race_step n oc (s, th) r' \<Longrightarrow> t < n \<Longrightarrow> ended (th t)"
  by (metis race_act surj_pair)

lemma race_over:
  assumes inv: "race_inv n oc (s, th)" and "0 < n" and over: "\<And>t. t < n \<Longrightarrow> ended (th t)"
  shows "(\<forall>t<n. th t = Returned) \<and>
    ((\<exists>t<n. \<exists>v. oc t = Inr v \<and> prom s = Some (Inr v)) \<or>
     all_fail n oc \<and> (\<exists>e\<in>thrown n oc. prom s = Some (Inl e)))"
proof -
  note i = inv [unfolded race_inv_def prod.case]
  have ret: "th t = Returned" if "t < n" for t
    using over [OF that] i that by (cases "th t") (auto simp: ended_def)
  then have "(\<Sum>t<n. of_bool (settling (th t)) :: int) = 0" by simp
  moreover have "done_flag s"
  proof (cases "all_fail n oc")
    case True
    then have "\<not> outstanding (oc t) (th t)" if "t < n" for t
      using that ret by (simp add: all_fail_def outstanding_def ended_def)
    then have "remaining s = 0" using i by simp
    with i \<open>0 < n\<close> ret show ?thesis by auto
  next
    case False
    then obtain t where "t < n" and "\<not> isl (oc t)" by (auto simp: all_fail_def)
    moreover have "pc_ok n oc s (oc t) (th t)" using i calculation by blast
    ultimately show ?thesis using ret by simp
  qed
  ultimately have "prom s \<noteq> None" using i by auto
  then obtain r where r: "prom s = Some r" by blast
  from i ret r show ?thesis by (cases r) auto
qed

section \<open>The lookups and the demo\<close>

text \<open>
  The lookups of the example, and \<^verbatim>\<open>run_lookup_demo\<close>: the caller waits for at most 200 ms,
  so it sees the state of the promise at some point of the run, and reports a name, an error
  or the timeout.
\<close>

definition cache_lookup :: "int \<Rightarrow> cpp_exn + string" where
  "cache_lookup user_id =
     (if user_id = 42 then Inr ''Ada (cache)'' else Inl (Runtime_error ''cache miss''))"

definition db_lookup :: "int \<Rightarrow> cpp_exn + string" where
  "db_lookup user_id = Inr (if user_id = 42 then ''Ada (db)'' else ''unknown (db)'')"

definition demo_lookups :: "int \<Rightarrow> tid \<Rightarrow> cpp_exn + string" where
  "demo_lookups user_id t = (if t = 0 then cache_lookup user_id else db_lookup user_id)"

definition demo_report :: "int \<Rightarrow> (cpp_exn + string) option \<Rightarrow> string" where
  "demo_report user_id p = (case p of
     None \<Rightarrow> concat [''Timed out waiting for user lookup (user='', show_int user_id, '').'']
   | Some (Inr name) \<Rightarrow> concat [''User '', show_int user_id, '' name: '', name]
   | Some (Inl e) \<Rightarrow> concat [''User '', show_int user_id, '' lookup failed: '', what e])"

section \<open>The race settles the promise once\<close>

text \<open>The race always ends, within eight actions per lookup, and then every thread has
  returned and the promise holds the value of a successful lookup, or, exactly when every
  lookup has failed, an error that one of them threw.\<close>

lemma race_settles:
  assumes "race_run n oc (race_init n) k (s, th)" and "0 < n"
  shows "k \<le> 8 * n \<and> ((\<nexists>r. race_step n oc (s, th) r) \<longrightarrow> (\<forall>t<n. th t = Returned) \<and>
    ((\<exists>t<n. \<exists>v. oc t = Inr v \<and> prom s = Some (Inr v)) \<or>
     all_fail n oc \<and> (\<exists>e\<in>thrown n oc. prom s = Some (Inl e))))"
proof -
  have "race_inv n oc (s, th)" using assms(1) race_inv_init by (rule race_run_inv)
  moreover have "k \<le> 8 * n" using race_run_rank [OF assms(1)] by (simp add: race_init_def)
  ultimately show ?thesis using race_over assms(2) race_stuck by blast
qed

text \<open>The promise is fulfilled at most once, in every interleaving: what a reader of the
  future sees never changes, no thread dies of \<^verbatim>\<open>future_error\<close>, no lookup that succeeded is
  reported as a failure, and an error is only ever seen when no lookup can succeed.\<close>

lemma promise_fulfilled_once:
  assumes "race_run n oc (race_init n) k (s, th)" and "race_step n oc (s, th) (s', th')"
  shows "(prom s = None \<or> prom s' = prom s) \<and> (\<forall>t<n. th' t \<noteq> Crashed) \<and>
    (\<forall>t<n. \<forall>e. th' t = Store_error e \<longrightarrow> oc t = Inl e) \<and> (\<forall>e. prom s' = Some (Inl e) \<longrightarrow> all_fail n oc)"
proof -
  have inv: "race_inv n oc (s, th)" using assms(1) race_inv_init by (rule race_run_inv)
  have inv': "race_inv n oc (s', th')" using assms(2) inv by (rule race_inv_step)
  then have pc: "pc_ok n oc s' (oc t) (th' t)" if "t < n" for t
    using that by (auto simp: race_inv_def)
  have "prom s = None \<or> prom s' = prom s"
    using assms(2)
  proof cases
    case (race_act t x)
    with inv show ?thesis by (cases "th t") (auto split: if_splits)
  qed
  moreover have "th' t \<noteq> Crashed \<and> (\<forall>e. th' t = Store_error e \<longrightarrow> oc t = Inl e)" if "t < n" for t
    using pc [OF that] by (cases "th' t") auto
  ultimately show ?thesis using inv' by (auto simp: race_inv_def)
qed

text \<open>C11. The race settles the promise exactly once. It ends within eight actions per lookup,
  and then every thread has returned and the promise holds the value of a successful lookup,
  or, exactly when every lookup has failed, an error that one of them threw. On the way, in
  every interleaving, what a reader of the future sees never changes once it is there, no
  thread dies of \<^verbatim>\<open>future_error\<close>, no lookup that succeeded is recorded as a failure, and an error
  is only ever seen when no lookup can succeed.\<close>

theorem race_settles_once:
  assumes "race_run n oc (race_init n) k (s, th)" and "0 < n"
  shows "k \<le> 8 * n \<and>
    (\<forall>s' th'. race_step n oc (s, th) (s', th') \<longrightarrow> (prom s = None \<or> prom s' = prom s) \<and>
       (\<forall>t<n. th' t \<noteq> Crashed \<and> (\<forall>e. th' t = Store_error e \<longrightarrow> oc t = Inl e)) \<and>
       (\<forall>e. prom s' = Some (Inl e) \<longrightarrow> all_fail n oc)) \<and>
    ((\<nexists>r. race_step n oc (s, th) r) \<longrightarrow> (\<forall>t<n. th t = Returned) \<and>
       ((\<exists>t<n. \<exists>v. oc t = Inr v \<and> prom s = Some (Inr v)) \<or>
        all_fail n oc \<and> (\<exists>e\<in>thrown n oc. prom s = Some (Inl e))))"
  using race_settles [OF assms] promise_fulfilled_once [OF assms(1)] by blast

text \<open>What \<^verbatim>\<open>run_lookup_demo\<close> can print: a user other than 42 is never reported as failed,
  although the cache always misses; user 42 gets the cached name or the one of the database,
  and only these; a timeout is possible as long as the race is open.\<close>

lemma demo_report_inv:
  assumes "race_inv 2 (demo_lookups user_id) (s, th)"
  shows "demo_report user_id (prom s) \<in>
    {concat [''Timed out waiting for user lookup (user='', show_int user_id, '').'']} \<union>
    (\<lambda>name. concat [''User '', show_int user_id, '' name: '', name]) `
      (if user_id = 42 then {''Ada (cache)'', ''Ada (db)''} else {''unknown (db)''})"
proof (cases "prom s")
  case (Some r)
  have two: "t < 2 \<longleftrightarrow> t = 0 \<or> t = 1" for t :: nat by auto
  from Some assms show ?thesis
    by (cases r) (auto simp: race_inv_def all_fail_def two demo_lookups_def cache_lookup_def db_lookup_def
        demo_report_def split: if_splits)
qed (simp add: demo_report_def)

lemma demo_report_lines:
  assumes "race_run 2 (demo_lookups user_id) (race_init 2) k (s, th)"
  shows "demo_report user_id (prom s) \<in>
    {concat [''Timed out waiting for user lookup (user='', show_int user_id, '').'']} \<union>
    (\<lambda>name. concat [''User '', show_int user_id, '' name: '', name]) `
      (if user_id = 42 then {''Ada (cache)'', ''Ada (db)''} else {''unknown (db)''})"
  using race_run_inv [OF assms race_inv_init] by (rule demo_report_inv)

section \<open>Witnesses\<close>

text \<open>Both lookups for user 7 to the end, the failing one first.\<close>

fun race_schedule :: "nat \<Rightarrow> (tid \<Rightarrow> cpp_exn + string) \<Rightarrow> tid list \<Rightarrow> nat \<times> race \<Rightarrow> nat \<times> race" where
  "race_schedule n oc [] kr = kr"
| "race_schedule n oc (t # ts) (k, s, th) =
     (if t < n \<and> \<not> ended (th t)
      then (case lookup_step (oc t) s (th t) of (s', x) \<Rightarrow> race_schedule n oc ts (Suc k, s', th(t := x)))
      else race_schedule n oc ts (k, s, th))"

lemma race_schedule_sound:
  "race_schedule n oc ts (k, r) = (k', r') \<Longrightarrow> race_run n oc r0 k r \<Longrightarrow> race_run n oc r0 k' r'"
proof (induction ts arbitrary: k r)
  case (Cons t ts)
  obtain s th where r: "r = (s, th)" by (cases r)
  obtain s' x where st: "lookup_step (oc t) s (th t) = (s', x)" by (rule prod.exhaust)
  show ?case
  proof (cases "t < n \<and> \<not> ended (th t)")
    case True
    with st have "race_step n oc (s, th) (s', th(t := x))" by (blast intro: race_act)
    with Cons.prems r have "race_run n oc r0 (Suc k) (s', th(t := x))" by (blast intro: race_snoc)
    moreover have "race_schedule n oc ts (Suc k, s', th(t := x)) = (k', r')"
      using Cons.prems(1) r True st by simp
    ultimately show ?thesis by (intro Cons.IH)
  next
    case False
    with Cons r show ?thesis by auto
  qed
qed simp

definition race7 :: "nat \<times> race" where
  "race7 = race_schedule 2 (demo_lookups 7) [0, 0, 0, 1, 1, 1] (0, race_init 2)"

lemma race7_values:
  "case race7 of (k, s, th) \<Rightarrow>
     (k, prom s, remaining s, th 0, th 1) = (6, Some (Inr ''unknown (db)''), 1, Returned, Returned)"
  by code_simp

lemma race7_run: "race_run 2 (demo_lookups 7) (race_init 2) (fst race7) (fst (snd race7), snd (snd race7))"
  using race_schedule_sound [of 2 "demo_lookups 7" "[0, 0, 0, 1, 1, 1]" 0 "race_init 2" "fst race7" "snd race7"]
  by (simp add: race7_def race_nil)

lemma race_settles_example: "fst race7 \<le> 16 \<and> fst race7 = 6"
  using race_settles [OF race7_run] race7_values by (simp add: case_prod_beta)

lemma promise_fulfilled_once_example:
  "\<exists>s' th'. race_step 2 (demo_lookups 7) (race_init 2) (s', th') \<and> th' 0 = Store_error (Runtime_error ''cache miss'') \<and>
     th' 0 \<noteq> Crashed"
proof -
  let ?th = "(\<lambda>_. Looking)(0 := Store_error (Runtime_error ''cache miss''))"
  have "lookup_step (demo_lookups 7 0) (FirstSuccess_new 2) Looking =
    (FirstSuccess_new 2, Store_error (Runtime_error ''cache miss''))"
    by (simp add: demo_lookups_def cache_lookup_def)
  then have st: "race_step 2 (demo_lookups 7) (FirstSuccess_new 2, \<lambda>_. Looking) (FirstSuccess_new 2, ?th)"
    using race_act [of 0 2 "\<lambda>_. Looking" "demo_lookups 7" "FirstSuccess_new 2"] by (simp add: ended_def)
  have "race_run 2 (demo_lookups 7) (race_init 2) 0 (FirstSuccess_new 2, \<lambda>_. Looking)"
    using race_nil [of 2 "demo_lookups 7" "race_init 2"] by (simp add: race_init_def)
  from promise_fulfilled_once [OF this st] have "?th 0 \<noteq> Crashed" by simp
  with st show ?thesis
    by (intro exI [of _ "FirstSuccess_new 2"] exI [of _ ?th]) (simp add: race_init_def)
qed

theorem race_settles_once_witness:
  "fst race7 \<le> 16 \<and> (\<exists>s' th'. race_step 2 (demo_lookups 7) (race_init 2) (s', th') \<and>
     th' 0 = Store_error (Runtime_error ''cache miss'') \<and> th' 0 \<noteq> Crashed)"
proof
  show "fst race7 \<le> 16" using race_settles_once [OF race7_run] by simp
  obtain s' th' where st: "race_step 2 (demo_lookups 7) (race_init 2) (s', th')"
    and th: "th' 0 = Store_error (Runtime_error ''cache miss'')"
    using promise_fulfilled_once_example by blast
  have "race_run 2 (demo_lookups 7) (race_init 2) 0 (FirstSuccess_new (int 2), \<lambda>_. Looking)"
    using race_nil by (simp add: race_init_def)
  from race_settles_once [OF this] st have "th' 0 \<noteq> Crashed" by (simp add: race_init_def)
  with st th show "\<exists>s' th'. race_step 2 (demo_lookups 7) (race_init 2) (s', th') \<and>
     th' 0 = Store_error (Runtime_error ''cache miss'') \<and> th' 0 \<noteq> Crashed" by blast
qed

lemma demo_report_lines_witness: "demo_report 7 (prom (fst (snd race7))) = ''User 7 name: unknown (db)''"
proof -
  have "show_int 7 = ''7''" by code_simp
  moreover have "prom (fst (snd race7)) = Some (Inr ''unknown (db)'')"
    using race7_values by (simp add: case_prod_beta)
  ultimately show ?thesis
    using demo_report_lines [OF race7_run] by (simp add: demo_report_def)
qed

end
