(* ===== verification/FuturesProgram.thy ===== *)
theory FuturesProgram
  imports FuturesPromises
begin

text \<open>
  The whole program of \<^verbatim>\<open>examples/futures_promises/main.cpp\<close>: \<^verbatim>\<open>main\<close> runs \<^verbatim>\<open>run_lookup_demo\<close> for
  one user after the other; each spawns two lookup threads, waits for the future, reports and
  joins the threads. An \<open>action\<close> says who acts next, and \<open>program_step\<close> is its step, \<open>None\<close> when
  that one cannot move: a join waits for its thread, and an exception that leaves a thread
  ends the program. The wait is over when the future is ready or when the time has passed,
  which may be at any moment, so \<open>demo_report\<close> reads the promise as it is then.

  Proved: for any users and in every interleaving the program ends, no thread leaves an
  exception behind, and the console holds one line per user, in their order, of the right kind.
\<close>

datatype main_pc = Spawn1 | Spawn2 | Waiting | Join1 | Join2 | Finished

text \<open>\<open>todo\<close> are the users left, the current one first.\<close>

record program =
  todo :: "int list"
  main_pc :: main_pc
  race :: race
  cout :: console

definition start_demo :: "int list \<Rightarrow> console \<Rightarrow> program" where
  "start_demo us con = \<lparr>todo = us, main_pc = (if us = [] then Finished else Spawn1), race = race_init 2, cout = con\<rparr>"

definition program_init :: "int list \<Rightarrow> program" where
  "program_init us = start_demo us (log_line [''Futures/promises example: race cache vs db.''] [])"

definition aborted :: "program \<Rightarrow> bool" where
  "aborted p \<longleftrightarrow> snd (race p) 0 = Crashed \<or> snd (race p) 1 = Crashed"

text \<open>The lookup threads that have been spawned.\<close>

fun spawned :: "main_pc \<Rightarrow> nat" where
  "spawned Spawn1 = 0"
| "spawned Spawn2 = 1"
| "spawned Finished = 0"
| "spawned _ = 2"

fun main_action :: "program \<Rightarrow> program option" where
  "main_action p = (case main_pc p of
     Spawn1 \<Rightarrow> Some (p\<lparr>main_pc := Spawn2\<rparr>)
   | Spawn2 \<Rightarrow> Some (p\<lparr>main_pc := Waiting\<rparr>)
   | Waiting \<Rightarrow> Some (p\<lparr>main_pc := Join1,
       cout := log_line [demo_report (hd (todo p)) (prom (fst (race p)))] (cout p)\<rparr>)
   | Join1 \<Rightarrow> if ended (snd (race p) 0) then Some (p\<lparr>main_pc := Join2\<rparr>) else None
   | Join2 \<Rightarrow> if ended (snd (race p) 1) then Some (start_demo (tl (todo p)) (cout p)) else None
   | Finished \<Rightarrow> None)"

definition lookup_action :: "tid \<Rightarrow> program \<Rightarrow> program option" where
  "lookup_action t p = (case race p of (s, th) \<Rightarrow>
     if t < spawned (main_pc p) \<and> \<not> ended (th t)
     then (case lookup_step (demo_lookups (hd (todo p)) t) s (th t) of (s', x) \<Rightarrow> Some (p\<lparr>race := (s', th(t := x))\<rparr>))
     else None)"

datatype action = Main | Lookup tid

fun program_step :: "action \<Rightarrow> program \<Rightarrow> program option" where
  "program_step Main p = (if aborted p then None else main_action p)"
| "program_step (Lookup t) p = (if aborted p then None else lookup_action t p)"

fun program_run :: "action list \<Rightarrow> program \<Rightarrow> program option" where
  "program_run [] p = Some p"
| "program_run (a # as) p = Option.bind (program_step a p) (program_run as)"

section \<open>The invariant\<close>

definition right_line :: "int \<Rightarrow> string \<Rightarrow> bool" where
  "right_line u l \<longleftrightarrow> l = concat [''Timed out waiting for user lookup (user='', show_int u, '').''] \<or>
     (\<exists>name. l = concat [''User '', show_int u, '' name: '', name] \<and>
       (if u = 42 then name = ''Ada (cache)'' \<or> name = ''Ada (db)'' else name = ''unknown (db)''))"

lemma demo_report_right: "race_inv 2 (demo_lookups u) (s, th) \<Longrightarrow> right_line u (demo_report u (prom s))"
  using demo_report_inv [of u s th] by (auto simp: right_line_def split: if_splits)

text \<open>The users already reported: those before \<open>todo\<close>, and the current one from the report on.\<close>

definition reported :: "int list \<Rightarrow> program \<Rightarrow> int list" where
  "reported us p = take (length us - length (todo p) + (if main_pc p \<in> {Join1, Join2} then 1 else 0)) us"

definition program_inv :: "int list \<Rightarrow> program \<Rightarrow> bool" where
  "program_inv us p \<longleftrightarrow> (\<exists>finished. us = finished @ todo p) \<and> (main_pc p = Finished \<longleftrightarrow> todo p = []) \<and>
     race_inv 2 (demo_lookups (hd (todo p))) (race p) \<and>
     (main_pc p = Join2 \<longrightarrow> ended (snd (race p) 0)) \<and>
     (\<exists>ls. cout p = ''Futures/promises example: race cache vs db.'' # ls \<and> list_all2 right_line (reported us p) ls)"

lemma program_inv_init: "program_inv us (program_init us)"
  by (simp add: program_inv_def program_init_def start_demo_def reported_def race_inv_init log_line_def)

lemma main_action_inv:
  assumes inv: "program_inv us p" and step: "main_action p = Some p'"
  shows "program_inv us p'"
proof -
  from inv obtain finished ls where i: "us = finished @ todo p" "main_pc p = Finished \<longleftrightarrow> todo p = []"
      "race_inv 2 (demo_lookups (hd (todo p))) (race p)"
      "cout p = ''Futures/promises example: race cache vs db.'' # ls" "list_all2 right_line (reported us p) ls"
    by (auto simp: program_inv_def)
  from step i(2) obtain u rest where u: "todo p = u # rest"
    by (cases "todo p") auto
  show ?thesis
  proof (cases "main_pc p")
    case Waiting
    obtain s th where r: "race p = (s, th)" by (cases "race p")
    have "right_line u (demo_report u (prom s))"
      using i(3) u r by (intro demo_report_right) simp
    with step Waiting i u r show ?thesis
      by (auto simp: program_inv_def reported_def log_line_def intro: list_all2_appendI)
  next
    case Join2
    with step u have p': "p' = start_demo rest (cout p)" by (auto split: if_splits)
    have "reported us p' = reported us p"
      using Join2 u i(1) by (simp add: reported_def p' start_demo_def)
    with i show ?thesis
      by (auto simp: program_inv_def p' start_demo_def race_inv_init u)
  qed (use step i u inv in \<open>auto simp: program_inv_def reported_def split: if_splits\<close>)
qed

lemma lookup_action_race:
  assumes "lookup_action t p = Some p'"
  shows "race_step 2 (demo_lookups (hd (todo p))) (race p) (race p') \<and> p' = p\<lparr>race := race p'\<rparr> \<and>
    t < spawned (main_pc p) \<and> \<not> ended (snd (race p) t) \<and> (\<forall>u. u \<noteq> t \<longrightarrow> snd (race p') u = snd (race p) u)"
proof -
  obtain s th where r: "race p = (s, th)" by (cases "race p")
  have "t < 2" if "t < spawned (main_pc p)" using that by (cases "main_pc p") simp_all
  with assms r show ?thesis
    by (auto simp: lookup_action_def split: if_splits prod.splits intro!: race_act)
qed

lemma lookup_action_inv:
  assumes "program_inv us p" and "lookup_action t p = Some p'"
  shows "program_inv us p'"
proof -
  note r = lookup_action_race [OF assms(2)]
  obtain q where q: "p' = p\<lparr>race := q\<rparr>" using r by blast
  have "race_inv 2 (demo_lookups (hd (todo p))) q"
    by (rule race_inv_step [of _ _ "race p"]) (use r assms(1) q in \<open>auto simp: program_inv_def\<close>)
  moreover have "ended (snd q 0)" if "ended (snd (race p) 0)"
    using r that q by (cases "t = 0") auto
  ultimately show ?thesis
    using assms(1) by (auto simp: program_inv_def q reported_def)
qed

lemma program_step_inv: "program_inv us p \<Longrightarrow> program_step a p = Some p' \<Longrightarrow> program_inv us p'"
  by (cases a) (auto simp del: main_action.simps intro: main_action_inv lookup_action_inv split: if_splits)

lemma not_aborted: "program_inv us p \<Longrightarrow> \<not> aborted p"
proof -
  assume "program_inv us p"
  then have "race_inv 2 (demo_lookups (hd (todo p))) (race p)" by (simp add: program_inv_def)
  then have "pc_ok 2 oc (fst (race p)) (demo_lookups (hd (todo p)) t) (snd (race p) t)" if "t < 2" "oc = demo_lookups (hd (todo p))" for t oc
    using that by (auto simp: race_inv_def split: prod.splits)
  from this [of 0] this [of 1] show ?thesis by (auto simp: aborted_def)
qed

section \<open>It ends\<close>

fun pc_rank :: "main_pc \<Rightarrow> nat" where
  "pc_rank Spawn1 = 5"
| "pc_rank Spawn2 = 4"
| "pc_rank Waiting = 3"
| "pc_rank Join1 = 2"
| "pc_rank Join2 = 1"
| "pc_rank Finished = 0"

text \<open>21 actions for each user: the race has at most 16 and \<^verbatim>\<open>run_lookup_demo\<close> five.\<close>

definition program_rank :: "program \<Rightarrow> nat" where
  "program_rank p = (if todo p = [] then 0
     else pc_rank (main_pc p) + rank (snd (race p) 0) + rank (snd (race p) 1) + 21 * (length (todo p) - 1))"

lemma start_demo_rank: "program_rank (start_demo us con) = 21 * length us"
  by (cases us) (simp_all add: program_rank_def start_demo_def race_init_def)

lemma sum_two: "(\<Sum>u<2. f u) = f 0 + (f 1 :: nat)" for f :: "nat \<Rightarrow> nat"
  by (simp add: numeral_2_eq_2)

lemma program_step_rank:
  assumes "program_inv us p" and "program_step a p = Some p'"
  shows "program_rank p' < program_rank p"
proof (cases a)
  case Main
  then have m: "main_action p = Some p'" using assms(2) by (auto split: if_splits)
  with assms(1) obtain u rest where u: "todo p = u # rest"
    by (cases "todo p") (auto simp: program_inv_def)
  show ?thesis
  proof (cases "main_pc p = Join2")
    case True
    with m u have "p' = start_demo rest (cout p)" by (auto split: if_splits)
    with True u show ?thesis by (simp add: start_demo_rank) (simp add: program_rank_def)
  next
    case False
    with m u show ?thesis by (cases "main_pc p") (auto simp: program_rank_def split: if_splits)
  qed
next
  case (Lookup t)
  then have l: "lookup_action t p = Some p'" using assms(2) by (auto split: if_splits)
  note r = lookup_action_race [OF l]
  then have "todo p \<noteq> []" using assms(1) by (auto simp: program_inv_def)
  moreover obtain q where q: "p' = p\<lparr>race := q\<rparr>" using r by blast
  ultimately show ?thesis
    using race_step_rank [of 2 "demo_lookups (hd (todo p))" "race p" q] r by (simp add: program_rank_def sum_two)
qed

lemma program_run_sound:
  "program_run as p = Some p' \<Longrightarrow> program_inv us p \<Longrightarrow> program_inv us p' \<and> length as + program_rank p' \<le> program_rank p"
proof (induction as arbitrary: p)
  case (Cons a as)
  then obtain p1 where 1: "program_step a p = Some p1" "program_run as p1 = Some p'"
    by (auto simp: Option.bind_eq_Some_conv)
  from Cons.IH [OF 1(2) program_step_inv [OF Cons.prems(2) 1(1)]] program_step_rank [OF Cons.prems(2) 1(1)]
  show ?case by simp
qed simp

text \<open>As long as it has not finished someone can act.\<close>

lemma program_progress:
  assumes inv: "program_inv us p" and stuck: "\<forall>a. program_step a p = None"
  shows "main_pc p = Finished"
proof -
  have m: "main_action p = None" and l: "lookup_action t p = None" for t
    using stuck [rule_format, of Main] stuck [rule_format, of "Lookup t"] not_aborted [OF inv]
    by (auto simp del: main_action.simps)
  have e: "ended (snd (race p) t)" if "t < spawned (main_pc p)" for t
    using l [of t] that by (auto simp: lookup_action_def split: prod.splits if_splits)
  show ?thesis
    using m e [of 0] e [of 1] by (cases "main_pc p") simp_all
qed

section \<open>The property\<close>

text \<open>C12. For any users and any schedule of \<^verbatim>\<open>main\<close> and the lookup threads: the program takes at
  most 21 actions for each user, no exception leaves a thread, and when no one can act any more
  \<^verbatim>\<open>main\<close> has returned and the console holds, after the heading, exactly one line for each user
  in their order. The line of a user is the timeout or a name, never a failure although the
  cache misses all users but 42: the name of the database, or for user 42 the name from the
  cache or the database.\<close>

theorem futures_program_reports:
  assumes "program_run as (program_init us) = Some p"
  shows "length as \<le> 21 * length us \<and> \<not> aborted p \<and> ((\<forall>a. program_step a p = None) \<longrightarrow> main_pc p = Finished \<and>
    (\<exists>ls. cout p = ''Futures/promises example: race cache vs db.'' # ls \<and> list_all2 right_line us ls))"
proof -
  from program_run_sound [OF assms program_inv_init]
  have inv: "program_inv us p" and "length as \<le> 21 * length us"
    by (simp_all add: program_init_def start_demo_rank)
  moreover have "\<exists>ls. cout p = ''Futures/promises example: race cache vs db.'' # ls \<and> list_all2 right_line us ls"
    if "main_pc p = Finished"
    using inv that by (auto simp: program_inv_def reported_def)
  ultimately show ?thesis using program_progress [OF inv] not_aborted [OF inv] by blast
qed

text \<open>The example's \<^verbatim>\<open>main\<close>: user 42 with the cache first, user 7 with the cache miss first, where
  the answer of the database is seen.\<close>

definition demo_actions :: "action list" where
  "demo_actions =
     [Main, Main, Lookup 0, Lookup 0, Lookup 0, Main, Main, Lookup 1, Lookup 1, Main] @
     [Main, Lookup 0, Main, Lookup 0, Lookup 0, Lookup 1, Lookup 1, Lookup 1, Main, Main, Main]"

theorem futures_program_reports_witness:
  "\<exists>p. program_run demo_actions (program_init [42, 7]) = Some p \<and> main_pc p = Finished \<and>
     length demo_actions \<le> 42 \<and> \<not> aborted p \<and>
     cout p = [''Futures/promises example: race cache vs db.'', ''User 42 name: Ada (cache)'', ''User 7 name: unknown (db)'']"
proof -
  have vals: "case program_run demo_actions (program_init [42, 7]) of None \<Rightarrow> False | Some p \<Rightarrow> main_pc p = Finished \<and>
     cout p = [''Futures/promises example: race cache vs db.'', ''User 42 name: Ada (cache)'', ''User 7 name: unknown (db)'']"
    by code_simp
  then obtain p where p: "program_run demo_actions (program_init [42, 7]) = Some p"
    by (auto split: option.splits)
  from futures_program_reports [OF this] vals p show ?thesis by simp
qed

end
