(* ===== verification/Ownership.thy ===== *)
theory Ownership
  imports Main "HOL-Library.Multiset"
begin

text \<open>
  Exclusive ownership, for the move-only classes of the examples: \<^verbatim>\<open>UniqueFd\<close> of
  \<^verbatim>\<open>examples/reactor\<close>, \<^verbatim>\<open>FileHandle\<close> of \<^verbatim>\<open>examples/raii\<close> and \<^verbatim>\<open>DatabaseService\<close> of
  \<^verbatim>\<open>examples/pimpl\<close>. A class is given by its special members over a world in which
  resources are released; the locale \<open>exclusive_owner\<close> states what they promise, and shows that
  the resources owned and those released are conserved by any sequence of them.
\<close>

section \<open>Special members\<close>

text \<open>The moves return the target and what is left in the source. \<open>moved_from\<close> is what a move
  leaves.\<close>

record ('v, 'w) move_only =
  moved_from :: 'v
  move_construct :: "'v \<Rightarrow> 'v \<times> 'v"
  move_assign :: "'v \<Rightarrow> 'v \<Rightarrow> 'w \<Rightarrow> ('v \<times> 'v) \<times> 'w"
  self_assign :: "'v \<Rightarrow> 'w \<Rightarrow> 'v \<times> 'w"
  destroy :: "'v \<Rightarrow> 'w \<Rightarrow> 'w"

text \<open>
  The variables of a program, as a list, under any sequence of operations: a new variable built by
  moving one, an assignment by moving, a destructor, after which the variable owns nothing. A
  variable that does not exist is not touched.
\<close>

datatype owner_op = Move_new nat | Move_to nat nat | Destroy nat

fun owner_step :: "('v, 'w) move_only \<Rightarrow> owner_op \<Rightarrow> 'v list \<times> 'w \<Rightarrow> 'v list \<times> 'w" where
  "owner_step C (Move_new i) (vs, w) =
     (if i < length vs then (let (v, src) = move_construct C (vs ! i) in (vs[i := src] @ [v], w)) else (vs, w))"
| "owner_step C (Move_to i j) (vs, w) =
     (if i < length vs \<and> j < length vs then
        if i = j then (let (v, w') = self_assign C (vs ! i) w in (vs[i := v], w'))
        else (let ((v, src), w') = move_assign C (vs ! i) (vs ! j) w in (vs[i := v, j := src], w'))
      else (vs, w))"
| "owner_step C (Destroy i) (vs, w) =
     (if i < length vs then (vs[i := moved_from C], destroy C (vs ! i) w) else (vs, w))"

text \<open>The end of the program: every variable is destroyed.\<close>

definition destroy_all :: "('v, 'w) move_only \<Rightarrow> 'v list \<times> 'w \<Rightarrow> 'w" where
  "destroy_all C vw = fold (destroy C) (fst vw) (snd vw)"

section \<open>Conservation\<close>

lemma mset_concat_update:
  "i < length vs \<Longrightarrow>
   mset (concat (map f (vs[i := v]))) + mset (f (vs ! i)) = mset (concat (map f vs)) + mset (f v)"
proof (induction vs arbitrary: i)
  case (Cons u vs)
  then show ?case by (cases i) (auto simp: ac_simps)
qed simp

lemma conserved_by_moves:
  fixes h :: "'a multiset"
  assumes "x + a = h + p" and "y + p = x"
  shows "y + a = h"
proof -
  have "(y + a) + p = h + p" using assms by (simp add: ac_simps)
  then show ?thesis by (rule add_right_imp_eq)
qed

text \<open>The resources of a program: those its variables hold and those released so far.\<close>

definition resources :: "('v \<Rightarrow> 'r list) \<Rightarrow> ('w \<Rightarrow> 'r list) \<Rightarrow> 'v list \<times> 'w \<Rightarrow> 'r multiset" where
  "resources held released vw = mset (concat (map held (fst vw))) + mset (released (snd vw))"

locale exclusive_owner =
  fixes C :: "('v, 'w) move_only" and held :: "'v \<Rightarrow> 'r list" and released :: "'w \<Rightarrow> 'r list"
  assumes moved_owns_nothing: "held (moved_from C) = []"
    and move_transfers: "move_construct C v = (v, moved_from C)"
    and assign_transfers: "move_assign C v u w = ((u, moved_from C), destroy C v w)"
    and self_assign_keeps: "self_assign C v w = (v, w)"
    and destroy_releases: "released (destroy C v w) = released w @ held v"
begin

lemma step_conserves: "resources held released (owner_step C op vw) = resources held released vw"
proof (cases op; cases vw)
  fix i vs w assume [simp]: "op = Move_new i" "vw = (vs, w)"
  show ?thesis
    using mset_concat_update [of i vs held "moved_from C"]
    by (cases "i < length vs") (simp_all add: resources_def move_transfers moved_owns_nothing ac_simps)
next
  fix i vs w assume [simp]: "op = Destroy i" "vw = (vs, w)"
  show ?thesis
    using mset_concat_update [of i vs held "moved_from C"]
    by (cases "i < length vs") (simp_all add: resources_def destroy_releases moved_owns_nothing ac_simps)
next
  fix i j vs w assume op [simp]: "op = Move_to i j" "vw = (vs, w)"
  show ?thesis
  proof (cases "i < length vs \<and> j < length vs \<and> i \<noteq> j")
    case True
    let ?m = "\<lambda>vs. mset (concat (map held vs))"
    have "?m (vs[i := vs ! j]) + mset (held (vs ! i)) = ?m vs + mset (held (vs ! j))"
      and "?m (vs[i := vs ! j, j := moved_from C]) + mset (held (vs ! j)) = ?m (vs[i := vs ! j])"
      using True mset_concat_update [of i vs held "vs ! j"]
        mset_concat_update [of j "vs[i := vs ! j]" held "moved_from C"] by (simp_all add: moved_owns_nothing)
    then have "?m (vs[i := vs ! j, j := moved_from C]) + mset (held (vs ! i)) = ?m vs"
      by (rule conserved_by_moves)
    with True show ?thesis
      by (simp add: resources_def assign_transfers destroy_releases ac_simps)
  qed (auto simp: self_assign_keeps)
qed

lemma run_conserves: "resources held released (fold (owner_step C) ops vw) = resources held released vw"
  by (induction ops arbitrary: vw) (simp_all add: step_conserves)

text \<open>What every release keeps, every operation keeps.\<close>

lemma step_invariant: "P w \<Longrightarrow> (\<And>v w. P w \<Longrightarrow> P (destroy C v w)) \<Longrightarrow> P (snd (owner_step C op (vs, w)))"
  by (cases op) (auto simp: move_transfers assign_transfers self_assign_keeps)

lemma run_invariant:
  "P w \<Longrightarrow> (\<And>v w. P w \<Longrightarrow> P (destroy C v w)) \<Longrightarrow> P (snd (fold (owner_step C) ops (vs, w)))"
proof (induction ops arbitrary: vs w)
  case (Cons op ops)
  obtain vs' w' where st: "owner_step C op (vs, w) = (vs', w')" by (rule prod.exhaust)
  have "P w'" using step_invariant [OF Cons.prems, of op vs] by (simp add: st)
  from Cons.IH [OF this Cons.prems(2)] show ?case by (simp add: st)
qed simp

lemma end_invariant: "P w \<Longrightarrow> (\<And>v w. P w \<Longrightarrow> P (destroy C v w)) \<Longrightarrow> P (destroy_all C (vs, w))"
proof (induction vs arbitrary: w)
  case (Cons v vs)
  from Cons.IH [OF Cons.prems(2) [OF Cons.prems(1), of v] Cons.prems(2)] show ?case
    by (simp add: destroy_all_def)
qed (simp add: destroy_all_def)

text \<open>Releases only add up.\<close>

lemma run_releases: "\<exists>cs. released (snd (fold (owner_step C) ops (vs, w))) = released w @ cs"
  by (rule run_invariant) (auto simp: destroy_releases)

text \<open>At the end what was owned or released has been released.\<close>

lemma end_releases: "released (destroy_all C vw) = released (snd vw) @ concat (map held (fst vw))"
proof -
  have "released (fold (destroy C) vs w) = released w @ concat (map held vs)" for vs w
    by (induction vs arbitrary: w) (simp_all add: destroy_releases)
  then show ?thesis by (simp add: destroy_all_def)
qed

lemma end_total: "mset (released (destroy_all C vw)) = resources held released vw"
  by (simp add: end_releases resources_def ac_simps)

end

end
