(* ===== verification/Reactor.thy ===== *)
theory Reactor
  imports Prelude Ownership "HOL-Library.Word" "HOL-Library.Monad_Syntax"
begin

unbundle bit_operations_syntax

text \<open>
  The event loop of \<^verbatim>\<open>examples/reactor/main.cpp\<close>.

  The operating system is an environment: \<^verbatim>\<open>write\<close> is a parameter with its documented
  contract (locale \<open>byte_sink\<close>), the read end of a pipe is the sequence of bytes its writer
  will ever send with what follows them (\<open>stream\<close>: end of file, or a failing \<^verbatim>\<open>read\<close> with its
  error text), and \<^verbatim>\<open>poll\<close> is the list of its results, one per turn of the loop. A blocking
  \<^verbatim>\<open>read\<close> waits for its next byte, so only the order of the bytes matters.

  \<open>UniqueFd\<close> is modelled over a table of open descriptors that records every \<^verbatim>\<open>close\<close>;
  \<open>drain_one_message\<close>, \<open>describe_revents\<close>, \<open>dispatch\<close> and \<open>reactor_loop\<close> are the functions of
  the reactor. Proved, for any bytes and with \<^verbatim>\<open>poll\<close> and \<^verbatim>\<open>read\<close> failing at any point: what the
  handlers print is what the pipes hold, cut at line breaks, in order and once, whatever the
  interleaving of readiness; the loop's counter is the number of live watchers, the handler map
  never misses, and the loop throws only after a call that failed. When the calls do not fail and
  the payloads have no line break, the loop ends, and the program closes each read end twice.
  \<open>UniqueFd\<close> closes what it owns once, as long as no descriptor is handed to two owners.
\<close>

section \<open>UniqueFd\<close>

text \<open>
  \<open>open_fds\<close> are the descriptors of the process that are open, \<open>closes\<close> the \<^verbatim>\<open>close\<close> calls so
  far, oldest first. An owner is the \<^verbatim>\<open>fd_\<close> member, -1 when it owns nothing. A move returns
  the new owner and what is left in the old one.
\<close>

record kernel =
  open_fds :: "int set"
  closes :: "int list"

definition sys_close :: "int \<Rightarrow> kernel \<Rightarrow> kernel" where
  "sys_close fd k = k\<lparr>open_fds := open_fds k - {fd}, closes := closes k @ [fd]\<rparr>"

definition fd_reset :: "int \<Rightarrow> int \<Rightarrow> kernel \<Rightarrow> int \<times> kernel" where
  "fd_reset new_fd fd k = (new_fd, if fd \<noteq> - 1 then sys_close fd k else k)"

definition fd_move :: "int \<Rightarrow> int \<times> int" where
  "fd_move other = (other, - 1)"

text \<open>Assignment from another object, and from the object itself.\<close>

definition fd_move_assign :: "int \<Rightarrow> int \<Rightarrow> kernel \<Rightarrow> (int \<times> int) \<times> kernel" where
  "fd_move_assign fd other k = (case fd_reset (- 1) fd k of (_, k') \<Rightarrow> ((other, - 1), k'))"

definition fd_self_assign :: "int \<Rightarrow> kernel \<Rightarrow> int \<times> kernel" where
  "fd_self_assign fd k = (fd, k)"

definition fd_destroy :: "int \<Rightarrow> kernel \<Rightarrow> kernel" where
  "fd_destroy fd k = snd (fd_reset (- 1) fd k)"

definition make_pipe :: "(int \<times> int) option \<Rightarrow> string \<Rightarrow> kernel \<Rightarrow> cpp_exn + ((int \<times> int) \<times> kernel)" where
  "make_pipe result err k = (case result of
     None \<Rightarrow> Inl (Runtime_error (''pipe failed: '' @ err))
   | Some (r, w) \<Rightarrow> Inr ((r, w), k\<lparr>open_fds := open_fds k \<union> {r, w}\<rparr>))"

text \<open>
  The class as an instance of \<open>Ownership\<close>; \<open>owns_ok\<close>: what the owners of a program own is open
  and has one owner.
\<close>

definition UniqueFd :: "(int, kernel) move_only" where
  "UniqueFd = \<lparr>moved_from = - 1, move_construct = fd_move, move_assign = fd_move_assign,
     self_assign = fd_self_assign, destroy = fd_destroy\<rparr>"

definition fd_held :: "int \<Rightarrow> int list" where
  "fd_held fd = (if fd = - 1 then [] else [fd])"

interpretation fds: exclusive_owner UniqueFd fd_held closes
  by unfold_locales (simp_all add: UniqueFd_def fd_held_def fd_move_def fd_move_assign_def fd_self_assign_def
      fd_destroy_def fd_reset_def sys_close_def)

definition owned :: "int list \<Rightarrow> int list" where
  "owned fds = concat (map fd_held fds)"

definition owns_ok :: "int list \<Rightarrow> kernel \<Rightarrow> bool" where
  "owns_ok fds k \<longleftrightarrow> distinct (owned fds) \<and> set (owned fds) \<subseteq> open_fds k"

lemma closed_fds_step:
  "\<exists>cs. closes w = closes k @ cs \<and> open_fds w = open_fds k - set cs \<Longrightarrow>
   \<exists>cs. closes (destroy UniqueFd v w) = closes k @ cs \<and> open_fds (destroy UniqueFd v w) = open_fds k - set cs"
  by (force simp: UniqueFd_def fd_destroy_def fd_reset_def sys_close_def)

lemma fd_ops_sound:
  assumes "fold (owner_step UniqueFd) ops (fds, k) = (fds', k')" and "owns_ok fds k"
  shows "owns_ok fds' k' \<and> (\<exists>cs. closes k' = closes k @ cs \<and> open_fds k' = open_fds k - set cs \<and>
    distinct (cs @ owned fds') \<and> set (cs @ owned fds') = set (owned fds))"
proof -
  have "\<exists>cs. closes (snd (fold (owner_step UniqueFd) ops (fds, k))) = closes k @ cs \<and>
      open_fds (snd (fold (owner_step UniqueFd) ops (fds, k))) = open_fds k - set cs"
  proof (rule fds.run_invariant [where P = "\<lambda>w. \<exists>cs. closes w = closes k @ cs \<and> open_fds w = open_fds k - set cs"])
    show "\<exists>cs. closes k = closes k @ cs \<and> open_fds k = open_fds k - set cs"
      by (rule exI [of _ "[]"]) simp
  qed (rule closed_fds_step)
  then obtain cs where cs: "closes k' = closes k @ cs" "open_fds k' = open_fds k - set cs"
    using assms(1) by auto
  have "mset (owned fds') + mset (closes k') = mset (owned fds) + mset (closes k)"
    using fds.run_conserves [of ops "(fds, k)"] assms(1) by (simp add: resources_def owned_def)
  then have m: "mset (cs @ owned fds') = mset (owned fds)"
    by (simp add: cs(1) ac_simps)
  then have "distinct (cs @ owned fds')" "set (cs @ owned fds') = set (owned fds)"
    using assms(2) mset_eq_imp_distinct_iff [OF m] mset_eq_setD [OF m] by (simp_all add: owns_ok_def)
  with cs assms(2) show ?thesis by (auto simp: owns_ok_def)
qed

text \<open>
  The rest of the class: the constructor and \<^verbatim>\<open>reset\<close> take a descriptor over from the program. The
  program may also open a descriptor, under a number that is not open.
\<close>

datatype fd_op = Fd_own owner_op | Fd_open int | Fd_new int | Fd_reset nat int

fun fd_step :: "fd_op \<Rightarrow> int list \<times> kernel \<Rightarrow> int list \<times> kernel" where
  "fd_step (Fd_own op) (fds, k) = owner_step UniqueFd op (fds, k)"
| "fd_step (Fd_open fd) (fds, k) = (fds, k\<lparr>open_fds := insert fd (open_fds k)\<rparr>)"
| "fd_step (Fd_new fd) (fds, k) = (fds @ [fd], k)"
| "fd_step (Fd_reset i fd) (fds, k) = (case fd_reset fd (fds ! i) k of (v, k') \<Rightarrow> (fds[i := v], k'))"

text \<open>A descriptor taken over is -1, or it is open and no other owner has it.\<close>

definition may_take :: "int \<Rightarrow> int list \<times> kernel \<Rightarrow> bool" where
  "may_take fd = (\<lambda>(fds, k). fd = - 1 \<or> fd \<in> open_fds k \<and> fd \<notin> set (owned fds))"

fun fd_valid :: "fd_op \<Rightarrow> int list \<times> kernel \<Rightarrow> bool" where
  "fd_valid (Fd_own op) fk = True"
| "fd_valid (Fd_open fd) fk = (fd \<notin> open_fds (snd fk))"
| "fd_valid (Fd_new fd) fk = may_take fd fk"
| "fd_valid (Fd_reset i fd) fk = (i < length (fst fk) \<and> may_take fd fk)"

fun fds_valid :: "fd_op list \<Rightarrow> int list \<times> kernel \<Rightarrow> bool" where
  "fds_valid [] fk = True"
| "fds_valid (op # ops) fk = (fd_valid op fk \<and> fds_valid ops (fd_step op fk))"

text \<open>The descriptors a sequence of operations opens, and those it hands over to owners.\<close>

fun opened :: "fd_op list \<Rightarrow> int list" where
  "opened [] = []"
| "opened (Fd_open fd # ops) = fd # opened ops"
| "opened (op # ops) = opened ops"

fun handed_over :: "fd_op list \<Rightarrow> int list" where
  "handed_over [] = []"
| "handed_over (Fd_new fd # ops) = fd_held fd @ handed_over ops"
| "handed_over (Fd_reset i fd # ops) = fd_held fd @ handed_over ops"
| "handed_over (op # ops) = handed_over ops"

text \<open>From \<open>(fds, k)\<close> to \<open>(fds', k')\<close> the owners have closed what they no longer have, and each close
  was of an open descriptor: openings and closings of each number are in balance.\<close>

definition released_well :: "int list \<Rightarrow> int list \<Rightarrow> int list \<times> kernel \<Rightarrow> int list \<times> kernel \<Rightarrow> bool" where
  "released_well ops_opened ops_handed fk fk' \<longleftrightarrow> (\<exists>cs. closes (snd fk') = closes (snd fk) @ cs \<and>
     (\<forall>fd. count_list cs fd + of_bool (fd \<in> open_fds (snd fk')) =
        count_list ops_opened fd + of_bool (fd \<in> open_fds (snd fk))) \<and>
     mset cs + mset (owned (fst fk')) = mset (owned (fst fk)) + mset ops_handed)"

lemma owned_update:
  "i < length fds \<Longrightarrow> mset (owned (fds[i := v])) + mset (fd_held (fds ! i)) = mset (owned fds) + mset (fd_held v)"
  by (simp add: owned_def mset_concat_update)

text \<open>An operation that opens nothing and closes open descriptors, each once.\<close>

lemma released_wellI:
  assumes "closes k' = closes k @ cs" and "open_fds k' = open_fds k - set cs"
    and "distinct cs" and "set cs \<subseteq> open_fds k"
    and "mset cs + mset (owned fds') = mset (owned fds) + mset hs"
  shows "released_well [] hs (fds, k) (fds', k')"
proof -
  have "count_list cs fd + of_bool (fd \<in> open_fds k') = of_bool (fd \<in> open_fds k)" for fd
    using assms(2-4) by (cases "fd \<in> set cs") (auto simp: count_distinct)
  with assms show ?thesis unfolding released_well_def by (intro exI [of _ cs]) simp
qed

lemma reset_sound:
  assumes i: "i < length fds" and take: "may_take fd (fds, k)" and ok: "owns_ok fds k"
  shows "owns_ok (fds[i := fd]) (snd (fd_reset fd (fds ! i) k)) \<and>
    released_well [] (fd_held fd) (fds, k) (fds[i := fd], snd (fd_reset fd (fds ! i) k))"
proof -
  let ?cs = "fd_held (fds ! i)" and ?k = "snd (fd_reset fd (fds ! i) k)"
  have k: "closes ?k = closes k @ ?cs" "open_fds ?k = open_fds k - set ?cs"
    by (auto simp: fd_reset_def sys_close_def fd_held_def)
  have m: "mset (?cs @ owned (fds[i := fd])) = mset (fd_held fd @ owned fds)"
    using owned_update [OF i, of fd] by (simp add: ac_simps)
  have new: "distinct (fd_held fd @ owned fds)" "set (fd_held fd @ owned fds) \<subseteq> open_fds k"
    using take ok by (auto simp: may_take_def owns_ok_def fd_held_def)
  then have "distinct (?cs @ owned (fds[i := fd]))" "set (?cs @ owned (fds[i := fd])) \<subseteq> open_fds k"
    using mset_eq_imp_distinct_iff [OF m] mset_eq_setD [OF m] by simp_all
  then have "owns_ok (fds[i := fd]) ?k" and cs: "distinct ?cs" "set ?cs \<subseteq> open_fds k"
    using k by (auto simp: owns_ok_def)
  moreover have "mset ?cs + mset (owned (fds[i := fd])) = mset (owned fds) + mset (fd_held fd)"
    using m by (simp add: ac_simps)
  ultimately show ?thesis
    using released_wellI [of ?k k ?cs "fds[i := fd]" fds "fd_held fd"] k by simp
qed

lemma fd_step_sound:
  assumes "fd_valid op fk" and "owns_ok (fst fk) (snd fk)"
  shows "owns_ok (fst (fd_step op fk)) (snd (fd_step op fk)) \<and>
    released_well (opened [op]) (handed_over [op]) fk (fd_step op fk)"
proof (cases fk; cases op)
  fix fds k own assume [simp]: "fk = (fds, k)" "op = Fd_own own"
  obtain fds' k' where st: "owner_step UniqueFd own (fds, k) = (fds', k')" by (rule prod.exhaust)
  from fd_ops_sound [of "[own]" fds k fds' k'] assms(2) st
  obtain cs where "owns_ok fds' k'" and cs: "closes k' = closes k @ cs" "open_fds k' = open_fds k - set cs"
    "distinct (cs @ owned fds')" "set (cs @ owned fds') = set (owned fds)" by auto
  moreover have "mset (cs @ owned fds') = mset (owned fds)"
    using cs(3,4) assms(2) by (intro set_eq_iff_mset_eq_distinct [THEN iffD1]) (simp_all add: owns_ok_def)
  moreover have "set cs \<subseteq> open_fds k" using cs(4) assms(2) by (auto simp: owns_ok_def)
  moreover have "distinct cs" using cs(3) by simp
  ultimately show ?thesis using st released_wellI [of k' k cs fds' fds "[]"] cs(1,2) by simp
next
  fix fds k fd assume "fk = (fds, k)" "op = Fd_open fd"
  with assms show ?thesis by (auto simp: owns_ok_def released_well_def intro!: exI [of _ "[]"])
next
  fix fds k fd assume "fk = (fds, k)" "op = Fd_new fd"
  with assms show ?thesis
    using released_wellI [of k k "[]" "fds @ [fd]" fds "fd_held fd"]
    by (auto simp: owns_ok_def may_take_def owned_def fd_held_def)
next
  fix fds k i fd assume "fk = (fds, k)" "op = Fd_reset i fd"
  with assms reset_sound [of i fds fd k] show ?thesis
    by (simp add: fd_reset_def)
qed

lemma released_well_trans:
  assumes "released_well o1 h1 fk fk1" and "released_well o2 h2 fk1 fk2"
  shows "released_well (o1 @ o2) (h1 @ h2) fk fk2"
proof -
  obtain c1 c2 where 1: "closes (snd fk1) = closes (snd fk) @ c1"
    "\<forall>fd. count_list c1 fd + of_bool (fd \<in> open_fds (snd fk1)) = count_list o1 fd + of_bool (fd \<in> open_fds (snd fk))"
    "mset c1 + mset (owned (fst fk1)) = mset (owned (fst fk)) + mset h1"
    and 2: "closes (snd fk2) = closes (snd fk1) @ c2"
    "\<forall>fd. count_list c2 fd + of_bool (fd \<in> open_fds (snd fk2)) = count_list o2 fd + of_bool (fd \<in> open_fds (snd fk1))"
    "mset c2 + mset (owned (fst fk2)) = mset (owned (fst fk1)) + mset h2"
    using assms unfolding released_well_def by blast
  have bal: "count_list (c1 @ c2) fd + of_bool (fd \<in> open_fds (snd fk2)) =
      count_list (o1 @ o2) fd + of_bool (fd \<in> open_fds (snd fk))" for fd
    using 1(2) [rule_format, of fd] 2(2) [rule_format, of fd] by simp
  have "mset (c1 @ c2) + mset (owned (fst fk2)) = mset c1 + (mset c2 + mset (owned (fst fk2)))"
    by (simp add: ac_simps)
  also have "\<dots> = (mset c1 + mset (owned (fst fk1))) + mset h2"
    unfolding 2(3) by (simp only: ac_simps)
  also have "\<dots> = mset (owned (fst fk)) + mset (h1 @ h2)"
    unfolding 1(3) by (simp only: mset_append ac_simps)
  finally show ?thesis
    unfolding released_well_def using 1(1) 2(1) bal by (intro exI [of _ "c1 @ c2"]) simp
qed

lemma opened_Cons: "opened (op # ops) = opened [op] @ opened ops"
  by (cases op) simp_all

lemma handed_over_Cons: "handed_over (op # ops) = handed_over [op] @ handed_over ops"
  by (cases op) simp_all

lemma fd_run_sound:
  "fds_valid ops fk \<Longrightarrow> owns_ok (fst fk) (snd fk) \<Longrightarrow>
   owns_ok (fst (fold fd_step ops fk)) (snd (fold fd_step ops fk)) \<and>
   released_well (opened ops) (handed_over ops) fk (fold fd_step ops fk)"
proof (induction ops arbitrary: fk)
  case Nil
  then show ?case by (simp add: released_well_def)
next
  case (Cons op ops)
  from fd_step_sound [of op fk] Cons.prems have
    1: "owns_ok (fst (fd_step op fk)) (snd (fd_step op fk))"
      "released_well (opened [op]) (handed_over [op]) fk (fd_step op fk)" by simp_all
  from Cons.IH [OF _ 1(1)] Cons.prems(1) released_well_trans [OF 1(2)] show ?case
    by (simp add: opened_Cons [of op ops] handed_over_Cons [of op ops])
qed

text \<open>\<^verbatim>\<open>u.reset(u.get())\<close> does not meet the condition: it closes the descriptor and keeps its number,
  so that the destructor closes it again.\<close>

lemma reset_own_descriptor:
  assumes "fd \<noteq> - 1"
  shows "fd_reset fd fd k = (fd, sys_close fd k)"
    and "closes (fd_destroy fd (snd (fd_reset fd fd k))) = closes k @ [fd, fd]"
  using assms by (simp_all add: fd_reset_def fd_destroy_def sys_close_def)

section \<open>Writing a message\<close>

text \<open>
  \<^verbatim>\<open>write\<close> is given the rest of the message and returns a count; a negative one is an error.
  A count of 0 repeats the call with the same data, so the loop need not end in general.
\<close>

partial_function (option) write_message ::
  "('k \<Rightarrow> string \<Rightarrow> int \<times> 'k) \<Rightarrow> string \<Rightarrow> 'k \<Rightarrow> string \<Rightarrow> ((cpp_exn + unit) \<times> 'k) option" where
  "write_message wr err k data =
     (if data = [] then Some (Inr (), k)
      else (case wr k data of (n, k') \<Rightarrow>
        if n < 0 then Some (Inl (Runtime_error (''write failed: '' @ err)), k')
        else write_message wr err k' (drop (nat n) data)))"

text \<open>
  The contract of a blocking \<^verbatim>\<open>write\<close> on a pipe: it fails without writing, or takes a
  nonempty prefix of the data. \<open>sent\<close> is what has been written so far.
\<close>

locale byte_sink =
  fixes wr :: "'k \<Rightarrow> string \<Rightarrow> int \<times> 'k"
    and sent :: "'k \<Rightarrow> string"
  assumes wr_fails: "wr k data = (n, k') \<Longrightarrow> n < 0 \<Longrightarrow> sent k' = sent k"
    and wr_takes: "wr k data = (n, k') \<Longrightarrow> data \<noteq> [] \<Longrightarrow> 0 \<le> n \<Longrightarrow>
      0 < n \<and> nat n \<le> length data \<and> sent k' = sent k @ take (nat n) data"
begin

lemma write_all:
  "\<exists>r k'. write_message wr err k data = Some (r, k') \<and>
    (case r of Inr _ \<Rightarrow> sent k' = sent k @ data
     | Inl e \<Rightarrow> e = Runtime_error (''write failed: '' @ err) \<and>
         (\<exists>i<length data. sent k' = sent k @ take i data))"
proof (induction "length data" arbitrary: data k rule: less_induct)
  case less
  show ?case
  proof (cases "data = []")
    case True
    then show ?thesis by (simp add: write_message.simps)
  next
    case False
    obtain n k1 where w: "wr k data = (n, k1)" by (cases "wr k data")
    show ?thesis
    proof (cases "n < 0")
      case True
      with w False wr_fails [OF w] show ?thesis
        by (auto simp: write_message.simps intro: exI [of _ 0])
    next
      case np: False
      with wr_takes [OF w False] have p: "0 < n" "nat n \<le> length data" "sent k1 = sent k @ take (nat n) data"
        by auto
      have eq: "write_message wr err k data = write_message wr err k1 (drop (nat n) data)"
        using w False np by (simp add: write_message.simps)
      have "length (drop (nat n) data) < length data" using p False by simp
      from less.hyps [OF this, of k1] obtain r k' where
        r: "write_message wr err k1 (drop (nat n) data) = Some (r, k')"
        "case r of Inr _ \<Rightarrow> sent k' = sent k1 @ drop (nat n) data
         | Inl e \<Rightarrow> e = Runtime_error (''write failed: '' @ err) \<and>
           (\<exists>i<length (drop (nat n) data). sent k' = sent k1 @ take i (drop (nat n) data))" by blast
      show ?thesis
      proof (cases r)
        case (Inr u)
        with r eq p show ?thesis by simp
      next
        case (Inl e)
        with r obtain i where "i < length (drop (nat n) data)"
          "sent k' = sent k1 @ take i (drop (nat n) data)" "e = Runtime_error (''write failed: '' @ err)" by auto
        with p have "nat n + i < length data" "sent k' = sent k @ take (nat n + i) data"
          by (auto simp: take_add)
        with r eq Inl show ?thesis by auto
      qed
    qed
  qed
qed

end

text \<open>A pipe that takes at most \<open>chunk + 1\<close> bytes per call, and fails once \<open>limit\<close> is reached.\<close>

record pipe =
  buffer :: string
  chunk :: nat
  limit :: nat

definition pipe_write :: "pipe \<Rightarrow> string \<Rightarrow> int \<times> pipe" where
  "pipe_write p data =
     (if limit p \<le> length (buffer p) then (- 1, p)
      else let n = min (chunk p + 1) (length data) in
        (int n, p\<lparr>buffer := buffer p @ take n data\<rparr>))"

interpretation pipe: byte_sink pipe_write buffer
proof unfold_locales
  show "pipe_write k data = (n, k') \<Longrightarrow> n < 0 \<Longrightarrow> buffer k' = buffer k" for k data n k'
    by (auto simp: pipe_write_def Let_def split: if_splits)
  show "pipe_write k data = (n, k') \<Longrightarrow> data \<noteq> [] \<Longrightarrow> 0 \<le> n \<Longrightarrow>
      0 < n \<and> nat n \<le> length data \<and> buffer k' = buffer k @ take (nat n) data" for k data n k'
    by (auto simp: pipe_write_def Let_def split: if_splits)
qed

section \<open>The sources\<close>

definition newline :: char where
  "newline = CHR 0x0A"

fun simulate_source :: "('k \<Rightarrow> string \<Rightarrow> int \<times> 'k) \<Rightarrow> string \<Rightarrow> string \<Rightarrow> (int \<times> string) list \<Rightarrow> 'k \<Rightarrow> console \<Rightarrow>
    ((cpp_exn + unit) \<times> 'k \<times> console) option" where
  "simulate_source wr err name [] k out =
     Some (Inr (), k, log_line [''['', name, ''] writer done; fd closes via RAII''] out)"
| "simulate_source wr err name ((delay_ms, payload) # events) k out =
     (case write_message wr err k (payload @ [newline]) of
        None \<Rightarrow> None
      | Some (Inl e, k') \<Rightarrow> Some (Inl e, k', out)
      | Some (Inr _, k') \<Rightarrow>
          simulate_source wr err name events k' (log_line [''['', name, ''] emitted '', payload] out))"

definition frames :: "(int \<times> string) list \<Rightarrow> string" where
  "frames events = concat (map (\<lambda>e. snd e @ [newline]) events)"

context byte_sink
begin

lemma source_sends:
  "simulate_source wr err name events k out = Some (Inr (), k', out') \<Longrightarrow> sent k' = sent k @ frames events"
proof (induction events arbitrary: k out)
  case Nil
  then show ?case by (simp add: frames_def)
next
  case (Cons e events)
  obtain delay payload where e: "e = (delay, payload)" by (cases e)
  from write_all [of err k "payload @ [newline]"] obtain r k1 where
    w: "write_message wr err k (payload @ [newline]) = Some (r, k1)"
      "case r of Inr _ \<Rightarrow> sent k1 = sent k @ payload @ [newline] | Inl e \<Rightarrow> True"
    by (force split: sum.splits)
  with Cons e show ?case by (cases r) (auto simp: frames_def)
qed

lemma source_returns: "simulate_source wr err name events k out \<noteq> None"
proof (induction events arbitrary: k out)
  case (Cons e events)
  obtain delay payload where e: "e = (delay, payload)" by (cases e)
  from write_all [of err k "payload @ [newline]"] obtain r k1 where
    "write_message wr err k (payload @ [newline]) = Some (r, k1)" by blast
  with Cons.IH e show ?case by (cases r) auto
qed simp

end

section \<open>The handlers\<close>

text \<open>The bytes still to arrive, and how the stream ends.\<close>

type_synonym stream = "string \<times> string option"

definition from_source :: "string \<Rightarrow> string \<Rightarrow> string" where
  "from_source name msg = concat [''[reactor] '', name, '' -> '', msg]"

fun drain_bytes :: "string \<Rightarrow> string \<Rightarrow> string \<Rightarrow> string option \<Rightarrow> console \<Rightarrow>
    (cpp_exn + bool) \<times> stream \<times> console" where
  "drain_bytes name msg [] (Some err) out = (Inl (Runtime_error (''read failed: '' @ err)), ([], Some err), out)"
| "drain_bytes name msg [] None out = (Inr False, ([], None),
     log_line [''[reactor] '', name, '' -> EOF'']
       (if msg \<noteq> [] then log_line [''[reactor] '', name, '' -> '', msg] out else out))"
| "drain_bytes name msg (ch # bs) final out =
     (if ch = newline then (Inr True, (bs, final), log_line [''[reactor] '', name, '' -> '', msg] out)
      else drain_bytes name (msg @ [ch]) bs final out)"

definition drain_one_message :: "string \<Rightarrow> stream \<Rightarrow> console \<Rightarrow> (cpp_exn + bool) \<times> stream \<times> console" where
  "drain_one_message name s out = drain_bytes name [] (fst s) (snd s) out"

definition POLLIN :: "16 word" where "POLLIN = 0x01"
definition POLLERR :: "16 word" where "POLLERR = 0x08"
definition POLLHUP :: "16 word" where "POLLHUP = 0x10"

definition append_flag :: "bool \<Rightarrow> string \<Rightarrow> string \<Rightarrow> string" where
  "append_flag b name out = (if b then (if out \<noteq> [] then out @ ''|'' else out) @ name else out)"

definition describe_revents :: "16 word \<Rightarrow> string" where
  "describe_revents revents =
     (let out = append_flag (revents AND POLLERR \<noteq> 0) ''POLLERR''
        (append_flag (revents AND POLLHUP \<noteq> 0) ''POLLHUP''
        (append_flag (revents AND POLLIN \<noteq> 0) ''POLLIN'' []))
      in if out = [] then ''0'' else out)"

section \<open>The loop\<close>

record reactor =
  watchers :: "int list"
  active :: int
  streams :: "int \<Rightarrow> stream"
  kern :: kernel
  out :: console

type_synonym handler_map = "int \<Rightarrow> string option"

definition reactor_handlers :: "int \<Rightarrow> int \<Rightarrow> handler_map" where
  "reactor_handlers api_fd metrics_fd = [metrics_fd \<mapsto> ''metrics-handler'', api_fd \<mapsto> ''api-handler'']"

definition wanted :: "16 word \<Rightarrow> bool" where
  "wanted revents \<longleftrightarrow> revents AND (POLLIN OR POLLHUP OR POLLERR) \<noteq> 0"

text \<open>The body of the inner loop, for the watcher at index \<open>i\<close>.\<close>

definition dispatch :: "handler_map \<Rightarrow> nat \<Rightarrow> 16 word \<Rightarrow> reactor \<Rightarrow> cpp_exn option \<times> reactor" where
  "dispatch h i revents st = (let fd = watchers st ! i in
     if fd = - 1 \<or> \<not> wanted revents then (None, st)
     else let st1 = st\<lparr>out := log_line [''[reactor] dispatch fd='', show_int fd, '' revents='', describe_revents revents] (out st)\<rparr>
     in case h fd of
       None \<Rightarrow> (Some (Out_of_range ''unordered_map::at''), st1)
     | Some name \<Rightarrow> (case drain_one_message name (streams st fd) (out st1) of
         (Inl e, s, con) \<Rightarrow> (Some e, st1\<lparr>streams := (streams st)(fd := s), out := con\<rparr>)
       | (Inr True, s, con) \<Rightarrow> (None, st1\<lparr>streams := (streams st)(fd := s), out := con\<rparr>)
       | (Inr False, s, con) \<Rightarrow> (None, st1\<lparr>streams := (streams st)(fd := s),
           out := log_line [''[reactor] retiring fd='', show_int fd] con,
           kern := sys_close fd (kern st), watchers := (watchers st)[i := - 1], active := active st - 1\<rparr>)))"

fun dispatch_all :: "handler_map \<Rightarrow> nat \<Rightarrow> 16 word list \<Rightarrow> reactor \<Rightarrow> cpp_exn option \<times> reactor" where
  "dispatch_all h i [] st = (None, st)"
| "dispatch_all h i (r # revs) st = (case dispatch h i r st of
     (None, st') \<Rightarrow> dispatch_all h (Suc i) revs st'
   | (Some e, st') \<Rightarrow> (Some e, st'))"

text \<open>The result of a \<^verbatim>\<open>poll\<close>: an error text, a timeout, or the count and each watcher's bits.\<close>

datatype poll_result = Poll_failed string | Poll_timeout | Poll_ready int "16 word list"

fun reactor_loop :: "handler_map \<Rightarrow> poll_result list \<Rightarrow> reactor \<Rightarrow> cpp_exn option \<times> reactor" where
  "reactor_loop h [] st = (None, st)"
| "reactor_loop h (p # ps) st = (if \<not> 0 < active st then (None, st) else
     (let st1 = st\<lparr>out := log_line [''[reactor] waiting on '', show_int (active st), '' active source(s)''] (out st)\<rparr>
      in case p of
        Poll_failed err \<Rightarrow> (Some (Runtime_error (''poll failed: '' @ err)), st1)
      | Poll_timeout \<Rightarrow> reactor_loop h ps (st1\<lparr>out := log_line [''[reactor] idle tick''] (out st1)\<rparr>)
      | Poll_ready n revs \<Rightarrow>
          (case dispatch_all h 0 revs
              (st1\<lparr>out := log_line [''[reactor] poll returned '', show_int n, '' ready descriptor(s)''] (out st1)\<rparr>) of
             (None, st2) \<Rightarrow> reactor_loop h ps st2
           | (Some e, st2) \<Rightarrow> (Some e, st2))))"

text \<open>
  The state when the loop starts, with \<open>api\<close> and \<open>metrics\<close> the read ends, and what leaving
  \<^verbatim>\<open>main\<close> does: the destructors of \<^verbatim>\<open>metrics\<close> and \<^verbatim>\<open>api\<close>, whose write ends have been moved
  into the threads.
\<close>

definition reactor_init :: "int \<Rightarrow> int \<Rightarrow> stream \<Rightarrow> stream \<Rightarrow> kernel \<Rightarrow> reactor" where
  "reactor_init api metrics s1 s2 k =
     \<lparr>watchers = [api, metrics], active = 2, streams = (\<lambda>_. ([], None))(api := s1, metrics := s2), kern = k,
      out = log_line [''Reactor example: one loop dispatches multiple event sources.''] []\<rparr>"

definition main_exit :: "int \<Rightarrow> int \<Rightarrow> reactor \<Rightarrow> kernel" where
  "main_exit api metrics st =
     fd_destroy api (fd_destroy (- 1) (fd_destroy metrics (fd_destroy (- 1) (kern st))))"

section \<open>Lines of a source\<close>

text \<open>What a stream makes its handler print in total, after the bytes \<open>msg\<close>.\<close>

fun stream_lines :: "string \<Rightarrow> string \<Rightarrow> string \<Rightarrow> console" where
  "stream_lines name msg [] = (if msg = [] then [] else [from_source name msg]) @ [from_source name ''EOF'']"
| "stream_lines name msg (ch # bs) =
     (if ch = newline then from_source name msg # stream_lines name [] bs else stream_lines name (msg @ [ch]) bs)"

text \<open>The same for a stream that may end in an error: then there is no end of file, and what follows
  the last line break is lost.\<close>

fun stream_shows :: "string \<Rightarrow> string \<Rightarrow> string \<Rightarrow> string option \<Rightarrow> console" where
  "stream_shows name msg [] final = (if final = None
     then (if msg = [] then [] else [from_source name msg]) @ [from_source name ''EOF''] else [])"
| "stream_shows name msg (ch # bs) final =
     (if ch = newline then from_source name msg # stream_shows name [] bs final
      else stream_shows name (msg @ [ch]) bs final)"

lemma stream_shows_None [simp]: "stream_shows name msg bs None = stream_lines name msg bs"
  by (induction bs arbitrary: msg) simp_all

definition is_from :: "string \<Rightarrow> string \<Rightarrow> bool" where
  "is_from name l \<longleftrightarrow> take (length (from_source name [])) l = from_source name []"

definition source_lines :: "string \<Rightarrow> console \<Rightarrow> console" where
  "source_lines name con = filter (is_from name) con"

lemma is_from_same [simp]: "is_from name (from_source name msg)"
  by (simp add: is_from_def from_source_def)

lemma drain_bytes_lines:
  "\<exists>r ls bs'. drain_bytes name msg bs final con = (r, (bs', final), con @ ls) \<and>
     (\<forall>l\<in>set ls. \<exists>m. l = from_source name m) \<and>
     stream_shows name msg bs final = ls @ (if r = Inr False then [] else stream_shows name [] bs' final) \<and>
     (if r = Inr True then count_list bs newline = Suc (count_list bs' newline)
      else count_list bs newline = 0 \<and> bs' = []) \<and>
     (\<forall>e. r = Inl e \<longrightarrow> (\<exists>err. final = Some err \<and> e = Runtime_error (''read failed: '' @ err)))"
proof (induction bs arbitrary: msg)
  case Nil
  show ?case by (cases final) (auto simp: log_line_def from_source_def)
next
  case (Cons ch bs)
  show ?case
  proof (cases "ch = newline")
    case True
    then show ?thesis by (auto simp: log_line_def from_source_def)
  next
    case False
    with Cons.IH [of "msg @ [ch]"] show ?thesis
      by (simp only: drain_bytes.simps stream_shows.simps count_list.simps if_False)
  qed
qed

lemma drain_lines:
  obtains r ls bs' where "drain_one_message name s con = (r, (bs', snd s), con @ ls)"
    and "\<forall>l\<in>set ls. \<exists>m. l = from_source name m"
    and "stream_shows name [] (fst s) (snd s) = ls @ (if r = Inr False then [] else stream_shows name [] bs' (snd s))"
    and "r = Inr True \<longrightarrow> count_list (fst s) newline = Suc (count_list bs' newline)"
    and "r \<noteq> Inr True \<longrightarrow> count_list (fst s) newline = 0"
    and "\<forall>e. r = Inl e \<longrightarrow> (\<exists>err. snd s = Some err \<and> e = Runtime_error (''read failed: '' @ err))"
  using drain_bytes_lines [of name "[]" "fst s" "snd s" con] that unfolding drain_one_message_def
  by (metis (no_types, lifting))

section \<open>The invariant of the loop\<close>

definition separate :: "string \<Rightarrow> string \<Rightarrow> bool" where
  "separate a b \<longleftrightarrow> (\<forall>m. \<not> is_from a (from_source b m))"

text \<open>No other line of the loop looks like one of a source.\<close>

definition loop_lines :: "string set" where
  "loop_lines = {''[reactor] waiting on '', ''[reactor] idle tick'', ''[reactor] poll returned '',
     ''[reactor] dispatch fd='', ''[reactor] retiring fd=''}"

definition unmistakable :: "string \<Rightarrow> bool" where
  "unmistakable a \<longleftrightarrow> (\<forall>m. \<forall>p\<in>loop_lines. \<not> is_from a (p @ m))"

definition handlers_ok :: "handler_map \<Rightarrow> int list \<Rightarrow> bool" where
  "handlers_ok h fds \<longleftrightarrow> distinct fds \<and> - 1 \<notin> set fds \<and> (\<forall>fd\<in>set fds. h fd \<noteq> None \<and> unmistakable (the (h fd))) \<and>
     (\<forall>f\<in>set fds. \<forall>g\<in>set fds. f \<noteq> g \<longrightarrow> separate (the (h f)) (the (h g)))"

definition watch_ok :: "int list \<Rightarrow> reactor \<Rightarrow> bool" where
  "watch_ok fds st \<longleftrightarrow> length (watchers st) = length fds \<and>
     (\<forall>i<length fds. watchers st ! i = - 1 \<or> watchers st ! i = fds ! i) \<and>
     active st = sum_list (map (\<lambda>w. of_bool (w \<noteq> - 1)) (watchers st))"

definition source_ok :: "handler_map \<Rightarrow> int list \<Rightarrow> (int \<Rightarrow> stream) \<Rightarrow> reactor \<Rightarrow> nat \<Rightarrow> bool" where
  "source_ok h fds B st i \<longleftrightarrow> (let fd = fds ! i; name = the (h fd); final = snd (B fd) in
     snd (streams st fd) = final \<and>
     source_lines name (out st) @ (if watchers st ! i = - 1 then [] else stream_shows name [] (fst (streams st fd)) final)
       = stream_shows name [] (fst (B fd)) final \<and>
     count_list (closes (kern st)) fd = of_bool (watchers st ! i = - 1))"

definition reactor_ok :: "handler_map \<Rightarrow> int list \<Rightarrow> (int \<Rightarrow> stream) \<Rightarrow> reactor \<Rightarrow> bool" where
  "reactor_ok h fds B st \<longleftrightarrow> watch_ok fds st \<and> (\<forall>i<length fds. source_ok h fds B st i)"

text \<open>Why the loop may end with an exception.\<close>

definition read_error :: "int list \<Rightarrow> (int \<Rightarrow> stream) \<Rightarrow> cpp_exn \<Rightarrow> bool" where
  "read_error fds B e \<longleftrightarrow> (\<exists>fd\<in>set fds. \<exists>err. snd (B fd) = Some err \<and> e = Runtime_error (''read failed: '' @ err))"

text \<open>Messages still to be dispatched, an end of file counting as one.\<close>

definition backlog :: "int list \<Rightarrow> reactor \<Rightarrow> nat" where
  "backlog fds st = (\<Sum>i<length fds. if watchers st ! i = - 1 then 0
     else count_list (fst (streams st (fds ! i))) newline + 1)"

lemma source_lines_other: "(\<forall>l\<in>set ls. \<not> is_from name l) \<Longrightarrow> source_lines name (con @ ls) = source_lines name con"
  by (simp add: source_lines_def filter_empty_conv)

lemma source_lines_own: "(\<forall>l\<in>set ls. \<exists>m. l = from_source name m) \<Longrightarrow>
    source_lines name (con @ ls) = source_lines name con @ ls"
  by (auto simp: source_lines_def filter_id_conv)

lemma source_lines_log:
  "unmistakable name \<Longrightarrow> p \<in> loop_lines \<Longrightarrow>
   source_lines name (log_line (p # ps) con) = source_lines name con"
  unfolding unmistakable_def source_lines_def log_line_def by simp

text \<open>A line that is not about a source keeps the invariant.\<close>

lemma reactor_ok_log:
  assumes "reactor_ok h fds B st" and "handlers_ok h fds" and "p \<in> loop_lines"
  shows "reactor_ok h fds B (st\<lparr>out := log_line (p # ps) (out st)\<rparr>)"
proof -
  have "source_lines (the (h (fds ! i))) (log_line (p # ps) (out st)) = source_lines (the (h (fds ! i))) (out st)"
    if "i < length fds" for i
    using assms(2,3) that by (intro source_lines_log) (auto simp: handlers_ok_def)
  with assms(1) show ?thesis
    by (simp add: reactor_ok_def watch_ok_def source_ok_def Let_def cong: if_cong)
qed

lemma backlog_log [simp]: "backlog fds (st\<lparr>out := con\<rparr>) = backlog fds st"
  by (simp add: backlog_def cong: if_cong)

lemma other_source:
  assumes "handlers_ok h fds" and "i < length fds" and "j < length fds" and "i \<noteq> j"
    and "\<forall>l\<in>set ls. \<exists>m. l = from_source (the (h (fds ! j))) m"
  shows "fds ! i \<noteq> fds ! j" and "source_lines (the (h (fds ! i))) (con @ ls) = source_lines (the (h (fds ! i))) con"
proof -
  show ne: "fds ! i \<noteq> fds ! j" using assms(1-4) by (simp add: handlers_ok_def nth_eq_iff_index_eq)
  then have "separate (the (h (fds ! i))) (the (h (fds ! j)))"
    using assms(1-3) by (simp add: handlers_ok_def)
  then show "source_lines (the (h (fds ! i))) (con @ ls) = source_lines (the (h (fds ! i))) con"
    using assms(5) by (intro source_lines_other) (auto simp: separate_def)
qed

lemma reactor_ok_drained:
  assumes ok: "reactor_ok h fds B st" and h: "handlers_ok h fds" and j: "j < length fds" and live: "watchers st ! j \<noteq> - 1"
    and own: "\<forall>l\<in>set ls. \<exists>m. l = from_source (the (h (fds ! j))) m" and final: "final = snd (B (fds ! j))"
    and bs: "stream_shows (the (h (fds ! j))) [] (fst (streams st (fds ! j))) final =
      ls @ stream_shows (the (h (fds ! j))) [] bs final"
  shows "reactor_ok h fds B (st\<lparr>streams := (streams st)(fds ! j := (bs, final)), out := out st @ ls\<rparr>)"
proof -
  let ?st = "st\<lparr>streams := (streams st)(fds ! j := (bs, final)), out := out st @ ls\<rparr>"
  have "source_ok h fds B ?st i" if i: "i < length fds" for i
  proof (cases "i = j")
    case True
    with ok j have "source_ok h fds B st j" by (simp add: reactor_ok_def)
    with True live bs final show ?thesis by (simp add: source_ok_def Let_def source_lines_own [OF own])
  next
    case False
    from ok i have "source_ok h fds B st i" by (simp add: reactor_ok_def)
    with other_source [OF h i j False own] show ?thesis
      by (simp add: source_ok_def Let_def cong: if_cong)
  qed
  with ok show ?thesis by (simp add: reactor_ok_def watch_ok_def)
qed

lemma reactor_ok_retired:
  assumes ok: "reactor_ok h fds B st" and h: "handlers_ok h fds" and j: "j < length fds" and live: "watchers st ! j \<noteq> - 1"
    and own: "\<forall>l\<in>set ls. \<exists>m. l = from_source (the (h (fds ! j))) m" and final: "final = snd (B (fds ! j))"
    and bs: "stream_shows (the (h (fds ! j))) [] (fst (streams st (fds ! j))) final = ls"
  shows "reactor_ok h fds B (st\<lparr>streams := (streams st)(fds ! j := (bs, final)), out := out st @ ls,
    kern := sys_close (fds ! j) (kern st), watchers := (watchers st)[j := - 1], active := active st - 1\<rparr>)"
    (is "reactor_ok h fds B ?st")
proof -
  from ok have len: "length (watchers st) = length fds" by (simp add: reactor_ok_def watch_ok_def)
  have "source_ok h fds B ?st i" if i: "i < length fds" for i
  proof (cases "i = j")
    case True
    with ok j have "source_ok h fds B st j" by (simp add: reactor_ok_def)
    with True live bs final len j show ?thesis
      by (simp add: source_ok_def Let_def source_lines_own [OF own] sys_close_def)
  next
    case False
    from ok i have "source_ok h fds B st i" by (simp add: reactor_ok_def)
    with other_source [OF h i j False own] False show ?thesis
      by (simp add: source_ok_def Let_def sys_close_def cong: if_cong)
  qed
  moreover have "sum_list (map (\<lambda>w. of_bool (w \<noteq> - 1)) ((watchers st)[j := - 1])) =
    sum_list (map (\<lambda>w. of_bool (w \<noteq> - 1)) (watchers st)) - (1 :: int)"
    using live len j by (simp add: map_update sum_list_list_update)
  ultimately show ?thesis
    using ok len j by (auto simp: reactor_ok_def watch_ok_def nth_list_update)
qed

lemma backlog_upd:
  assumes "j < length fds" and "\<And>i. i < length fds \<Longrightarrow> i \<noteq> j \<Longrightarrow>
      watchers st' ! i = watchers st ! i \<and> streams st' (fds ! i) = streams st (fds ! i)"
  shows "backlog fds st' + (if watchers st ! j = - 1 then 0 else count_list (fst (streams st (fds ! j))) newline + 1) =
    backlog fds st + (if watchers st' ! j = - 1 then 0 else count_list (fst (streams st' (fds ! j))) newline + 1)"
proof -
  let ?f = "\<lambda>s i. if watchers s ! i = - 1 then 0 else count_list (fst (streams s (fds ! i))) newline + 1"
  have "sum (?f st') ({..<length fds} - {j}) = sum (?f st) ({..<length fds} - {j})"
    using assms(2) by (intro sum.cong) auto
  then show ?thesis
    using assms(1) by (simp add: backlog_def sum.remove [of "{..<length fds}" j])
qed

lemma dispatch_live:
  assumes "watchers st ! j \<noteq> - 1 \<and> wanted revents" and "h (watchers st ! j) = Some name"
    and "drain_one_message name (streams st (watchers st ! j)) (log_line [''[reactor] dispatch fd='',
      show_int (watchers st ! j), '' revents='', describe_revents revents] (out st)) = (r, s, con)"
  shows "dispatch h j revents st = (case r of Inl e \<Rightarrow> Some e | Inr k \<Rightarrow> None,
    if r \<noteq> Inr False then st\<lparr>streams := (streams st)(watchers st ! j := s), out := con\<rparr>
    else st\<lparr>streams := (streams st)(watchers st ! j := s),
      out := log_line [''[reactor] retiring fd='', show_int (watchers st ! j)] con,
      kern := sys_close (watchers st ! j) (kern st), watchers := (watchers st)[j := - 1], active := active st - 1\<rparr>)"
  using assms by (auto simp: dispatch_def Let_def split: sum.split bool.split)

text \<open>A dispatch fails only when its read does, keeps the invariant in any case, and otherwise takes
  one message off the backlog if the watcher is live and wanted.\<close>

lemma dispatch_ok:
  assumes ok: "reactor_ok h fds B st" and h: "handlers_ok h fds" and j: "j < length fds"
  obtains e st' where "dispatch h j revents st = (e, st')" and "reactor_ok h fds B st'"
    and "\<forall>x. e = Some x \<longrightarrow> read_error fds B x"
    and "e = None \<longrightarrow> backlog fds st = backlog fds st' + of_bool (watchers st ! j \<noteq> - 1 \<and> wanted revents)"
    and "\<And>i. i \<noteq> j \<Longrightarrow> watchers st' ! i = watchers st ! i"
proof (cases "watchers st ! j \<noteq> - 1 \<and> wanted revents")
  case False
  then have "dispatch h j revents st = (None, st)" by (simp add: dispatch_def Let_def)
  with False ok that show ?thesis by simp
next
  case True
  let ?fd = "fds ! j" and ?final = "snd (B (fds ! j))"
  from ok j True have fd: "watchers st ! j = ?fd" and len: "length (watchers st) = length fds"
    by (auto simp: reactor_ok_def watch_ok_def)
  from h j obtain name where name: "h ?fd = Some name" by (fastforce simp: handlers_ok_def)
  define con where "con = log_line [''[reactor] dispatch fd='', show_int ?fd, '' revents='', describe_revents revents] (out st)"
  let ?st1 = "st\<lparr>out := con\<rparr>"
  have ok1: "reactor_ok h fds B ?st1"
    unfolding con_def using ok h by (rule reactor_ok_log) (simp add: loop_lines_def)
  from ok j have final: "snd (streams st ?fd) = ?final" by (simp add: reactor_ok_def source_ok_def Let_def)
  obtain r ls bs' where
    d: "drain_one_message name (streams st ?fd) con = (r, (bs', ?final), con @ ls)"
    and own: "\<forall>l\<in>set ls. \<exists>m. l = from_source name m"
    and bs: "stream_shows name [] (fst (streams st ?fd)) ?final =
      ls @ (if r = Inr False then [] else stream_shows name [] bs' ?final)"
    and cnt: "r = Inr True \<longrightarrow> count_list (fst (streams st ?fd)) newline = Suc (count_list bs' newline)"
      "r \<noteq> Inr True \<longrightarrow> count_list (fst (streams st ?fd)) newline = 0"
    and err: "\<forall>e. r = Inl e \<longrightarrow> (\<exists>err. ?final = Some err \<and> e = Runtime_error (''read failed: '' @ err))"
    unfolding final [symmetric] by (rule drain_lines [of name "streams st ?fd" con])
  let ?e = "case r of Inl e \<Rightarrow> Some e | Inr k \<Rightarrow> None"
  have e: "\<forall>x. ?e = Some x \<longrightarrow> read_error fds B x"
    using err j by (auto simp: read_error_def split: sum.splits)
  have ne: "fds ! i \<noteq> ?fd" if "i < length fds" "i \<noteq> j" for i
    using h that j by (simp add: handlers_ok_def nth_eq_iff_index_eq)
  show ?thesis
  proof (cases "r = Inr False")
    case r: False
    let ?st' = "?st1\<lparr>streams := (streams st)(?fd := (bs', ?final)), out := con @ ls\<rparr>"
    have "dispatch h j revents st = (?e, ?st')"
      using dispatch_live [OF True, of h name] fd name d r by (simp add: con_def)
    moreover have "reactor_ok h fds B ?st'"
      using reactor_ok_drained [OF ok1 h j, of ls ?final bs'] True own bs name r by simp
    moreover have "backlog fds st = backlog fds ?st' + 1" if "?e = None"
    proof -
      have "r = Inr True" using r that by (cases r) auto
      then show ?thesis using backlog_upd [OF j, of ?st' st] ne True cnt by simp
    qed
    ultimately show ?thesis using that [of ?e ?st'] True e by simp
  next
    case r: True
    let ?st2 = "?st1\<lparr>streams := (streams st)(?fd := (bs', ?final)), out := con @ ls,
      kern := sys_close ?fd (kern st), watchers := (watchers st)[j := - 1], active := active st - 1\<rparr>"
    let ?st' = "?st2\<lparr>out := log_line [''[reactor] retiring fd='', show_int ?fd] (out ?st2)\<rparr>"
    have "dispatch h j revents st = (None, ?st')"
      using dispatch_live [OF True, of h name] fd name d r by (simp add: con_def)
    moreover have "reactor_ok h fds B ?st2"
      using reactor_ok_retired [OF ok1 h j, of ls ?final bs'] True own bs name r by simp
    then have "reactor_ok h fds B ?st'"
      using h by (rule reactor_ok_log) (simp add: loop_lines_def)
    moreover have "backlog fds st = backlog fds ?st2 + 1"
      using backlog_upd [OF j, of ?st2 st] ne True cnt r len j by simp
    then have "backlog fds st = backlog fds ?st' + 1" by (simp only: backlog_log)
    moreover have "watchers ?st' ! i = watchers st ! i" if "i \<noteq> j" for i
      using that by simp
    ultimately show ?thesis using that [of None ?st'] True by simp
  qed
qed

lemma dispatch_all_ok:
  assumes "reactor_ok h fds B st" and "handlers_ok h fds" and "i + length revs \<le> length fds"
  shows "\<exists>e st'. dispatch_all h i revs st = (e, st') \<and> reactor_ok h fds B st' \<and>
    (\<forall>x. e = Some x \<longrightarrow> read_error fds B x) \<and>
    (e = None \<longrightarrow> backlog fds st' \<le> backlog fds st \<and>
      (\<forall>k<length revs. watchers st ! (i + k) \<noteq> - 1 \<and> wanted (revs ! k) \<longrightarrow> backlog fds st' < backlog fds st))"
  using assms
proof (induction revs arbitrary: i st)
  case (Cons r revs)
  from Cons.prems have "i < length fds" by simp
  from dispatch_ok [OF Cons.prems(1,2) this, of r] obtain e st1 where
    d: "dispatch h i r st = (e, st1)" "reactor_ok h fds B st1" "\<forall>x. e = Some x \<longrightarrow> read_error fds B x"
      "e = None \<longrightarrow> backlog fds st = backlog fds st1 + of_bool (watchers st ! i \<noteq> - 1 \<and> wanted r)"
      "\<And>j. j \<noteq> i \<Longrightarrow> watchers st1 ! j = watchers st ! j" by blast
  show ?case
  proof (cases e)
    case (Some x)
    with d show ?thesis by simp
  next
    case None
    from Cons.IH [OF d(2) Cons.prems(2), of "Suc i"] Cons.prems(3) obtain e' st' where
      s: "dispatch_all h (Suc i) revs st1 = (e', st')" "reactor_ok h fds B st'" "\<forall>x. e' = Some x \<longrightarrow> read_error fds B x"
        "e' = None \<longrightarrow> backlog fds st' \<le> backlog fds st1 \<and>
          (\<forall>k<length revs. watchers st1 ! (Suc i + k) \<noteq> - 1 \<and> wanted (revs ! k) \<longrightarrow> backlog fds st' < backlog fds st1)"
      by auto
    have "backlog fds st' < backlog fds st"
      if "e' = None" "k < length (r # revs)" "watchers st ! (i + k) \<noteq> - 1" "wanted ((r # revs) ! k)" for k
    proof (cases k)
      case 0
      with that d(4) s(4) None show ?thesis by simp
    next
      case (Suc k')
      with that d(5) [of "i + k"] s(4) have "backlog fds st' < backlog fds st1" by simp
      with d(4) None show ?thesis by simp
    qed
    with d(1,4) s None show ?thesis by auto
  qed
qed simp

text \<open>What the loop relies on: \<^verbatim>\<open>poll\<close> does not fail and reports on every watcher.\<close>

fun poll_fits :: "nat \<Rightarrow> poll_result \<Rightarrow> bool" where
  "poll_fits n (Poll_failed err) = False"
| "poll_fits n Poll_timeout = True"
| "poll_fits n (Poll_ready r revs) = (length revs = n)"

text \<open>All that is needed of it when it may fail: it fills in the bits of every watcher.\<close>

fun poll_fills :: "nat \<Rightarrow> poll_result \<Rightarrow> bool" where
  "poll_fills n (Poll_ready r revs) = (length revs = n)"
| "poll_fills n p = True"

lemma poll_fits_fills: "poll_fits n p \<Longrightarrow> poll_fills n p \<and> (\<forall>err. p \<noteq> Poll_failed err)"
  by (cases p) simp_all

definition loop_error :: "int list \<Rightarrow> (int \<Rightarrow> stream) \<Rightarrow> poll_result set \<Rightarrow> cpp_exn \<Rightarrow> bool" where
  "loop_error fds B ps e \<longleftrightarrow> read_error fds B e \<or>
     (\<exists>err. Poll_failed err \<in> ps \<and> e = Runtime_error (''poll failed: '' @ err))"

lemma no_loop_error:
  "\<forall>p\<in>ps. poll_fits n p \<Longrightarrow> \<forall>fd\<in>set fds. snd (B fd) = None \<Longrightarrow> \<not> loop_error fds B ps e"
  by (fastforce simp: loop_error_def read_error_def)

fun is_ready :: "poll_result \<Rightarrow> bool" where
  "is_ready (Poll_ready r revs) = True"
| "is_ready p = False"

text \<open>A result other than a timeout names a live watcher with a wanted bit.\<close>

fun honest :: "handler_map \<Rightarrow> poll_result list \<Rightarrow> reactor \<Rightarrow> bool" where
  "honest h [] st = True"
| "honest h (Poll_ready n revs # ps) st = (\<not> 0 < active st \<or>
     (\<exists>k<length revs. watchers st ! k \<noteq> - 1 \<and> wanted (revs ! k)) \<and>
     honest h ps (snd (reactor_loop h [Poll_ready n revs] st)))"
| "honest h (p # ps) st = (\<not> 0 < active st \<or> honest h ps (snd (reactor_loop h [p] st)))"

lemma turn_ok:
  assumes ok: "reactor_ok h fds B st" and h: "handlers_ok h fds" and fits: "poll_fills (length fds) p" and act: "0 < active st"
  shows "\<exists>e st'. reactor_loop h [p] st = (e, st') \<and>
    reactor_loop h (p # ps) st = (if e = None then reactor_loop h ps st' else (e, st')) \<and>
    reactor_ok h fds B st' \<and> (\<forall>x. e = Some x \<longrightarrow> loop_error fds B {p} x) \<and>
    (e = None \<longrightarrow> backlog fds st' \<le> backlog fds st \<and>
      (is_ready p \<longrightarrow> honest h (p # ps) st \<longrightarrow> backlog fds st' < backlog fds st) \<and>
      (honest h (p # ps) st \<longrightarrow> honest h ps st'))"
proof -
  let ?st1 = "st\<lparr>out := log_line [''[reactor] waiting on '', show_int (active st), '' active source(s)''] (out st)\<rparr>"
  have ok1: "reactor_ok h fds B ?st1" using ok h by (rule reactor_ok_log) (simp add: loop_lines_def)
  show ?thesis
  proof (cases p)
    case (Poll_failed err)
    with ok1 act show ?thesis
      by (intro exI [of _ "Some (Runtime_error (''poll failed: '' @ err))"] exI [of _ ?st1])
        (simp add: loop_error_def Let_def)
  next
    case Poll_timeout
    let ?st2 = "?st1\<lparr>out := log_line [''[reactor] idle tick''] (out ?st1)\<rparr>"
    have "reactor_ok h fds B ?st2" using ok1 h by (rule reactor_ok_log) (simp add: loop_lines_def)
    moreover have "backlog fds ?st2 = backlog fds st" by (simp only: backlog_log)
    moreover have "reactor_loop h [p] st = (None, ?st2)" "reactor_loop h (p # ps) st = reactor_loop h ps ?st2"
      using act Poll_timeout by (simp_all add: Let_def)
    ultimately show ?thesis using act Poll_timeout by (intro exI [of _ None] exI [of _ ?st2]) simp
  next
    case (Poll_ready n revs)
    define st2 where "st2 = ?st1\<lparr>out := log_line [''[reactor] poll returned '', show_int n, '' ready descriptor(s)''] (out ?st1)\<rparr>"
    have ok2: "reactor_ok h fds B st2"
      unfolding st2_def using ok1 h by (rule reactor_ok_log) (simp add: loop_lines_def)
    have bl: "backlog fds st2 = backlog fds st" unfolding st2_def by (simp only: backlog_log)
    have w: "watchers st2 = watchers st" unfolding st2_def by simp
    from dispatch_all_ok [OF ok2 h, of 0 revs] fits Poll_ready obtain e st' where
      d: "dispatch_all h 0 revs st2 = (e, st')" "reactor_ok h fds B st'" "\<forall>x. e = Some x \<longrightarrow> read_error fds B x"
        "e = None \<longrightarrow> backlog fds st' \<le> backlog fds st2 \<and>
          (\<forall>k<length revs. watchers st2 ! k \<noteq> - 1 \<and> wanted (revs ! k) \<longrightarrow> backlog fds st' < backlog fds st2)" by auto
    have "reactor_loop h [p] st = (e, st')"
      "reactor_loop h (p # ps) st = (if e = None then reactor_loop h ps st' else (e, st'))"
      using act Poll_ready d(1) unfolding st2_def by (simp_all add: Let_def split: option.split)
    with d bl w act Poll_ready show ?thesis
      by (intro exI [of _ e] exI [of _ st']) (auto simp: loop_error_def)
  qed
qed

lemma loop_ok:
  assumes "reactor_ok h fds B st" and "handlers_ok h fds" and "\<forall>p\<in>set ps. poll_fills (length fds) p"
  shows "\<exists>e st'. reactor_loop h ps st = (e, st') \<and> reactor_ok h fds B st' \<and>
    (\<forall>x. e = Some x \<longrightarrow> loop_error fds B (set ps) x)"
  using assms
proof (induction ps arbitrary: st)
  case (Cons p ps)
  show ?case
  proof (cases "0 < active st")
    case True
    from turn_ok [OF Cons.prems(1,2) _ True, of p ps] Cons.prems(3) obtain e st1 where
      t: "reactor_loop h (p # ps) st = (if e = None then reactor_loop h ps st1 else (e, st1))"
        "reactor_ok h fds B st1" "\<forall>x. e = Some x \<longrightarrow> loop_error fds B {p} x" by auto
    show ?thesis
    proof (cases e)
      case None
      from Cons.IH [OF t(2) Cons.prems(2)] Cons.prems(3) obtain e' st' where
        "reactor_loop h ps st1 = (e', st')" "reactor_ok h fds B st'" "\<forall>x. e' = Some x \<longrightarrow> loop_error fds B (set ps) x"
        by auto
      with t(1) None show ?thesis by (auto simp: loop_error_def)
    next
      case (Some x)
      with t show ?thesis by (auto simp: loop_error_def)
    qed
  next
    case False
    with Cons.prems show ?thesis by simp
  qed
qed simp

lemma backlog_active:
  assumes "reactor_ok h fds B st" and "backlog fds st = 0"
  shows "active st = 0"
proof -
  have len: "length (watchers st) = length fds" and act: "active st = sum_list (map (\<lambda>w. of_bool (w \<noteq> - 1)) (watchers st))"
    using assms(1) by (simp_all add: reactor_ok_def watch_ok_def)
  have "watchers st ! i = - 1" if "i < length fds" for i
    using assms(2) that by (auto simp: backlog_def split: if_splits)
  with len have "\<forall>w\<in>set (watchers st). w = - 1" by (auto simp: in_set_conv_nth)
  then have "map (\<lambda>w. of_bool (w \<noteq> - 1)) (watchers st) = map (\<lambda>_. 0 :: int) (watchers st)"
    by (intro map_cong) auto
  with act show ?thesis by simp
qed

lemma sum_of_bool_filter: "(\<Sum>w\<leftarrow>ws. of_bool (w \<noteq> - 1)) = int (length (filter (\<lambda>w. w \<noteq> - 1) (ws :: int list)))"
  by (induction ws) simp_all

lemma loop_ends:
  assumes "reactor_ok h fds B st" and "handlers_ok h fds" and "\<forall>fd\<in>set fds. snd (B fd) = None"
    and "\<forall>p\<in>set ps. poll_fits (length fds) p"
    and "honest h ps st" and "backlog fds st \<le> length (filter is_ready ps)"
  shows "active (snd (reactor_loop h ps st)) = 0"
  using assms
proof (induction ps arbitrary: st)
  case Nil
  then show ?case using backlog_active by simp
next
  case (Cons p ps)
  show ?case
  proof (cases "0 < active st")
    case True
    have p: "poll_fits (length fds) p" using Cons.prems(4) by simp
    from turn_ok [OF Cons.prems(1,2) _ True, of p ps] poll_fits_fills [OF p] Cons.prems(5) obtain e st' where
      t: "reactor_loop h (p # ps) st = (if e = None then reactor_loop h ps st' else (e, st'))" "reactor_ok h fds B st'"
        "\<forall>x. e = Some x \<longrightarrow> loop_error fds B {p} x"
        "e = None \<longrightarrow> backlog fds st' \<le> backlog fds st \<and> (is_ready p \<longrightarrow> backlog fds st' < backlog fds st) \<and> honest h ps st'"
      by auto
    have e: "e = None"
      using t(3) no_loop_error [of "{p}" "length fds" fds B] p Cons.prems(3) by (cases e) auto
    have "backlog fds st' \<le> length (filter is_ready ps)"
      using Cons.prems(6) t(4) e by (cases "is_ready p") auto
    with Cons.IH [OF t(2) Cons.prems(2,3)] Cons.prems(4) t(1,4) e show ?thesis by simp
  next
    case False
    moreover have "0 \<le> (\<Sum>w\<leftarrow>ws. of_bool (w \<noteq> - 1) :: int)" for ws :: "int list"
      by (induction ws) simp_all
    then have "0 \<le> active st" using Cons.prems(1) by (simp add: reactor_ok_def watch_ok_def)
    ultimately show ?thesis by simp
  qed
qed

section \<open>The program\<close>

lemma is_from_literal: "is_from a l \<longleftrightarrow> (\<exists>m. l = from_source a [] @ m)"
proof
  assume "is_from a l"
  then have "l = from_source a [] @ drop (length (from_source a [])) l"
    unfolding is_from_def by (metis append_take_drop_id)
  then show "\<exists>m. l = from_source a [] @ m" by blast
qed (auto simp: is_from_def)

lemma reactor_handlers_ok:
  assumes "api \<noteq> metrics" and "api \<noteq> - 1" and "metrics \<noteq> - 1"
  shows "handlers_ok (reactor_handlers api metrics) [api, metrics]"
proof -
  have "unmistakable ''api-handler''" "unmistakable ''metrics-handler''"
    by (simp_all add: unmistakable_def loop_lines_def is_from_literal from_source_def)
  moreover have "separate ''api-handler'' ''metrics-handler''" "separate ''metrics-handler'' ''api-handler''"
    by (simp_all add: separate_def is_from_literal from_source_def)
  ultimately show ?thesis
    using assms by (simp add: handlers_ok_def reactor_handlers_def)
qed

lemma reactor_init_ok:
  assumes "api \<noteq> metrics" and "api \<noteq> - 1" and "metrics \<noteq> - 1" and "closes k = []"
  shows "reactor_ok (reactor_handlers api metrics) [api, metrics] ((\<lambda>_. ([], None))(api := s1, metrics := s2))
    (reactor_init api metrics s1 s2 k)"
proof -
  have "\<not> is_from ''api-handler'' ''Reactor example: one loop dispatches multiple event sources.''"
    "\<not> is_from ''metrics-handler'' ''Reactor example: one loop dispatches multiple event sources.''"
    by (simp_all add: is_from_literal from_source_def)
  with assms show ?thesis
    by (auto simp: reactor_ok_def watch_ok_def source_ok_def reactor_init_def reactor_handlers_def source_lines_def
        log_line_def Let_def less_Suc_eq numeral_2_eq_2)
qed

text \<open>
  What a handler is to print of a stream, said without the handler: the pieces between line
  breaks, in order; after the last line break what is left, unless it is empty, and the end of
  file, if the stream comes to one.
\<close>

fun split_lines :: "string \<Rightarrow> string list" where
  "split_lines [] = [[]]"
| "split_lines (ch # bs) = (if ch = newline then [] # split_lines bs
     else (ch # hd (split_lines bs)) # tl (split_lines bs))"

definition delivered :: "string \<Rightarrow> stream \<Rightarrow> console" where
  "delivered name s = (let ls = split_lines (fst s) in map (from_source name) (butlast ls) @
     (if snd s = None then (if last ls = [] then [] else [from_source name (last ls)]) @ [from_source name ''EOF'']
      else []))"

lemma split_lines_nonempty [simp]: "split_lines bs \<noteq> []"
  by (cases bs) simp_all

lemma stream_shows_split:
  "stream_shows name msg bs final =
   (let ls = (msg @ hd (split_lines bs)) # tl (split_lines bs) in map (from_source name) (butlast ls) @
     (if final = None then (if last ls = [] then [] else [from_source name (last ls)]) @ [from_source name ''EOF'']
      else []))"
proof (induction bs arbitrary: msg)
  case (Cons ch bs)
  obtain l ls where "split_lines bs = l # ls" by (cases "split_lines bs") simp_all
  with Cons show ?case by (simp add: Let_def)
qed (simp add: Let_def)

lemma stream_shows_delivered: "stream_shows name [] (fst s) (snd s) = delivered name s"
  by (simp add: stream_shows_split delivered_def Let_def)

text \<open>A stream of whole messages, each ended by a line break, gives the lines of the messages, one per
  message if no payload has a line break of its own, and one for the end of file.\<close>

lemma split_lines_append:
  "split_lines (payload @ newline # bs) = split_lines payload @ split_lines bs"
  by (induction payload) simp_all

lemma split_lines_single: "newline \<notin> set payload \<Longrightarrow> split_lines payload = [payload]"
  by (induction payload) auto

lemma count_newline: "count_list bs newline + 1 = length (split_lines bs)"
proof (induction bs)
  case (Cons ch bs)
  then show ?case by (cases "split_lines bs") simp_all
qed simp

definition message_lines :: "string list \<Rightarrow> string list" where
  "message_lines ps = concat (map split_lines ps)"

lemma split_lines_frames: "split_lines (frames events) = message_lines (map snd events) @ [[]]"
  by (induction events) (simp_all add: frames_def message_lines_def split_lines_append)

lemma delivered_frames:
  "delivered name (frames events, None) =
   map (from_source name) (message_lines (map snd events)) @ [from_source name ''EOF'']"
  by (simp add: delivered_def split_lines_frames)

lemma message_lines_single: "\<forall>p\<in>set ps. newline \<notin> set p \<Longrightarrow> message_lines ps = ps"
  by (induction ps) (simp_all add: message_lines_def split_lines_single)

lemma stream_lines_messages:
  "stream_lines name [] (frames events) =
   map (from_source name) (message_lines (map snd events)) @ [from_source name ''EOF'']"
  using stream_shows_delivered [of name "(frames events, None)"] by (simp add: delivered_frames)

lemma count_frames: "count_list (frames events) newline = length (message_lines (map snd events))"
  using count_newline [of "frames events"] by (simp add: split_lines_frames)

lemma main_loop_any:
  assumes "api \<noteq> metrics" and "api \<noteq> - 1" and "metrics \<noteq> - 1" and "closes k = []" and "\<forall>p\<in>set ps. poll_fills 2 p"
  shows "\<exists>e st. reactor_loop (reactor_handlers api metrics) ps (reactor_init api metrics s1 s2 k) = (e, st) \<and>
    reactor_ok (reactor_handlers api metrics) [api, metrics] ((\<lambda>_. ([], None))(api := s1, metrics := s2)) st \<and>
    (\<forall>x. e = Some x \<longrightarrow> loop_error [api, metrics] ((\<lambda>_. ([], None))(api := s1, metrics := s2)) (set ps) x) \<and>
    active st = int (length (filter (\<lambda>w. w \<noteq> - 1) (watchers st))) \<and>
    (active st = 0 \<longrightarrow> (\<forall>i<2. watchers st ! i = - 1))"
proof -
  have fits: "\<forall>p\<in>set ps. poll_fills (length [api, metrics]) p"
    using assms(5) by (simp add: numeral_2_eq_2)
  obtain e st where run: "reactor_loop (reactor_handlers api metrics) ps (reactor_init api metrics s1 s2 k) = (e, st)"
    and ok: "reactor_ok (reactor_handlers api metrics) [api, metrics] ((\<lambda>_. ([], None))(api := s1, metrics := s2)) st"
    and err: "\<forall>x. e = Some x \<longrightarrow> loop_error [api, metrics] ((\<lambda>_. ([], None))(api := s1, metrics := s2)) (set ps) x"
    using loop_ok [OF reactor_init_ok [OF assms(1-4)] reactor_handlers_ok [OF assms(1-3)] fits] by blast
  have act: "active st = int (length (filter (\<lambda>w. w \<noteq> - 1) (watchers st)))"
    using ok sum_of_bool_filter [of "watchers st"] by (simp add: reactor_ok_def watch_ok_def)
  moreover have "watchers st ! i = - 1" if "active st = 0" "i < 2" for i
  proof -
    have "filter (\<lambda>w. w \<noteq> - 1) (watchers st) = []" using act that(1) by simp
    moreover have "length (watchers st) = 2" using ok by (simp add: reactor_ok_def watch_ok_def)
    ultimately show ?thesis using that(2) by (simp add: filter_empty_conv)
  qed
  ultimately show ?thesis using run ok err by blast
qed

lemma main_loop:
  assumes "api \<noteq> metrics" and "api \<noteq> - 1" and "metrics \<noteq> - 1" and "closes k = []" and "\<forall>p\<in>set ps. poll_fits 2 p"
  shows "\<exists>st. reactor_loop (reactor_handlers api metrics) ps
      (reactor_init api metrics (b1, None) (b2, None) k) = (None, st) \<and>
    reactor_ok (reactor_handlers api metrics) [api, metrics]
      ((\<lambda>_. ([], None))(api := (b1, None), metrics := (b2, None))) st \<and>
    (active st = 0 \<longrightarrow> (\<forall>i<2. watchers st ! i = - 1))"
proof -
  let ?B = "(\<lambda>_. ([], None))(api := (b1, None), metrics := (b2, None))"
  have fills: "\<forall>p\<in>set ps. poll_fills 2 p" using assms(5) poll_fits_fills by blast
  obtain e st where run: "reactor_loop (reactor_handlers api metrics) ps
      (reactor_init api metrics (b1, None) (b2, None) k) = (e, st)"
    and ok: "reactor_ok (reactor_handlers api metrics) [api, metrics] ?B st"
    and err: "\<forall>x. e = Some x \<longrightarrow> loop_error [api, metrics] ?B (set ps) x"
    and ended: "active st = 0 \<longrightarrow> (\<forall>i<2. watchers st ! i = - 1)"
    using main_loop_any [OF assms(1-4) fills, of "(b1, None)" "(b2, None)"] by blast
  have "\<not> loop_error [api, metrics] ?B (set ps) x" for x
    using assms(5) by (intro no_loop_error) auto
  with err have "e = None" by (cases e) blast+
  with run ok ended show ?thesis by blast
qed

text \<open>Single bits of a mask.\<close>

lemma and_bit: "a AND 2 ^ n = (if bit a n then 2 ^ n else (0 :: 16 word))"
  by (rule bit_eqI) (auto simp: bit_and_iff bit_exp_iff)

lemma flags_as_bits:
  "a AND POLLIN = (if bit a 0 then POLLIN else 0)" "a AND POLLHUP = (if bit a 4 then POLLHUP else 0)"
  "a AND POLLERR = (if bit a 3 then POLLERR else 0)"
  using and_bit [of a 0] and_bit [of a 4] and_bit [of a 3] by (simp_all add: POLLIN_def POLLHUP_def POLLERR_def)

lemma mask_as_bits:
  "a AND (POLLIN OR POLLHUP OR POLLERR) = b AND (POLLIN OR POLLHUP OR POLLERR) \<longleftrightarrow>
   (bit a 0 \<longleftrightarrow> bit b 0) \<and> (bit a 4 \<longleftrightarrow> bit b 4) \<and> (bit a 3 \<longleftrightarrow> bit b 3)"
proof -
  have "bit POLLIN n \<longleftrightarrow> n = 0" "bit POLLHUP n \<longleftrightarrow> n = 4" "bit POLLERR n \<longleftrightarrow> n = 3" for n
    using bit_exp_iff [of 0 n, where ?'a = "16 word"] bit_exp_iff [of 4 n, where ?'a = "16 word"]
      bit_exp_iff [of 3 n, where ?'a = "16 word"]
    by (auto simp: POLLIN_def POLLHUP_def POLLERR_def)
  then have "bit (POLLIN OR POLLHUP OR POLLERR) n \<longleftrightarrow> n = 0 \<or> n = 3 \<or> n = 4" for n
    by (auto simp: bit_or_iff)
  then have flags: "bit (x AND (POLLIN OR POLLHUP OR POLLERR)) n \<longleftrightarrow> bit x n \<and> (n = 0 \<or> n = 3 \<or> n = 4)" for x n
    by (simp add: bit_and_iff)
  show ?thesis
  proof
    assume eq: "a AND (POLLIN OR POLLHUP OR POLLERR) = b AND (POLLIN OR POLLHUP OR POLLERR)"
    have "bit a n \<longleftrightarrow> bit b n" if "n = 0 \<or> n = 3 \<or> n = 4" for n
      using that flags [of a n] flags [of b n] unfolding eq by blast
    then show "(bit a 0 \<longleftrightarrow> bit b 0) \<and> (bit a 4 \<longleftrightarrow> bit b 4) \<and> (bit a 3 \<longleftrightarrow> bit b 3)" by blast
  qed (auto intro!: bit_word_eqI simp: flags)
qed

lemma wanted_as_bits: "wanted a \<longleftrightarrow> bit a 0 \<or> bit a 4 \<or> bit a 3"
  using mask_as_bits [of a 0] by (auto simp: wanted_def)

section \<open>Properties\<close>

text \<open>C13. Delivery. Each pipe gives any bytes and then the end of file or a failing \<^verbatim>\<open>read\<close>; \<^verbatim>\<open>poll\<close>
  may report anything for the two watchers, time out or fail, in any order. Then the loop throws
  only \<^verbatim>\<open>poll failed\<close> after a failed \<^verbatim>\<open>poll\<close> or \<^verbatim>\<open>read failed\<close> with the error of a pipe whose read
  fails (no handler is ever missing); its counter is the number of watchers not yet retired; what
  each handler has printed is a beginning of what its pipe holds: the pieces between line breaks in
  order, nothing lost or duplicated, then the unfinished piece and the end of file if it came to
  one; and when the counter is 0 it is all of it. For a pipe that holds what a source sends, each
  payload with a line break, those are the lines of the payloads and the end of file.\<close>

theorem reactor_delivers:
  assumes "api \<noteq> metrics" and "api \<noteq> - 1" and "metrics \<noteq> - 1" and "closes k = []" and "\<forall>p\<in>set ps. poll_fills 2 p"
  shows "(\<exists>e st. reactor_loop (reactor_handlers api metrics) ps (reactor_init api metrics s1 s2 k) = (e, st) \<and>
      (\<forall>x. e = Some x \<longrightarrow> (\<exists>err. Poll_failed err \<in> set ps \<and> x = Runtime_error (''poll failed: '' @ err)) \<or>
        (\<exists>err. (snd s1 = Some err \<or> snd s2 = Some err) \<and> x = Runtime_error (''read failed: '' @ err))) \<and>
      active st = int (length (filter (\<lambda>w. w \<noteq> - 1) (watchers st))) \<and>
      (\<exists>rest. source_lines ''api-handler'' (out st) @ rest = delivered ''api-handler'' s1 \<and>
        (active st = 0 \<longrightarrow> rest = [])) \<and>
      (\<exists>rest. source_lines ''metrics-handler'' (out st) @ rest = delivered ''metrics-handler'' s2 \<and>
        (active st = 0 \<longrightarrow> rest = []))) \<and>
    (\<forall>name events. delivered name (frames events, None) =
      map (from_source name) (message_lines (map snd events)) @ [from_source name ''EOF''])"
proof (rule conjI)
  let ?B = "(\<lambda>_. ([], None))(api := s1, metrics := s2)"
  obtain e st where run: "reactor_loop (reactor_handlers api metrics) ps (reactor_init api metrics s1 s2 k) = (e, st)"
    and ok: "reactor_ok (reactor_handlers api metrics) [api, metrics] ?B st"
    and err: "\<forall>x. e = Some x \<longrightarrow> loop_error [api, metrics] ?B (set ps) x"
    and act: "active st = int (length (filter (\<lambda>w. w \<noteq> - 1) (watchers st)))"
    and none: "active st = 0 \<longrightarrow> (\<forall>i<2. watchers st ! i = - 1)"
    using main_loop_any [OF assms, of s1 s2] by blast
  have errs: "\<forall>x. e = Some x \<longrightarrow> (\<exists>err. Poll_failed err \<in> set ps \<and> x = Runtime_error (''poll failed: '' @ err)) \<or>
      (\<exists>err. (snd s1 = Some err \<or> snd s2 = Some err) \<and> x = Runtime_error (''read failed: '' @ err))"
    using err assms(1) unfolding loop_error_def read_error_def by auto
  from ok have "source_ok (reactor_handlers api metrics) [api, metrics] ?B st 0"
    "source_ok (reactor_handlers api metrics) [api, metrics] ?B st 1" by (simp_all add: reactor_ok_def)
  with assms(1) have
    1: "source_lines ''api-handler'' (out st) @ (if watchers st ! 0 = - 1 then []
        else stream_shows ''api-handler'' [] (fst (streams st api)) (snd s1)) = delivered ''api-handler'' s1"
    and 2: "source_lines ''metrics-handler'' (out st) @ (if watchers st ! 1 = - 1 then []
        else stream_shows ''metrics-handler'' [] (fst (streams st metrics)) (snd s2)) = delivered ''metrics-handler'' s2"
    using assms(1) [symmetric]
    by (simp_all add: source_ok_def reactor_handlers_def stream_shows_delivered Let_def cong: if_cong)
  from none have z: "active st = 0 \<longrightarrow> watchers st ! 0 = - 1 \<and> watchers st ! 1 = - 1" by simp
  show "\<exists>e st. reactor_loop (reactor_handlers api metrics) ps (reactor_init api metrics s1 s2 k) = (e, st) \<and>
      (\<forall>x. e = Some x \<longrightarrow> (\<exists>err. Poll_failed err \<in> set ps \<and> x = Runtime_error (''poll failed: '' @ err)) \<or>
        (\<exists>err. (snd s1 = Some err \<or> snd s2 = Some err) \<and> x = Runtime_error (''read failed: '' @ err))) \<and>
      active st = int (length (filter (\<lambda>w. w \<noteq> - 1) (watchers st))) \<and>
      (\<exists>rest. source_lines ''api-handler'' (out st) @ rest = delivered ''api-handler'' s1 \<and>
        (active st = 0 \<longrightarrow> rest = [])) \<and>
      (\<exists>rest. source_lines ''metrics-handler'' (out st) @ rest = delivered ''metrics-handler'' s2 \<and>
        (active st = 0 \<longrightarrow> rest = []))"
    by (rule exI [of _ e], rule exI [of _ st], intro conjI, rule run, rule errs, rule act)
      (rule exI, rule conjI [OF 1], use z in simp, rule exI, rule conjI [OF 2], use z in simp)
qed (simp add: delivered_frames)

text \<open>The loop ends: once \<^verbatim>\<open>poll\<close> has reported a live watcher as many times as there are
  messages and sources, every watcher has been retired.\<close>

lemma loop_retires:
  assumes "api \<noteq> metrics" and "api \<noteq> - 1" and "metrics \<noteq> - 1" and "closes k = []"
    and "\<forall>p\<in>set ps. poll_fits 2 p"
    and "honest (reactor_handlers api metrics) ps (reactor_init api metrics (frames e1, None) (frames e2, None) k)"
    and "\<forall>e\<in>set e1 \<union> set e2. newline \<notin> set (snd e)"
    and "length e1 + length e2 + 2 \<le> length (filter is_ready ps)"
  shows "active (snd (reactor_loop (reactor_handlers api metrics) ps
    (reactor_init api metrics (frames e1, None) (frames e2, None) k))) = 0"
proof (rule loop_ends [OF reactor_init_ok [OF assms(1-4)] reactor_handlers_ok [OF assms(1-3)] _ _ assms(6)])
  have "message_lines (map snd e1) = map snd e1" "message_lines (map snd e2) = map snd e2"
    using assms(7) by (auto intro!: message_lines_single)
  then have "backlog [api, metrics] (reactor_init api metrics (frames e1, None) (frames e2, None) k) = length e1 + length e2 + 2"
    using assms(1-3,7) by (simp add: backlog_def reactor_init_def numeral_2_eq_2 count_frames)
  with assms(8) show "backlog [api, metrics] (reactor_init api metrics (frames e1, None) (frames e2, None) k)
    \<le> length (filter is_ready ps)" by simp
qed (use assms(5) in \<open>auto simp: numeral_2_eq_2\<close>)

text \<open>Each read end is closed twice: when the loop has ended it has closed both with a bare
  \<^verbatim>\<open>close\<close>, and the \<^verbatim>\<open>UniqueFd\<close> members that still hold the numbers close them again when
  \<^verbatim>\<open>main\<close> returns, by which time the numbers may belong to something else.\<close>

lemma closed_twice:
  assumes "api \<noteq> metrics" and "api \<noteq> - 1" and "metrics \<noteq> - 1" and "closes k = []"
    and "\<forall>p\<in>set ps. poll_fits 2 p"
    and "reactor_loop (reactor_handlers api metrics) ps (reactor_init api metrics (b1, None) (b2, None) k) = (None, st)"
    and "active st = 0"
  shows "count_list (closes (kern st)) api = 1 \<and> count_list (closes (kern st)) metrics = 1 \<and>
    count_list (closes (main_exit api metrics st)) api = 2 \<and>
    count_list (closes (main_exit api metrics st)) metrics = 2"
proof -
  let ?B = "(\<lambda>_. ([], None))(api := (b1, None), metrics := (b2, None))"
  obtain st' where "reactor_loop (reactor_handlers api metrics) ps
      (reactor_init api metrics (b1, None) (b2, None) k) = (None, st')"
    and ok': "reactor_ok (reactor_handlers api metrics) [api, metrics] ?B st'"
    and none': "active st' = 0 \<longrightarrow> (\<forall>i<2. watchers st' ! i = - 1)"
    using main_loop [OF assms(1-5), where ?b1.0 = b1 and ?b2.0 = b2] by blast
  with assms(6) have "st' = st" by simp
  with ok' none' assms(7) have ok: "reactor_ok (reactor_handlers api metrics) [api, metrics] ?B st"
    and none: "\<forall>i<2. watchers st ! i = - 1" by simp_all
  from ok have "source_ok (reactor_handlers api metrics) [api, metrics] ?B st 0"
    "source_ok (reactor_handlers api metrics) [api, metrics] ?B st 1" by (simp_all add: reactor_ok_def)
  with none assms(1-3) show ?thesis
    by (simp add: source_ok_def Let_def main_exit_def fd_destroy_def fd_reset_def sys_close_def)
qed

text \<open>C14. The loop ends. The calls do not fail, no payload has a line break, and a \<^verbatim>\<open>poll\<close> that does not
  time out reports a live watcher. Then once it has done so as many times as there are
  messages and sources, every watcher has been retired. By then it has closed both read ends
  with a bare \<^verbatim>\<open>close\<close>, each once, and the \<^verbatim>\<open>UniqueFd\<close> members that still hold the numbers
  close them again when \<^verbatim>\<open>main\<close> returns, by which time the numbers may belong to something
  else.\<close>

theorem reactor_ends:
  assumes "api \<noteq> metrics" and "api \<noteq> - 1" and "metrics \<noteq> - 1" and "closes k = []"
    and "\<forall>p\<in>set ps. poll_fits 2 p"
    and "honest (reactor_handlers api metrics) ps (reactor_init api metrics (frames e1, None) (frames e2, None) k)"
    and "\<forall>e\<in>set e1 \<union> set e2. newline \<notin> set (snd e)"
    and "length e1 + length e2 + 2 \<le> length (filter is_ready ps)"
  shows "\<exists>st. reactor_loop (reactor_handlers api metrics) ps
      (reactor_init api metrics (frames e1, None) (frames e2, None) k) = (None, st) \<and> active st = 0 \<and>
    count_list (closes (kern st)) api = 1 \<and> count_list (closes (kern st)) metrics = 1 \<and>
    count_list (closes (main_exit api metrics st)) api = 2 \<and>
    count_list (closes (main_exit api metrics st)) metrics = 2"
proof -
  obtain st where run: "reactor_loop (reactor_handlers api metrics) ps
      (reactor_init api metrics (frames e1, None) (frames e2, None) k) = (None, st)"
    using main_loop [OF assms(1-5), where ?b1.0 = "frames e1" and ?b2.0 = "frames e2"] by blast
  moreover have "active st = 0" using loop_retires [OF assms] run by simp
  ultimately show ?thesis using closed_twice [OF assms(1-5)] by blast
qed

text \<open>\<^verbatim>\<open>write_message\<close> over short writes: the loop always ends, and a source that returns
  normally has put exactly its payloads, each with a line break, into the pipe, however the
  kernel splits the writes.\<close>

lemma source_writes_frames:
  "case simulate_source pipe_write err name events p con of
    None \<Rightarrow> False
  | Some (Inl e, p', con') \<Rightarrow> True
  | Some (Inr _, p', con') \<Rightarrow> buffer p' = buffer p @ frames events"
proof (cases "simulate_source pipe_write err name events p con")
  case None
  then show ?thesis using pipe.source_returns by blast
next
  case (Some r)
  obtain x p' con' where "r = (x, p', con')" by (cases r)
  with Some show ?thesis using pipe.source_sends [of err name events p con p' con'] by (cases x) simp_all
qed

text \<open>C17. \<^verbatim>\<open>UniqueFd\<close> owns exclusively. Take any sequence of constructions from a descriptor, move
  constructions, move assignments (also to itself), \<^verbatim>\<open>reset\<close> with any descriptor and destructions,
  while the program opens descriptors, also under numbers closed before. The one condition is
  that a descriptor given to a constructor or to \<^verbatim>\<open>reset\<close> is -1, or open and not owned at that
  moment (so not \<^verbatim>\<open>u.reset(u.get())\<close>). Then what the owners have is open and has one owner; each close
  is of a descriptor that is open (for each number, as many closes as openings, counting those open
  before and still open); and everything owned at the start or handed over is still owned or has
  been closed, once: no double close and no leak. When the remaining owners are destroyed exactly
  what they own is closed.\<close>

theorem unique_fd_sound:
  assumes "fold fd_step ops (fds, k) = (fds', k')" and "fds_valid ops (fds, k)" and "owns_ok fds k"
  shows "owns_ok fds' k' \<and> (\<exists>cs. closes k' = closes k @ cs \<and>
      (\<forall>fd. count_list cs fd + of_bool (fd \<in> open_fds k') = count_list (opened ops) fd + of_bool (fd \<in> open_fds k)) \<and>
      mset cs + mset (owned fds') = mset (owned fds) + mset (handed_over ops) \<and>
      closes (destroy_all UniqueFd (fds', k')) = closes k @ cs @ owned fds')"
proof -
  have end_all: "closes (destroy_all UniqueFd (fds', k')) = closes k' @ owned fds'"
    by (simp add: fds.end_releases owned_def)
  have "owns_ok fds' k'" "released_well (opened ops) (handed_over ops) (fds, k) (fds', k')"
    using fd_run_sound [of ops "(fds, k)"] assms by simp_all
  with end_all show ?thesis unfolding released_well_def fst_conv snd_conv by (metis append_assoc)
qed

text \<open>\<^verbatim>\<open>describe_revents\<close> tells exactly which of the three bits are set: two masks have
  the same text if and only if they agree on them, and the text is 0 if and only if the loop
  would skip the watcher.\<close>

lemma describe_revents_exact:
  "(describe_revents a = describe_revents b \<longleftrightarrow>
      a AND (POLLIN OR POLLHUP OR POLLERR) = b AND (POLLIN OR POLLHUP OR POLLERR)) \<and>
    (describe_revents a = ''0'' \<longleftrightarrow> \<not> wanted a)"
  unfolding mask_as_bits wanted_as_bits describe_revents_def append_flag_def flags_as_bits
  by (cases "bit a 0"; cases "bit a 4"; cases "bit a 3"; cases "bit b 0"; cases "bit b 4"; cases "bit b 3")
    (simp_all add: Let_def POLLIN_def POLLHUP_def POLLERR_def)

section \<open>Witnesses\<close>

text \<open>One message on each source: the loop idles once, then dispatches both, then both ends.\<close>

definition demo_kernel :: kernel where
  "demo_kernel = \<lparr>open_fds = {3, 4, 5, 6}, closes = []\<rparr>"

definition demo_polls :: "poll_result list" where
  "demo_polls = [Poll_ready 1 [0, POLLIN], Poll_timeout, Poll_ready 2 [POLLIN, POLLIN OR POLLHUP],
     Poll_ready 1 [POLLHUP, 0], Poll_ready 1 [POLLHUP, 0]]"

definition demo_reactor :: reactor where
  "demo_reactor = reactor_init 3 5 (frames [(20, ''GET /health'')], None) (frames [(35, ''flush'')], None) demo_kernel"

lemma demo_end_values:
  "case reactor_loop (reactor_handlers 3 5) demo_polls demo_reactor of (e, st) \<Rightarrow>
     (e, active st, watchers st, closes (kern st)) = (None, 0, [- 1, - 1], [5, 3])"
  by code_simp

lemma demo_honest: "honest (reactor_handlers 3 5) demo_polls demo_reactor"
  by code_simp

lemma demo_sides:
  "closes demo_kernel = []" "\<forall>p\<in>set demo_polls. poll_fits 2 p"
  "\<forall>e\<in>set [(20, ''GET /health'')] \<union> set [(35, ''flush'')]. newline \<notin> set (snd e)"
  by (simp_all add: demo_kernel_def demo_polls_def newline_def)

text \<open>The second poll of a run in which the metrics pipe fails after an unfinished message.\<close>

theorem reactor_delivers_witness:
  "(case reactor_loop (reactor_handlers 3 5) demo_polls demo_reactor of (e, st) \<Rightarrow>
     e = None \<and> source_lines ''api-handler'' (out st) = [''[reactor] api-handler -> GET /health'', ''[reactor] api-handler -> EOF'']) \<and>
   fst (reactor_loop (reactor_handlers 3 5) [Poll_timeout, Poll_ready 1 [0, POLLIN]]
     (reactor_init 3 5 ([], None) (''flu'', Some ''EIO'') demo_kernel)) = Some (Runtime_error ''read failed: EIO'')"
proof (rule conjI)
  have neq: "(3 :: int) \<noteq> 5" "(3 :: int) \<noteq> - 1" "(5 :: int) \<noteq> - 1" by simp_all
  have fills: "\<forall>p\<in>set demo_polls. poll_fills 2 p" using demo_sides(2) poll_fits_fills by blast
  obtain e st where st: "reactor_loop (reactor_handlers 3 5) demo_polls demo_reactor = (e, st)"
    and r: "\<exists>rest. source_lines ''api-handler'' (out st) @ rest = delivered ''api-handler'' (frames [(20, ''GET /health'')], None) \<and>
      (active st = 0 \<longrightarrow> rest = [])"
    using reactor_delivers [OF neq demo_sides(1) fills, of "(frames [(20, ''GET /health'')], None)"
        "(frames [(35, ''flush'')], None)", THEN conjunct1]
    unfolding demo_reactor_def by blast
  have "active st = 0" "e = None" using demo_end_values st by simp_all
  moreover have "message_lines [''GET /health''] = [''GET /health'']"
    by (intro message_lines_single) (simp add: newline_def)
  ultimately show "case reactor_loop (reactor_handlers 3 5) demo_polls demo_reactor of (e, st) \<Rightarrow> e = None \<and>
      source_lines ''api-handler'' (out st) = [''[reactor] api-handler -> GET /health'', ''[reactor] api-handler -> EOF'']"
    using r st by (simp add: delivered_frames from_source_def)
qed code_simp

theorem reactor_ends_witness:
  "\<exists>st. reactor_loop (reactor_handlers 3 5) demo_polls demo_reactor = (None, st) \<and> active st = 0 \<and>
     count_list (closes (main_exit 3 5 st)) 3 = 2"
proof -
  have len: "length [(20 :: int, ''GET /health'')] + length [(35 :: int, ''flush'')] + 2 \<le> length (filter is_ready demo_polls)"
    by (simp add: demo_polls_def)
  have "\<exists>st. reactor_loop (reactor_handlers 3 5) demo_polls demo_reactor = (None, st) \<and> active st = 0 \<and>
     count_list (closes (kern st)) 3 = 1 \<and> count_list (closes (kern st)) 5 = 1 \<and>
     count_list (closes (main_exit 3 5 st)) 3 = 2 \<and> count_list (closes (main_exit 3 5 st)) 5 = 2"
    unfolding demo_reactor_def
    by (rule reactor_ends [OF _ _ _ demo_sides(1,2) demo_honest [unfolded demo_reactor_def] demo_sides(3) len]) simp_all
  then show ?thesis by blast
qed

text \<open>The descriptor 7 is opened, taken over, and closed by a move; then its number is opened again and
  given to a \<^verbatim>\<open>reset\<close>.\<close>

definition demo_fd_ops :: "fd_op list" where
  "demo_fd_ops = [Fd_open 7, Fd_new 7, Fd_own (Move_new 0), Fd_own (Move_to 3 1), Fd_own (Move_to 2 2),
     Fd_reset 2 (- 1), Fd_open 7, Fd_reset 3 7]"

theorem unique_fd_sound_witness:
  "case fold fd_step demo_fd_ops ([3, 4], demo_kernel) of
     (fds, k) \<Rightarrow> owns_ok fds k \<and> fds = [-1, -1, -1, 7] \<and> closes k = [3, 7, 4]"
proof -
  have "case fold fd_step demo_fd_ops ([3, 4], demo_kernel) of
     (fds, k) \<Rightarrow> fds = [-1, -1, -1, 7] \<and> closes k = [3, 7, 4]"
    by (simp add: demo_fd_ops_def demo_kernel_def UniqueFd_def fd_move_def fd_move_assign_def fd_self_assign_def
        fd_reset_def fd_destroy_def sys_close_def)
  moreover have "fds_valid demo_fd_ops ([3, 4], demo_kernel)"
    by (simp add: demo_fd_ops_def demo_kernel_def UniqueFd_def fd_move_def fd_move_assign_def fd_self_assign_def
        fd_reset_def fd_destroy_def sys_close_def may_take_def owned_def fd_held_def)
  moreover have "owns_ok [3, 4] demo_kernel" by (simp add: owns_ok_def owned_def fd_held_def demo_kernel_def)
  ultimately show ?thesis
    using unique_fd_sound [of demo_fd_ops "[3, 4]" demo_kernel] by (cases "fold fd_step demo_fd_ops ([3, 4], demo_kernel)") auto
qed

end
