(* ===== verification/ReactorProgram.thy ===== *)
theory ReactorProgram
  imports Reactor
begin

text \<open>
  The whole program of \<^verbatim>\<open>examples/reactor/main.cpp\<close>: the two writer threads, the two pipes and the
  reactor, any of which may act next. Nothing is assumed of \<^verbatim>\<open>poll\<close> here: what it reports is
  computed from the pipes. A pipe holds at most \<open>cap\<close> bytes, a \<^verbatim>\<open>write\<close> takes any positive
  part of its data there is room for and waits if there is none, a \<^verbatim>\<open>read\<close> waits for a byte or
  the end of file, which comes when the writer's descriptor has been closed; the calls do not
  fail. Pipe \<open>i\<close> is written by writer \<open>i\<close> and read through watcher \<open>i\<close>.

  Proved: in every interleaving the program has no deadlock, ends after a bounded number of actions
  and idle ticks, and each handler has then printed the lines of the payloads of its source, in
  order and complete, and the end of file.
\<close>

section \<open>The writers\<close>

text \<open>Where a writer is: before an event, writing the rest of a payload, about to close, ended.\<close>

datatype writer_pc =
    Next_event "string list"
  | Writing string string "string list"
  | Closing
  | Closed

datatype reactor_pc =
    Spawn nat
  | Top
  | Polling
  | Scan nat "16 word list"
  | Reading nat string "16 word list"
  | Message nat string "16 word list"
  | Partial nat string "16 word list"
  | Eof nat "16 word list"
  | Retire nat "16 word list"
  | Close nat "16 word list"
  | Join nat
  | Over
  | Threw cpp_exn

record system =
  writer :: "nat \<Rightarrow> writer_pc"
  pipes :: "nat \<Rightarrow> string"
  watch :: "nat \<Rightarrow> int"
  active_sources :: int
  pc :: reactor_pc
  kern :: kernel
  cout :: console

definition source_name :: "nat \<Rightarrow> string" where
  "source_name i = (if i = 0 then ''api-source'' else ''metrics-source'')"

fun spawned :: "reactor_pc \<Rightarrow> nat \<Rightarrow> bool" where
  "spawned (Spawn k) i = (i < k)"
| "spawned _ i = True"

text \<open>One action of writer \<open>i\<close>; \<open>n\<close> is what the kernel takes when it writes.\<close>

definition writer_action :: "nat \<Rightarrow> nat \<Rightarrow> nat \<Rightarrow> system \<Rightarrow> system option" where
  "writer_action cap i n s = (if \<not> (i < 2 \<and> spawned (pc s) i) then None else
     case writer s i of
       Next_event [] \<Rightarrow> Some (s\<lparr>writer := (writer s)(i := Closing),
         cout := log_line [''['', source_name i, ''] writer done; fd closes via RAII''] (cout s)\<rparr>)
     | Next_event (payload # events) \<Rightarrow>
         Some (s\<lparr>writer := (writer s)(i := Writing payload (payload @ [newline]) events)\<rparr>)
     | Writing payload [] events \<Rightarrow> Some (s\<lparr>writer := (writer s)(i := Next_event events),
         cout := log_line [''['', source_name i, ''] emitted '', payload] (cout s)\<rparr>)
     | Writing payload data events \<Rightarrow>
         (if 0 < n \<and> n \<le> length data \<and> length (pipes s i) + n \<le> cap
          then Some (s\<lparr>writer := (writer s)(i := Writing payload (drop n data) events),
            pipes := (pipes s)(i := pipes s i @ take n data)\<rparr>)
          else None)
     | Closing \<Rightarrow> Some (s\<lparr>writer := (writer s)(i := Closed)\<rparr>)
     | Closed \<Rightarrow> None)"

section \<open>The reactor\<close>

definition poll_revents :: "system \<Rightarrow> nat \<Rightarrow> 16 word" where
  "poll_revents s i = (if watch s i = - 1 then 0
     else (if pipes s i = [] then 0 else POLLIN) OR (if writer s i = Closed then POLLHUP else 0))"

definition poll_ready :: "system \<Rightarrow> nat" where
  "poll_ready s = length (filter (\<lambda>i. poll_revents s i \<noteq> 0) [0, 1])"

text \<open>One action of \<^verbatim>\<open>main\<close>, each line it logs an action of its own.\<close>

definition main_action :: "int \<Rightarrow> int \<Rightarrow> system \<Rightarrow> system option" where
  "main_action api metrics s = (case pc s of
     Spawn k \<Rightarrow> Some (s\<lparr>pc := (if k = 0 then Spawn 1 else Top)\<rparr>)
   | Top \<Rightarrow> Some (if 0 < active_sources s then s\<lparr>pc := Polling,
         cout := log_line [''[reactor] waiting on '', show_int (active_sources s), '' active source(s)''] (cout s)\<rparr>
       else s\<lparr>pc := Join 0\<rparr>)
   | Polling \<Rightarrow> (if poll_ready s = 0 then None
       else Some (s\<lparr>pc := Scan 0 [poll_revents s 0, poll_revents s 1],
         cout := log_line [''[reactor] poll returned '', show_int (int (poll_ready s)), '' ready descriptor(s)''] (cout s)\<rparr>))
   | Scan i revs \<Rightarrow> Some (if 2 \<le> i then s\<lparr>pc := Top\<rparr>
       else if watch s i = - 1 \<or> \<not> wanted (revs ! i) then s\<lparr>pc := Scan (Suc i) revs\<rparr>
       else s\<lparr>pc := (case reactor_handlers api metrics (watch s i) of
             None \<Rightarrow> Threw (Out_of_range ''unordered_map::at'')
           | Some name \<Rightarrow> Reading i [] revs),
         cout := log_line [''[reactor] dispatch fd='', show_int (watch s i), '' revents='', describe_revents (revs ! i)] (cout s)\<rparr>)
   | Reading i msg revs \<Rightarrow> (case pipes s i of
       ch # rest \<Rightarrow> Some (s\<lparr>pipes := (pipes s)(i := rest),
         pc := (if ch = newline then Message i msg revs else Reading i (msg @ [ch]) revs)\<rparr>)
     | [] \<Rightarrow> if writer s i = Closed then Some (s\<lparr>pc := (if msg = [] then Eof i revs else Partial i msg revs)\<rparr>) else None)
   | Message i msg revs \<Rightarrow> Some (s\<lparr>pc := Scan (Suc i) revs,
       cout := log_line [from_source (the (reactor_handlers api metrics (watch s i))) msg] (cout s)\<rparr>)
   | Partial i msg revs \<Rightarrow> Some (s\<lparr>pc := Eof i revs,
       cout := log_line [from_source (the (reactor_handlers api metrics (watch s i))) msg] (cout s)\<rparr>)
   | Eof i revs \<Rightarrow> Some (s\<lparr>pc := Retire i revs,
       cout := log_line [from_source (the (reactor_handlers api metrics (watch s i))) ''EOF''] (cout s)\<rparr>)
   | Retire i revs \<Rightarrow> Some (s\<lparr>pc := Close i revs,
       cout := log_line [''[reactor] retiring fd='', show_int (watch s i)] (cout s)\<rparr>)
   | Close i revs \<Rightarrow> Some (s\<lparr>pc := Scan (Suc i) revs, kern := sys_close (watch s i) (kern s),
       watch := (watch s)(i := - 1), active_sources := active_sources s - 1\<rparr>)
   | Join i \<Rightarrow> (if 2 \<le> i then Some (s\<lparr>pc := Over,
         kern := fd_destroy api (fd_destroy (- 1) (fd_destroy metrics (fd_destroy (- 1) (kern s))))\<rparr>)
       else if writer s i = Closed then Some (s\<lparr>pc := Join (Suc i)\<rparr>) else None)
   | Over \<Rightarrow> None
   | Threw e \<Rightarrow> None)"

text \<open>The timeout of \<^verbatim>\<open>poll\<close>, when nothing is ready.\<close>

definition idle_tick :: "system \<Rightarrow> system option" where
  "idle_tick s = (if pc s = Polling \<and> poll_ready s = 0
     then Some (s\<lparr>pc := Top, cout := log_line [''[reactor] idle tick''] (cout s)\<rparr>) else None)"

datatype action = Main | Writer nat nat | Idle

fun system_step :: "int \<Rightarrow> int \<Rightarrow> nat \<Rightarrow> action \<Rightarrow> system \<Rightarrow> system option" where
  "system_step api metrics cap Main s = main_action api metrics s"
| "system_step api metrics cap (Writer i n) s = writer_action cap i n s"
| "system_step api metrics cap Idle s = idle_tick s"

fun system_run :: "int \<Rightarrow> int \<Rightarrow> nat \<Rightarrow> action list \<Rightarrow> system \<Rightarrow> system option" where
  "system_run api metrics cap [] s = Some s"
| "system_run api metrics cap (a # as) s =
     Option.bind (system_step api metrics cap a s) (system_run api metrics cap as)"

definition system_init :: "int \<Rightarrow> int \<Rightarrow> (nat \<Rightarrow> string list) \<Rightarrow> kernel \<Rightarrow> system" where
  "system_init api metrics evs k =
     \<lparr>writer = (\<lambda>i. Next_event (evs i)), pipes = (\<lambda>_. []), watch = (\<lambda>i. if i = 0 then api else metrics),
      active_sources = 2, pc = Spawn 0, kern = k,
      cout = log_line [''Reactor example: one loop dispatches multiple event sources.''] []\<rparr>"

section \<open>What is still to come\<close>

definition payload_frames :: "string list \<Rightarrow> string" where
  "payload_frames ps = concat (map (\<lambda>p. p @ [newline]) ps)"

lemma payload_frames_simps [simp]: "payload_frames [] = []"
    "payload_frames (p # ps) = p @ newline # payload_frames ps"
  by (simp_all add: payload_frames_def)

fun unwritten :: "writer_pc \<Rightarrow> string" where
  "unwritten (Next_event ps) = payload_frames ps"
| "unwritten (Writing p data ps) = data @ payload_frames ps"
| "unwritten _ = []"

definition to_come :: "system \<Rightarrow> nat \<Rightarrow> string" where
  "to_come s i = pipes s i @ unwritten (writer s i)"

definition handler_name :: "nat \<Rightarrow> string" where
  "handler_name i = (if i = 0 then ''api-handler'' else ''metrics-handler'')"

definition read_fd :: "int \<Rightarrow> int \<Rightarrow> nat \<Rightarrow> int" where
  "read_fd api metrics i = (if i = 0 then api else metrics)"

text \<open>The watcher whose handler \<^verbatim>\<open>main\<close> is in or has to retire; whether the handler has seen the end
  of file; and what is owed to the console for the bytes \<open>bs\<close> to come.\<close>

fun handling :: "reactor_pc \<Rightarrow> nat option" where
  "handling (Reading i msg revs) = Some i"
| "handling (Message i msg revs) = Some i"
| "handling (Partial i msg revs) = Some i"
| "handling (Eof i revs) = Some i"
| "handling (Retire i revs) = Some i"
| "handling (Close i revs) = Some i"
| "handling _ = None"

fun at_end :: "reactor_pc \<Rightarrow> bool" where
  "at_end (Partial i msg revs) = True"
| "at_end (Eof i revs) = True"
| "at_end (Retire i revs) = True"
| "at_end (Close i revs) = True"
| "at_end _ = False"

fun owed :: "reactor_pc \<Rightarrow> string \<Rightarrow> string \<Rightarrow> string list" where
  "owed (Reading i msg revs) name bs = stream_lines name msg bs"
| "owed (Message i msg revs) name bs = from_source name msg # stream_lines name [] bs"
| "owed (Partial i msg revs) name bs = [from_source name msg, from_source name ''EOF'']"
| "owed (Eof i revs) name bs = [from_source name ''EOF'']"
| "owed _ name bs = []"

definition pending_lines :: "system \<Rightarrow> nat \<Rightarrow> string list" where
  "pending_lines s i = (if handling (pc s) = Some i then owed (pc s) (handler_name i) (to_come s i)
     else if watch s i = - 1 then [] else stream_lines (handler_name i) [] (to_come s i))"

section \<open>The invariant\<close>

definition source_good :: "int \<Rightarrow> int \<Rightarrow> (nat \<Rightarrow> string) \<Rightarrow> system \<Rightarrow> nat \<Rightarrow> bool" where
  "source_good api metrics B s i \<longleftrightarrow>
     source_lines (handler_name i) (cout s) @ pending_lines s i = stream_lines (handler_name i) [] (B i) \<and>
     (watch s i = - 1 \<or> watch s i = read_fd api metrics i) \<and>
     (handling (pc s) = Some i \<longrightarrow> watch s i \<noteq> - 1) \<and>
     (watch s i = - 1 \<or> handling (pc s) = Some i \<and> at_end (pc s) \<longrightarrow> to_come s i = [] \<and> writer s i = Closed)"

fun pc_good :: "reactor_pc \<Rightarrow> system \<Rightarrow> bool" where
  "pc_good (Spawn k) s = (k \<le> 1)"
| "pc_good (Join k) s = (watch s 0 = - 1 \<and> watch s 1 = - 1)"
| "pc_good Over s = (watch s 0 = - 1 \<and> watch s 1 = - 1)"
| "pc_good Polling s = (watch s 0 \<noteq> - 1 \<or> watch s 1 \<noteq> - 1)"
| "pc_good (Threw e) s = False"
| "pc_good p s = (\<forall>i. handling p = Some i \<longrightarrow> i < 2)"

definition system_good :: "int \<Rightarrow> int \<Rightarrow> (nat \<Rightarrow> string) \<Rightarrow> system \<Rightarrow> bool" where
  "system_good api metrics B s \<longleftrightarrow> (\<forall>i<2. source_good api metrics B s i) \<and>
     active_sources s = of_bool (watch s 0 \<noteq> - 1) + of_bool (watch s 1 \<noteq> - 1) \<and> pc_good (pc s) s"

text \<open>The lines of the two handlers are told apart from each other and from all others.\<close>

lemma two_cases: "i < 2 \<longleftrightarrow> i = 0 \<or> i = (1 :: nat)"
  by auto

lemma not_from:
  "\<not> is_from (handler_name i) (''[reactor] waiting on '' @ x)"
  "\<not> is_from (handler_name i) (''[reactor] poll returned '' @ x)"
  "\<not> is_from (handler_name i) (''[reactor] dispatch fd='' @ x)"
  "\<not> is_from (handler_name i) (''[reactor] retiring fd='' @ x)"
  "\<not> is_from (handler_name i) ''[reactor] idle tick''"
  "\<not> is_from (handler_name i) (CHR ''['' # source_name j @ x)"
  "\<not> is_from (handler_name i) ''Reactor example: one loop dispatches multiple event sources.''"
  by (simp_all add: is_from_def from_source_def handler_name_def source_name_def)

lemmas not_from_Cons [simp] = not_from [simplified append_Cons append_Nil]

lemma from_handler [simp]:
  "i < 2 \<Longrightarrow> j < 2 \<Longrightarrow> is_from (handler_name i) (from_source (handler_name j) msg) \<longleftrightarrow> i = j"
  by (auto simp: two_cases is_from_def from_source_def handler_name_def)

lemma source_lines_snoc [simp]:
  "source_lines name (con @ [l]) = source_lines name con @ (if is_from name l then [l] else [])"
  by (simp add: source_lines_def)

lemma handler_found:
  "api \<noteq> metrics \<Longrightarrow> i < 2 \<Longrightarrow> reactor_handlers api metrics (read_fd api metrics i) = Some (handler_name i)"
  by (auto simp: two_cases reactor_handlers_def read_fd_def handler_name_def)

section \<open>Actions keep the invariant\<close>

lemma writer_action_frame:
  assumes "writer_action cap t n s = Some s'"
  shows "to_come s' = to_come s \<and> watch s' = watch s \<and> pc s' = pc s \<and> active_sources s' = active_sources s \<and>
    source_lines (handler_name i) (cout s') = source_lines (handler_name i) (cout s) \<and>
    (writer s i = Closed \<longrightarrow> writer s' i = Closed)"
proof (cases "writer s t")
  case (Next_event ps)
  with assms show ?thesis
    by (cases ps) (auto simp: writer_action_def to_come_def log_line_def fun_eq_iff split: if_splits)
next
  case (Writing payload data ps)
  show ?thesis
  proof (cases data)
    case Nil
    with Writing assms show ?thesis
      by (auto simp: writer_action_def to_come_def log_line_def fun_eq_iff split: if_splits)
  next
    case (Cons c cs)
    then have "take n data @ drop n data @ payload_frames ps = data @ payload_frames ps"
      by (simp only: append_assoc [symmetric] append_take_drop_id)
    with Writing Cons assms show ?thesis
      by (auto simp: writer_action_def to_come_def fun_eq_iff split: if_splits)
  qed
next
  case Closing
  with assms show ?thesis by (auto simp: writer_action_def to_come_def fun_eq_iff split: if_splits)
next
  case Closed
  with assms show ?thesis by (auto simp: writer_action_def split: if_splits)
qed

lemma pc_good_cong: "pc s' = pc s \<Longrightarrow> watch s' = watch s \<Longrightarrow> pc_good p s' = pc_good p s"
  by (cases p) simp_all

lemma writer_action_good:
  assumes "system_good api metrics B s" and "writer_action cap t n s = Some s'"
  shows "system_good api metrics B s'"
proof -
  note f = writer_action_frame [OF assms(2)]
  then have w: "to_come s' = to_come s" "watch s' = watch s" "pc s' = pc s" "active_sources s' = active_sources s"
    by simp_all
  have "source_good api metrics B s' i" if "i < 2" for i
    using assms(1) f [of i] that by (auto simp: system_good_def source_good_def pending_lines_def w)
  with assms(1) w pc_good_cong [OF w(3,2)] show ?thesis by (simp add: system_good_def)
qed

lemma source_good_other:
  assumes "handling (pc s) \<noteq> Some j" "handling (pc s') \<noteq> Some j" "pipes s' j = pipes s j" "writer s' = writer s"
    "watch s' j = watch s j" "source_lines (handler_name j) (cout s') = source_lines (handler_name j) (cout s)"
  shows "source_good api metrics B s' j = source_good api metrics B s j"
  using assms by (simp add: source_good_def pending_lines_def to_come_def)

text \<open>A step of \<^verbatim>\<open>main\<close> that concerns source \<open>i\<close> only.\<close>

lemma good_step:
  assumes "system_good api metrics B s" "i < 2"
    and "handling (pc s) = None \<or> handling (pc s) = Some i" "handling (pc s') = None \<or> handling (pc s') = Some i"
    and "writer s' = writer s" "pipes s' = (pipes s)(i := pipes s' i)" "watch s' = (watch s)(i := watch s' i)"
    and "\<And>j. j < 2 \<Longrightarrow> j \<noteq> i \<Longrightarrow>
      source_lines (handler_name j) (cout s') = source_lines (handler_name j) (cout s)"
    and "source_good api metrics B s i \<Longrightarrow> source_good api metrics B s' i"
    and "active_sources s - of_bool (watch s i \<noteq> - 1) = active_sources s' - of_bool (watch s' i \<noteq> - 1)"
    and "pc_good (pc s') s'"
  shows "system_good api metrics B s'"
proof -
  have "source_good api metrics B s' j" if "j < 2" for j
  proof (cases "j = i")
    case False
    have "source_good api metrics B s' j = source_good api metrics B s j"
    proof (rule source_good_other)
      show "pipes s' j = pipes s j" "watch s' j = watch s j"
        by (subst assms(6) assms(7), simp add: False)+
    qed (use assms(3-5,8) that False in auto)
    with assms(1) that show ?thesis by (simp add: system_good_def)
  qed (use assms(1,2,9) in \<open>simp add: system_good_def\<close>)
  moreover have "active_sources s' = of_bool (watch s' 0 \<noteq> - 1) + of_bool (watch s' 1 \<noteq> - 1)"
  proof -
    have act: "active_sources s = of_bool (watch s 0 \<noteq> - 1) + of_bool (watch s 1 \<noteq> - 1)"
      using assms(1) by (simp only: system_good_def)
    have same: "watch s' (1 - i) = watch s (1 - i)" using assms(2) by (subst assms(7)) (auto simp: two_cases)
    from assms(2) consider "i = 0" | "i = 1" by linarith
    then show ?thesis
    proof cases
      case 1
      with same have "watch s' 1 = watch s 1" by simp
      with 1 act assms(10) show ?thesis by (simp only:)
    next
      case 2
      with same have "watch s' 0 = watch s 0" by simp
      with 2 act assms(10) show ?thesis by (simp only:)
    qed
  qed
  ultimately show ?thesis using assms(11) by (simp add: system_good_def)
qed

lemma idle_tick_good:
  assumes "system_good api metrics B s" and "idle_tick s = Some s'"
  shows "system_good api metrics B s'"
  using assms(2) by (intro good_step [OF assms(1), of 0])
    (auto simp: idle_tick_def source_good_def pending_lines_def to_come_def log_line_def split: if_splits)

lemma main_action_good:
  assumes good: "system_good api metrics B s" and fds: "api \<noteq> metrics" "api \<noteq> - 1" "metrics \<noteq> - 1"
    and step: "main_action api metrics s = Some s'"
  shows "system_good api metrics B s'"
proof -
  note defs = source_good_def pending_lines_def to_come_def log_line_def
  have found: "reactor_handlers api metrics (watch s i) = Some (handler_name i)" if "i < 2" "watch s i \<noteq> - 1" for i
    using good that handler_found [OF fds(1), of i] by (auto simp: system_good_def source_good_def)
  have own: "i < 2" "watch s i \<noteq> - 1" if "handling (pc s) = Some i" for i
  proof -
    have "pc_good (pc s) s" "\<forall>i<2. source_good api metrics B s i" using good by (simp_all add: system_good_def)
    then show "i < 2" using that by (cases "pc s") simp_all
    with \<open>\<forall>i<2. source_good api metrics B s i\<close> that show "watch s i \<noteq> - 1" by (simp add: source_good_def)
  qed
  have fd_ok: "read_fd api metrics i \<noteq> - 1" for i using fds(2,3) by (simp add: read_fd_def)
  show ?thesis
  proof (cases "pc s")
    case (Spawn k)
    with step show ?thesis
      by (cases "k = 0"; intro good_step [OF good, of 0]) (auto simp: main_action_def defs)
  next
    case Top
    have "active_sources s = of_bool (watch s 0 \<noteq> - 1) + of_bool (watch s 1 \<noteq> - 1)"
      using good by (simp add: system_good_def)
    then have "watch s 0 = - 1 \<and> watch s 1 = - 1 \<longleftrightarrow> \<not> 0 < active_sources s"
      by (cases "watch s 0 = - 1"; cases "watch s 1 = - 1"; simp)
    with Top step show ?thesis
      by (intro good_step [OF good, of 0]) (auto simp: main_action_def defs split: if_splits)
  next
    case Polling
    with step show ?thesis
      by (intro good_step [OF good, of 0]) (auto simp: main_action_def defs split: if_splits)
  next
    case (Scan i revs)
    show ?thesis
    proof (cases "i < 2 \<and> watch s i \<noteq> - 1 \<and> wanted (revs ! i)")
      case True
      with Scan step found [of i] show ?thesis
        by (intro good_step [OF good, of i]) (auto simp: main_action_def defs split: if_splits)
    next
      case False
      with Scan step show ?thesis
        by (intro good_step [OF good, of 0]) (auto simp: main_action_def defs split: if_splits)
    qed
  next
    case (Reading i msg revs)
    with step own [of i] show ?thesis
      by (intro good_step [OF good, of i]; cases "pipes s i") (auto simp: main_action_def defs split: if_splits)
  next
    case (Message i msg revs)
    with step own [of i] found [of i] show ?thesis
      by (intro good_step [OF good, of i]) (auto simp: main_action_def defs)
  next
    case (Partial i msg revs)
    with step own [of i] found [of i] show ?thesis
      by (intro good_step [OF good, of i]) (auto simp: main_action_def defs)
  next
    case (Eof i revs)
    with step own [of i] found [of i] show ?thesis
      by (intro good_step [OF good, of i]) (auto simp: main_action_def defs)
  next
    case (Retire i revs)
    with step own [of i] show ?thesis
      by (intro good_step [OF good, of i]) (auto simp: main_action_def defs)
  next
    case (Close i revs)
    with step own [of i] show ?thesis
      by (intro good_step [OF good, of i]) (auto simp: main_action_def defs)
  next
    case (Join i)
    moreover have "watch s 0 = - 1" "watch s 1 = - 1" using good Join by (simp_all add: system_good_def)
    ultimately show ?thesis using step
      by (intro good_step [OF good, of 0]) (auto simp: main_action_def defs split: if_splits)
  qed (use step in \<open>simp_all add: main_action_def\<close>)
qed

lemma system_init_good:
  assumes "api \<noteq> - 1" and "metrics \<noteq> - 1"
  shows "system_good api metrics (\<lambda>i. payload_frames (evs i)) (system_init api metrics evs k)"
  using assms by (simp add: system_good_def source_good_def pending_lines_def to_come_def system_init_def log_line_def
      read_fd_def source_lines_def)

section \<open>It ends\<close>

text \<open>
  The work left: a message or an end of file to dispatch, a byte to write or read, an event to
  emit. A scan that has still a watcher to serve costs less than one that has not, because the
  former is paid by what it will dispatch.
\<close>

definition backlog_of :: "system \<Rightarrow> nat \<Rightarrow> nat" where
  "backlog_of s i = (if watch s i = - 1 then 0 else count_list (to_come s i) newline + 1)"

fun writer_rank :: "writer_pc \<Rightarrow> nat" where
  "writer_rank (Next_event ps) = 2 * length ps + 2"
| "writer_rank (Writing payload data ps) = 2 * length ps + 3"
| "writer_rank Closing = 1"
| "writer_rank Closed = 0"

definition bytes_of :: "system \<Rightarrow> nat \<Rightarrow> nat" where
  "bytes_of s i = length (pipes s i) + 2 * length (unwritten (writer s i)) + writer_rank (writer s i)"

definition to_serve :: "(nat \<Rightarrow> int) \<Rightarrow> nat \<Rightarrow> 16 word list \<Rightarrow> bool" where
  "to_serve w k revs \<longleftrightarrow> (\<exists>j<2. k \<le> j \<and> w j \<noteq> - 1 \<and> wanted (revs ! j))"

fun pc_rank :: "(nat \<Rightarrow> int) \<Rightarrow> reactor_pc \<Rightarrow> nat" where
  "pc_rank w (Spawn k) = (if k = 0 then 22 else 21)"
| "pc_rank w Top = 20"
| "pc_rank w Polling = 19"
| "pc_rank w (Scan k revs) = (if to_serve w k revs then 18 - k else if 2 \<le> k then 21 else 30 - k)"
| "pc_rank w (Reading i msg revs) = 10"
| "pc_rank w (Message i msg revs) = 50"
| "pc_rank w (Partial i msg revs) = 9"
| "pc_rank w (Eof i revs) = 8"
| "pc_rank w (Retire i revs) = 7"
| "pc_rank w (Close i revs) = 6"
| "pc_rank w (Join i) = (if 2 \<le> i then 1 else 4 - i)"
| "pc_rank w Over = 0"
| "pc_rank w (Threw e) = 0"

definition work :: "system \<Rightarrow> nat" where
  "work s = 100 * (backlog_of s 0 + backlog_of s 1) + (bytes_of s 0 + bytes_of s 1) + pc_rank (watch s) (pc s)"

lemma wanted_ready: "poll_revents s i \<noteq> 0 \<Longrightarrow> watch s i \<noteq> - 1 \<and> wanted (poll_revents s i)"
  by (auto simp: poll_revents_def wanted_def POLLIN_def POLLHUP_def POLLERR_def split: if_splits)

lemma poll_ready_serves: "poll_ready s \<noteq> 0 \<Longrightarrow> to_serve (watch s) 0 [poll_revents s 0, poll_revents s 1]"
  using wanted_ready [of s 0] wanted_ready [of s 1]
  by (auto simp: poll_ready_def to_serve_def two_cases filter_empty_conv split: if_splits)

lemma sum_two_update:
  fixes f g :: "nat \<Rightarrow> nat"
  assumes "i < 2" and "f i < g i" and "\<And>j. j \<noteq> i \<Longrightarrow> f j = g j"
  shows "f 0 + f 1 < g 0 + g 1"
proof -
  consider "i = 0" | "i = 1" using assms(1) by linarith
  then show ?thesis using assms(2) assms(3) [of 0] assms(3) [of 1] by cases simp_all
qed

lemma writer_action_work:
  assumes "writer_action cap t n s = Some s'"
  shows "work s' < work s"
proof -
  note f = writer_action_frame [OF assms]
  have t: "t < 2" using assms by (auto simp: writer_action_def split: if_splits)
  have "bytes_of s' t < bytes_of s t"
    using assms by (cases "writer s t"; auto simp: writer_action_def bytes_of_def split: if_splits list.splits)
  moreover have "bytes_of s' j = bytes_of s j" if "j \<noteq> t" for j
    using assms that by (auto simp: writer_action_def bytes_of_def split: if_splits list.splits writer_pc.splits)
  ultimately have "bytes_of s' 0 + bytes_of s' 1 < bytes_of s 0 + bytes_of s 1"
    using sum_two_update [OF t, of "bytes_of s'" "bytes_of s"] by blast
  moreover have "backlog_of s' = backlog_of s" using f by (simp add: backlog_of_def fun_eq_iff)
  ultimately show ?thesis using f by (simp add: work_def)
qed

lemma idle_tick_work: "idle_tick s = Some s' \<Longrightarrow> work s' \<le> work s + 1"
  by (auto simp: idle_tick_def work_def backlog_of_def bytes_of_def to_come_def split: if_splits)

text \<open>What a message or an end of file pays for.\<close>

lemma work_served:
  assumes "i < 2" and "backlog_of s' i < backlog_of s i" and "\<And>j. j \<noteq> i \<Longrightarrow> backlog_of s' j = backlog_of s j"
    and "bytes_of s' 0 + bytes_of s' 1 \<le> bytes_of s 0 + bytes_of s 1"
    and "pc_rank (watch s') (pc s') \<le> 60"
  shows "work s' < work s"
  using sum_two_update [of i "backlog_of s'" "backlog_of s", OF assms(1-3)] assms(4,5) by (simp add: work_def)

lemma work_moved:
  assumes "backlog_of s' = backlog_of s" and "bytes_of s' 0 + bytes_of s' 1 \<le> bytes_of s 0 + bytes_of s 1"
    and "pc_rank (watch s') (pc s') < pc_rank (watch s) (pc s)"
  shows "work s' < work s"
  using assms by (simp add: work_def)

lemma main_action_work:
  assumes good: "system_good api metrics B s" and step: "main_action api metrics s = Some s'"
  shows "work s' < work s"
proof -
  note defs = backlog_of_def bytes_of_def to_come_def fun_eq_iff
  have own: "i < 2" "watch s i \<noteq> - 1" if "handling (pc s) = Some i" for i
  proof -
    have "pc_good (pc s) s" "\<forall>i<2. source_good api metrics B s i" using good by (simp_all add: system_good_def)
    then show "i < 2" using that by (cases "pc s") simp_all
    with \<open>\<forall>i<2. source_good api metrics B s i\<close> that show "watch s i \<noteq> - 1" by (simp add: source_good_def)
  qed
  show ?thesis
  proof (cases "pc s")
    case (Spawn k)
    with step show ?thesis by (intro work_moved) (auto simp: main_action_def defs)
  next
    case Top
    with step show ?thesis by (intro work_moved) (auto simp: main_action_def defs split: if_splits)
  next
    case Polling
    with step poll_ready_serves [of s] show ?thesis
      by (intro work_moved) (auto simp: main_action_def defs split: if_splits)
  next
    case (Scan i revs)
    have skip: "to_serve (watch s) (Suc i) revs = to_serve (watch s) i revs"
      if "watch s i = - 1 \<or> \<not> wanted (revs ! i)"
      using that by (auto simp: to_serve_def Suc_le_eq order.order_iff_strict)
    have serve: "to_serve (watch s) i revs" if "i < 2" "watch s i \<noteq> - 1" "wanted (revs ! i)"
      using that by (auto simp: to_serve_def)
    have last: "\<not> to_serve (watch s) i revs" if "2 \<le> i" using that by (auto simp: to_serve_def)
    from Scan step skip serve last show ?thesis
      by (intro work_moved) (auto simp: main_action_def defs split: if_splits option.splits)
  next
    case (Reading i msg revs)
    show ?thesis
    proof (cases "pipes s i")
      case Nil
      with Reading step show ?thesis by (intro work_moved) (auto simp: main_action_def defs split: if_splits)
    next
      case (Cons ch rest)
      show ?thesis
      proof (cases "ch = newline")
        case True
        with Cons Reading step own [of i] show ?thesis
          by (intro work_served [of i]) (auto simp: main_action_def defs two_cases)
      next
        case False
        with Cons Reading step have "backlog_of s' = backlog_of s" "pc_rank (watch s') (pc s') = pc_rank (watch s) (pc s)"
          "bytes_of s' i < bytes_of s i" "\<And>j. j \<noteq> i \<Longrightarrow> bytes_of s' j = bytes_of s j"
          by (auto simp: main_action_def defs)
        with own(1) [of i] sum_two_update [of i "bytes_of s'" "bytes_of s"] Reading show ?thesis
          by (simp add: work_def)
      qed
    qed
  next
    case (Message i msg revs)
    with step show ?thesis by (intro work_moved) (auto simp: main_action_def defs)
  next
    case (Partial i msg revs)
    with step show ?thesis by (intro work_moved) (auto simp: main_action_def defs)
  next
    case (Eof i revs)
    with step show ?thesis by (intro work_moved) (auto simp: main_action_def defs)
  next
    case (Retire i revs)
    with step show ?thesis by (intro work_moved) (auto simp: main_action_def defs)
  next
    case (Close i revs)
    with step own [of i] show ?thesis
      by (intro work_served [of i]) (auto simp: main_action_def defs)
  next
    case (Join i)
    with step show ?thesis by (intro work_moved) (auto simp: main_action_def defs split: if_splits)
  qed (use step in \<open>simp_all add: main_action_def\<close>)
qed

section \<open>Nobody waits in vain\<close>

lemma writer_can_act:
  assumes "i < 2" and "spawned (pc s) i" and "pipes s i = []" and "0 < cap" and "writer s i \<noteq> Closed"
  shows "writer_action cap i 1 s \<noteq> None"
  using assms by (cases "writer s i") (auto simp: writer_action_def split: list.split)

lemma system_progress:
  assumes good: "system_good api metrics B s" and "0 < cap"
    and stuck: "\<forall>a. a \<noteq> Idle \<longrightarrow> system_step api metrics cap a s = None"
  shows "pc s = Over"
proof -
  have m: "main_action api metrics s = None" and w: "writer_action cap i n s = None" for i n
    using stuck [rule_format, of Main] stuck [rule_format, of "Writer i n"] by simp_all
  have closed: "writer s i = Closed" if "i < 2" "spawned (pc s) i" "pipes s i = []" for i
    using writer_can_act [OF that assms(2)] w [of i 1] by auto
  have p: "pc_good (pc s) s" and src: "\<And>i. i < 2 \<Longrightarrow> source_good api metrics B s i"
    using good by (simp_all add: system_good_def)
  show ?thesis
  proof (cases "pc s")
    case Polling
    with p have "watch s 0 \<noteq> - 1 \<or> watch s 1 \<noteq> - 1" by simp
    then have "\<exists>i<2. watch s i \<noteq> - 1" by (auto simp: two_cases)
    then obtain i where i: "i < 2" "watch s i \<noteq> - 1" by blast
    from m Polling have "poll_ready s = 0" by (simp add: main_action_def split: if_splits)
    then have "poll_revents s i = 0" using i(1) by (auto simp: poll_ready_def two_cases split: if_splits)
    then have "pipes s i = []" "writer s i \<noteq> Closed"
      using i(2) by (auto simp: poll_revents_def POLLIN_def POLLHUP_def split: if_splits)
    with closed [OF i(1)] Polling show ?thesis by simp
  next
    case (Reading i msg revs)
    with m p have "i < 2" "pipes s i = []" "writer s i \<noteq> Closed"
      by (auto simp: main_action_def split: list.splits if_splits)
    with closed [of i] Reading show ?thesis by simp
  next
    case (Join i)
    with m have "i < 2" "writer s i \<noteq> Closed" by (auto simp: main_action_def split: if_splits)
    moreover have "watch s i = - 1" using p Join \<open>i < 2\<close> by (auto simp: two_cases)
    ultimately show ?thesis using src [of i] by (simp add: source_good_def)
  next
    case (Threw e)
    with p show ?thesis by simp
  qed (use m in \<open>auto simp: main_action_def\<close>)
qed

section \<open>The property\<close>

lemma system_step_sound:
  assumes "system_good api metrics B s" and "api \<noteq> metrics" "api \<noteq> - 1" "metrics \<noteq> - 1"
    and "system_step api metrics cap a s = Some s'"
  shows "system_good api metrics B s' \<and> work s' + (if a = Idle then 0 else 2) \<le> work s + 1"
proof (cases a)
  case Main
  then have "main_action api metrics s = Some s'" using assms(5) by simp
  from main_action_good [OF assms(1-4) this] main_action_work [OF assms(1) this] Main show ?thesis by simp
next
  case (Writer i n)
  then have "writer_action cap i n s = Some s'" using assms(5) by simp
  from writer_action_good [OF assms(1) this] writer_action_work [OF this] Writer show ?thesis by simp
next
  case Idle
  then have "idle_tick s = Some s'" using assms(5) by simp
  from idle_tick_good [OF assms(1) this] idle_tick_work [OF this] Idle show ?thesis by simp
qed

lemma system_run_sound:
  assumes "system_good api metrics B s" and "api \<noteq> metrics" "api \<noteq> - 1" "metrics \<noteq> - 1"
    and "system_run api metrics cap as s = Some s'"
  shows "system_good api metrics B s' \<and> length as + work s' \<le> work s + 2 * count_list as Idle"
  using assms(1,5)
proof (induction as arbitrary: s)
  case (Cons a as)
  then obtain s1 where 1: "system_step api metrics cap a s = Some s1" "system_run api metrics cap as s1 = Some s'"
    by (auto simp: Option.bind_eq_Some_conv)
  note st = system_step_sound [OF Cons.prems(1) assms(2-4) 1(1)]
  with Cons.IH [OF _ 1(2)] have "system_good api metrics B s'" "length as + work s' \<le> work s1 + 2 * count_list as Idle"
    by simp_all
  with st show ?case by (cases "a = Idle") simp_all
qed simp

lemma payload_frames_frames: "payload_frames ps = frames (map (Pair 0) ps)"
  by (simp add: frames_def payload_frames_def comp_def)

lemma stream_lines_payloads:
  "stream_lines name [] (payload_frames ps) = map (from_source name) (message_lines ps) @ [from_source name ''EOF'']"
  by (simp add: payload_frames_frames stream_lines_messages comp_def)

lemma count_payloads: "count_list (payload_frames ps) newline = length (message_lines ps)"
  by (simp add: payload_frames_frames count_frames comp_def)

text \<open>C16. The whole program. The two descriptors differ, the calls of the system do not fail, and a
  pipe holds at least one byte. Then whatever the payloads, whatever part of its data each
  \<^verbatim>\<open>write\<close> takes and whoever acts next: apart from idle ticks the actions of \<^verbatim>\<open>main\<close> and both
  writers are bounded by the lines and bytes there are; nothing is thrown; when no one can act any
  more (there is no deadlock) \<^verbatim>\<open>main\<close> has returned, and each handler has printed the lines of the
  payloads of its source, complete and in order, then the end of file. A payload without line
  breaks is one line; the protocol cuts one with line breaks at them.\<close>

theorem reactor_program:
  assumes "api \<noteq> metrics" and "api \<noteq> - 1" and "metrics \<noteq> - 1" and "0 < cap"
    and "system_run api metrics cap as (system_init api metrics evs k) = Some s"
  shows "length as \<le> 100 * length (message_lines (evs 0 @ evs 1)) + 2 * length (evs 0 @ evs 1) +
      2 * length (payload_frames (evs 0 @ evs 1)) + 226 + 2 * count_list as Idle \<and>
    (\<forall>e. pc s \<noteq> Threw e) \<and>
    ((\<forall>a. a \<noteq> Idle \<longrightarrow> system_step api metrics cap a s = None) \<longrightarrow> pc s = Over \<and>
      source_lines ''api-handler'' (cout s) =
        map (from_source ''api-handler'') (message_lines (evs 0)) @ [from_source ''api-handler'' ''EOF''] \<and>
      source_lines ''metrics-handler'' (cout s) =
        map (from_source ''metrics-handler'') (message_lines (evs 1)) @ [from_source ''metrics-handler'' ''EOF'']) \<and>
    (\<forall>ps. (\<forall>p\<in>set ps. newline \<notin> set p) \<longrightarrow> message_lines ps = ps)"
proof -
  let ?s = "system_init api metrics evs k" and ?B = "\<lambda>i. payload_frames (evs i)"
  from system_run_sound [OF system_init_good [OF assms(2,3)] assms(1-3,5)]
  have good: "system_good api metrics ?B s" and bound: "length as + work s \<le> work ?s + 2 * count_list as Idle"
    by simp_all
  have "work ?s = 100 * length (message_lines (evs 0 @ evs 1)) + 2 * length (evs 0 @ evs 1) +
      2 * length (payload_frames (evs 0 @ evs 1)) + 226"
    using assms(2,3) count_payloads [of "evs 0"] count_payloads [of "evs 1"]
    by (simp add: work_def system_init_def backlog_of_def bytes_of_def to_come_def message_lines_def)
      (simp add: payload_frames_def)
  with bound have "length as \<le> 100 * length (message_lines (evs 0 @ evs 1)) + 2 * length (evs 0 @ evs 1) +
      2 * length (payload_frames (evs 0 @ evs 1)) + 226 + 2 * count_list as Idle" by linarith
  moreover have "pc s \<noteq> Threw e" for e using good by (auto simp: system_good_def)
  moreover have "source_lines (handler_name i) (cout s) = stream_lines (handler_name i) [] (?B i)"
    if "pc s = Over" "i < 2" for i
  proof -
    have "watch s i = - 1" "source_good api metrics ?B s i"
      using good that by (auto simp: system_good_def two_cases)
    then show ?thesis using that by (simp add: source_good_def pending_lines_def)
  qed
  note this [of 0] this [of 1]
  moreover note system_progress [OF good assms(4)]
  ultimately show ?thesis by (auto simp: handler_name_def stream_lines_payloads message_lines_single)
qed

text \<open>One payload each, with pipes of four bytes: the second source is served while the first is
  written.\<close>

definition demo_events :: "nat \<Rightarrow> string list" where
  "demo_events i = (if i = 0 then [''GET''] else [''f''])"

definition demo_actions :: "action list" where
  "demo_actions = [Main, Main, Main, Writer 1 2, Idle, Main, Writer 1 2, Main, Writer 0 3, Main, Main, Writer 1 1,
     Writer 0 1, Writer 0 3, Main, Main, Writer 1 1, Writer 0 1, Writer 0 3, Main, Main, Writer 1 1, Writer 0 1] @
     replicate 27 Main"

definition demo_kern :: kernel where
  "demo_kern = \<lparr>open_fds = {3, 4, 5, 6}, closes = []\<rparr>"

theorem reactor_program_witness:
  "\<exists>s. system_run 3 5 4 demo_actions (system_init 3 5 demo_events demo_kern) = Some s \<and> pc s = Over \<and>
     length demo_actions \<le> 444 \<and> closes (kern s) = [5, 3, 5, 3] \<and>
     source_lines ''api-handler'' (cout s) = [from_source ''api-handler'' ''GET'', from_source ''api-handler'' ''EOF'']"
proof -
  have ev: "case system_run 3 5 4 demo_actions (system_init 3 5 demo_events demo_kern) of None \<Rightarrow> False
    | Some s \<Rightarrow> pc s = Over \<and> map (writer s) [0, 1] = [Closed, Closed] \<and> closes (kern s) = [5, 3, 5, 3]"
    by code_simp
  then obtain s where s: "system_run 3 5 4 demo_actions (system_init 3 5 demo_events demo_kern) = Some s"
    by (auto split: option.splits)
  note r = reactor_program [OF _ _ _ _ s, simplified]
  have "system_step 3 5 4 a s = None" if "a \<noteq> Idle" for a
    using that ev s by (cases a) (auto simp: main_action_def writer_action_def two_cases)
  with r have "source_lines ''api-handler'' (cout s) = map (from_source ''api-handler'') (message_lines (demo_events 0)) @
      [from_source ''api-handler'' ''EOF'']" by blast
  moreover have "message_lines (demo_events 0) = demo_events 0"
    by (rule message_lines_single) (simp add: demo_events_def newline_def)
  moreover have "length demo_actions \<le> 444" by code_simp
  ultimately show ?thesis using ev s by (intro exI [of _ s]) (simp add: demo_events_def)
qed

end
