(* ===== verification/RuleOfFive.thy ===== *)
theory RuleOfFive
  imports Prelude "HOL-Library.Word"
begin

text \<open>
  \<^verbatim>\<open>examples/rule_of_0_5/main.cpp\<close>: \<open>ResponseBuffer\<close>, which owns nothing by hand, and \<open>Arena\<close>,
  which owns a block of the C heap.

  The heap maps addresses to blocks; a byte of a block is \<open>None\<close> until it is written, and 0 is
  the null pointer. \<^verbatim>\<open>malloc\<close> may fail: \<open>grant k\<close> says whether the k-th call succeeds. What C++
  leaves undefined is the outcome \<open>Undefined\<close>: freeing an address that is not allocated, and
  copying outside a block. Sizes and offsets are 64-bit words and the bounds checks of \<^verbatim>\<open>write\<close>
  and \<^verbatim>\<open>read\<close> add them as the code does, with wrap-around.

  Proved for every sequence of the five special members, \<^verbatim>\<open>write\<close>, \<^verbatim>\<open>read\<close> and destruction
  on any number of arenas: no double free, no leak, no access outside a block as long as the
  offsets do not wrap; copies are deep; and a wrapping offset passes the check and is
  undefined behaviour.
\<close>

section \<open>ResponseBuffer\<close>

type_synonym response_buffer = "string list"

definition buffer_append :: "string \<Rightarrow> response_buffer \<Rightarrow> response_buffer" where
  "buffer_append c b = b @ [c]"

definition buffer_total :: "response_buffer \<Rightarrow> nat" where
  "buffer_total b = foldl (\<lambda>n c. n + length c) 0 b"

definition buffer_join :: "response_buffer \<Rightarrow> string" where
  "buffer_join b = foldl (\<lambda>out c. out @ c) [] b"

lemma buffer_join_concat: "buffer_join b = concat b"
proof -
  have "foldl (\<lambda>out c. out @ c) out b = out @ concat b" for out
    by (induction b arbitrary: out) simp_all
  then show ?thesis by (simp add: buffer_join_def)
qed

lemma buffer_total_length: "buffer_total b = length (buffer_join b)"
proof -
  have "foldl (\<lambda>n c. n + length c) k b = k + length (concat b)" for k
    by (induction b arbitrary: k) simp_all
  then show ?thesis by (simp add: buffer_total_def buffer_join_concat)
qed

section \<open>The C heap\<close>

type_synonym addr = nat
type_synonym size_t = "64 word"

record heap =
  blocks :: "addr \<Rightarrow> char option list option"
  next_addr :: addr
  calls :: nat

datatype 'a outcome = Ok 'a | Throw cpp_exn | Undefined

definition malloc :: "(nat \<Rightarrow> bool) \<Rightarrow> size_t \<Rightarrow> heap \<Rightarrow> addr \<times> heap" where
  "malloc grant bytes h =
     (if grant (calls h)
      then (next_addr h, h\<lparr>blocks := (blocks h)(next_addr h \<mapsto> replicate (unat bytes) None),
        next_addr := next_addr h + 1, calls := calls h + 1\<rparr>)
      else (0, h\<lparr>calls := calls h + 1\<rparr>))"

definition free :: "addr \<Rightarrow> heap \<Rightarrow> unit outcome \<times> heap" where
  "free p h =
     (if p = 0 then (Ok (), h)
      else if blocks h p = None then (Undefined, h)
      else (Ok (), h\<lparr>blocks := (blocks h)(p := None)\<rparr>))"

text \<open>Bytes \<open>off\<close> to \<open>off + n - 1\<close> of the block at \<open>p\<close>; copying no byte touches nothing.\<close>

definition load_bytes :: "addr \<Rightarrow> nat \<Rightarrow> nat \<Rightarrow> heap \<Rightarrow> char option list outcome" where
  "load_bytes p off n h =
     (if n = 0 then Ok []
      else case blocks h p of
        None \<Rightarrow> Undefined
      | Some b \<Rightarrow> if off + n \<le> length b then Ok (take n (drop off b)) else Undefined)"

definition store_bytes :: "addr \<Rightarrow> nat \<Rightarrow> char option list \<Rightarrow> heap \<Rightarrow> unit outcome \<times> heap" where
  "store_bytes p off bs h =
     (if bs = [] then (Ok (), h)
      else case blocks h p of
        None \<Rightarrow> (Undefined, h)
      | Some b \<Rightarrow>
          if off + length bs \<le> length b
          then (Ok (), h\<lparr>blocks := (blocks h)(p \<mapsto> take off b @ bs @ drop (off + length bs) b)\<rparr>)
          else (Undefined, h))"

section \<open>Arena\<close>

record arena =
  arena_size :: size_t
  arena_data :: addr

definition empty_arena :: arena where
  "empty_arena = \<lparr>arena_size = 0, arena_data = 0\<rparr>"

definition Arena_new :: "(nat \<Rightarrow> bool) \<Rightarrow> size_t \<Rightarrow> heap \<Rightarrow> arena outcome \<times> heap" where
  "Arena_new grant bytes h =
     (if bytes = 0 then (Ok \<lparr>arena_size = bytes, arena_data = 0\<rparr>, h)
      else case malloc grant bytes h of (p, h') \<Rightarrow>
        if p = 0 then (Throw Bad_alloc, h') else (Ok \<lparr>arena_size = bytes, arena_data = p\<rparr>, h'))"

definition Arena_destroy :: "arena \<Rightarrow> heap \<Rightarrow> unit outcome \<times> heap" where
  "Arena_destroy a h = free (arena_data a) h"

definition Arena_copy :: "(nat \<Rightarrow> bool) \<Rightarrow> arena \<Rightarrow> heap \<Rightarrow> arena outcome \<times> heap" where
  "Arena_copy grant other h =
     (if arena_size other = 0 then (Ok \<lparr>arena_size = arena_size other, arena_data = 0\<rparr>, h)
      else case malloc grant (arena_size other) h of (p, h') \<Rightarrow>
        if p = 0 then (Throw Bad_alloc, h')
        else case load_bytes (arena_data other) 0 (unat (arena_size other)) h' of
          Ok bs \<Rightarrow> (case store_bytes p 0 bs h' of
              (Ok _, h'') \<Rightarrow> (Ok \<lparr>arena_size = arena_size other, arena_data = p\<rparr>, h'')
            | (_, h'') \<Rightarrow> (Undefined, h''))
        | _ \<Rightarrow> (Undefined, h'))"

definition arena_swap :: "arena \<Rightarrow> arena \<Rightarrow> arena \<times> arena" where
  "arena_swap a b = (b, a)"

text \<open>Assignment from another object; \<open>Arena_self_assign\<close> is the early return.\<close>

definition Arena_copy_assign :: "(nat \<Rightarrow> bool) \<Rightarrow> arena \<Rightarrow> arena \<Rightarrow> heap \<Rightarrow> arena outcome \<times> heap" where
  "Arena_copy_assign grant this other h = (case Arena_copy grant other h of
     (Ok tmp, h') \<Rightarrow> (case arena_swap this tmp of (this', tmp') \<Rightarrow>
        (case Arena_destroy tmp' h' of
           (Ok _, h'') \<Rightarrow> (Ok this', h'')
         | (_, h'') \<Rightarrow> (Undefined, h'')))
   | (Throw e, h') \<Rightarrow> (Throw e, h')
   | (Undefined, h') \<Rightarrow> (Undefined, h'))"

definition Arena_self_assign :: "arena \<Rightarrow> arena" where
  "Arena_self_assign this = this"

definition Arena_move :: "arena \<Rightarrow> arena \<times> arena" where
  "Arena_move other = (other, empty_arena)"

definition Arena_move_assign :: "arena \<Rightarrow> arena \<Rightarrow> heap \<Rightarrow> (arena \<times> arena) outcome \<times> heap" where
  "Arena_move_assign this other h = (case free (arena_data this) h of
     (Ok _, h') \<Rightarrow> (Ok (other, empty_arena), h')
   | (_, h') \<Rightarrow> (Undefined, h'))"

definition arena_write :: "size_t \<Rightarrow> string \<Rightarrow> arena \<Rightarrow> heap \<Rightarrow> unit outcome \<times> heap" where
  "arena_write off s a h =
     (if off + of_nat (length s) > arena_size a then (Throw (Out_of_range ''arena write''), h)
      else store_bytes (arena_data a) (unat off) (map Some s) h)"

definition arena_read :: "size_t \<Rightarrow> size_t \<Rightarrow> arena \<Rightarrow> heap \<Rightarrow> char option list outcome" where
  "arena_read off len a h =
     (if off + len > arena_size a then Throw (Out_of_range ''arena read'')
      else load_bytes (arena_data a) (unat off) (unat len) h)"

section \<open>Programs on arenas\<close>

text \<open>Variables hold constructed arenas; an exception leaves them as they are.\<close>

type_synonym vars = "nat \<Rightarrow> arena option"

datatype arena_op =
    Construct nat size_t
  | Copy_construct nat nat
  | Move_construct nat nat
  | Copy_assign nat nat
  | Move_assign nat nat
  | Write nat size_t string
  | Read nat size_t size_t
  | Destroy nat

fun op_valid :: "arena_op \<Rightarrow> vars \<Rightarrow> bool" where
  "op_valid (Construct v n) f = (f v = None)"
| "op_valid (Copy_construct v w) f = (f v = None \<and> f w \<noteq> None)"
| "op_valid (Move_construct v w) f = (f v = None \<and> f w \<noteq> None)"
| "op_valid (Copy_assign v w) f = (f v \<noteq> None \<and> f w \<noteq> None)"
| "op_valid (Move_assign v w) f = (f v \<noteq> None \<and> f w \<noteq> None)"
| "op_valid (Write v off s) f = (f v \<noteq> None)"
| "op_valid (Read v off n) f = (f v \<noteq> None)"
| "op_valid (Destroy v) f = (f v \<noteq> None)"

text \<open>The flag says whether the operation had defined behaviour.\<close>

definition keep_new :: "nat \<Rightarrow> vars \<Rightarrow> arena outcome \<times> heap \<Rightarrow> bool \<times> vars \<times> heap" where
  "keep_new v f r = (case r of
     (Ok a, h) \<Rightarrow> (True, f(v \<mapsto> a), h)
   | (Throw e, h) \<Rightarrow> (True, f, h)
   | (Undefined, h) \<Rightarrow> (False, f, h))"

fun op_step :: "(nat \<Rightarrow> bool) \<Rightarrow> arena_op \<Rightarrow> vars \<Rightarrow> heap \<Rightarrow> bool \<times> vars \<times> heap" where
  "op_step grant (Construct v n) f h = keep_new v f (Arena_new grant n h)"
| "op_step grant (Copy_construct v w) f h = keep_new v f (Arena_copy grant (the (f w)) h)"
| "op_step grant (Move_construct v w) f h =
     (case Arena_move (the (f w)) of (a, b) \<Rightarrow> (True, f(w \<mapsto> b, v \<mapsto> a), h))"
| "op_step grant (Copy_assign v w) f h =
     (if v = w then (True, f(v \<mapsto> Arena_self_assign (the (f v))), h)
      else keep_new v f (Arena_copy_assign grant (the (f v)) (the (f w)) h))"
| "op_step grant (Move_assign v w) f h =
     (if v = w then (True, f(v \<mapsto> Arena_self_assign (the (f v))), h)
      else case Arena_move_assign (the (f v)) (the (f w)) h of
        (Ok (a, b), h') \<Rightarrow> (True, f(v \<mapsto> a, w \<mapsto> b), h')
      | (_, h') \<Rightarrow> (False, f, h'))"
| "op_step grant (Write v off s) f h =
     (case arena_write off s (the (f v)) h of (r, h') \<Rightarrow> (r \<noteq> Undefined, f, h'))"
| "op_step grant (Read v off n) f h = (arena_read off n (the (f v)) h \<noteq> Undefined, f, h)"
| "op_step grant (Destroy v) f h =
     (case Arena_destroy (the (f v)) h of (r, h') \<Rightarrow> (r \<noteq> Undefined, f(v := None), h'))"

fun run_ops :: "(nat \<Rightarrow> bool) \<Rightarrow> arena_op list \<Rightarrow> vars \<Rightarrow> heap \<Rightarrow> bool \<times> vars \<times> heap" where
  "run_ops grant [] f h = (True, f, h)"
| "run_ops grant (op # ops) f h = (case op_step grant op f h of
     (True, f', h') \<Rightarrow> run_ops grant ops f' h'
   | (False, f', h') \<Rightarrow> (False, f', h'))"

fun ops_valid :: "(nat \<Rightarrow> bool) \<Rightarrow> arena_op list \<Rightarrow> vars \<Rightarrow> heap \<Rightarrow> bool" where
  "ops_valid grant [] f h = True"
| "ops_valid grant (op # ops) f h \<longleftrightarrow> op_valid op f \<and>
     (case op_step grant op f h of (ok, f', h') \<Rightarrow> ops_valid grant ops f' h')"

text \<open>The condition on the callers: offset and length do not wrap around.\<close>

fun no_wrap :: "arena_op \<Rightarrow> bool" where
  "no_wrap (Write v off s) = (unat off + length s < 2 ^ 64)"
| "no_wrap (Read v off n) = (unat off + unat n < 2 ^ 64)"
| "no_wrap op = True"

section \<open>The invariant\<close>

definition arena_ok :: "heap \<Rightarrow> arena \<Rightarrow> bool" where
  "arena_ok h a \<longleftrightarrow> (if arena_data a = 0 then arena_size a = 0
     else \<exists>b. blocks h (arena_data a) = Some b \<and> length b = unat (arena_size a))"

definition arenas_ok :: "vars \<Rightarrow> heap \<Rightarrow> bool" where
  "arenas_ok f h \<longleftrightarrow> 0 < next_addr h \<and> (\<forall>p. p = 0 \<or> next_addr h \<le> p \<longrightarrow> blocks h p = None) \<and>
     (\<forall>v a. f v = Some a \<longrightarrow> arena_ok h a) \<and>
     (\<forall>v w a b. f v = Some a \<longrightarrow> f w = Some b \<longrightarrow> arena_data a \<noteq> 0 \<longrightarrow> arena_data a = arena_data b \<longrightarrow> v = w) \<and>
     (\<forall>p. blocks h p \<noteq> None \<longrightarrow> (\<exists>v a. f v = Some a \<and> arena_data a = p))"

lemma arenas_okD:
  assumes "arenas_ok f h"
  shows "0 < next_addr h" and "p = 0 \<or> next_addr h \<le> p \<Longrightarrow> blocks h p = None"
    and "f v = Some a \<Longrightarrow> arena_ok h a"
    and "f v = Some a \<Longrightarrow> f w = Some b \<Longrightarrow> arena_data a \<noteq> 0 \<Longrightarrow> arena_data a = arena_data b \<Longrightarrow> v = w"
    and "blocks h p = Some c \<Longrightarrow> \<exists>v a. f v = Some a \<and> arena_data a = p"
proof -
  from assms have a: "0 < next_addr h" and b: "\<forall>p. p = 0 \<or> next_addr h \<le> p \<longrightarrow> blocks h p = None"
    and c: "\<forall>v a. f v = Some a \<longrightarrow> arena_ok h a"
    and e: "\<forall>v w a b. f v = Some a \<longrightarrow> f w = Some b \<longrightarrow> arena_data a \<noteq> 0 \<longrightarrow> arena_data a = arena_data b \<longrightarrow> v = w"
    and g: "\<forall>p. blocks h p \<noteq> None \<longrightarrow> (\<exists>v a. f v = Some a \<and> arena_data a = p)"
    unfolding arenas_ok_def by - (elim conjE, assumption)+
  show "0 < next_addr h" by (fact a)
  show "p = 0 \<or> next_addr h \<le> p \<Longrightarrow> blocks h p = None" by (rule b [rule_format])
  show "f v = Some a \<Longrightarrow> arena_ok h a" by (rule c [rule_format])
  show "f v = Some a \<Longrightarrow> f w = Some b \<Longrightarrow> arena_data a \<noteq> 0 \<Longrightarrow> arena_data a = arena_data b \<Longrightarrow> v = w"
    by (rule e [rule_format])
  show "blocks h p = Some c \<Longrightarrow> \<exists>v a. f v = Some a \<and> arena_data a = p" using g by simp
qed

lemma arenas_okI:
  assumes "0 < next_addr h" and "\<And>p. p = 0 \<or> next_addr h \<le> p \<Longrightarrow> blocks h p = None"
    and "\<And>v a. f v = Some a \<Longrightarrow> arena_ok h a"
    and "\<And>v w a b. f v = Some a \<Longrightarrow> f w = Some b \<Longrightarrow> arena_data a \<noteq> 0 \<Longrightarrow> arena_data a = arena_data b \<Longrightarrow> v = w"
    and "\<And>p c. blocks h p = Some c \<Longrightarrow> \<exists>v a. f v = Some a \<and> arena_data a = p"
  shows "arenas_ok f h"
  unfolding arenas_ok_def
proof (intro conjI allI impI)
  show "\<exists>v a. f v = Some a \<and> arena_data a = p" if "blocks h p \<noteq> None" for p
    using that assms(5) by blast
qed (fact assms(1) assms(2) assms(3) assms(4))+

lemma arena_ok_block:
  "arena_ok h a \<Longrightarrow> arena_data a \<noteq> 0 \<Longrightarrow> \<exists>b. blocks h (arena_data a) = Some b \<and> length b = unat (arena_size a)"
  by (simp add: arena_ok_def)

text \<open>A new block for a variable that held nothing.\<close>

lemma arenas_ok_add:
  assumes ok: "arenas_ok f h" and v: "f v = None" and len: "length b = unat n"
    and h': "blocks h' = (blocks h)(next_addr h \<mapsto> b)" "next_addr h' = next_addr h + 1"
  shows "arenas_ok (f(v \<mapsto> \<lparr>arena_size = n, arena_data = next_addr h\<rparr>)) h'"
proof -
  note d = arenas_okD [OF ok]
  have old: "arena_data a < next_addr h" if "f w = Some a" for w a
    using d(3) [OF that] d(1) d(2) [of "arena_data a"] by (cases "arena_data a = 0") (force simp: arena_ok_def)+
  show ?thesis
  proof (rule arenas_okI)
    show "arena_ok h' a" if "(f(v \<mapsto> \<lparr>arena_size = n, arena_data = next_addr h\<rparr>)) w = Some a" for w a
    proof (cases "w = v")
      case True
      with that len h' d(1) show ?thesis by (auto simp: arena_ok_def)
    next
      case False
      with that have "f w = Some a" by simp
      with d(3) [OF this] old [OF this] h' show ?thesis by (auto simp: arena_ok_def)
    qed
    show "\<exists>w a. (f(v \<mapsto> \<lparr>arena_size = n, arena_data = next_addr h\<rparr>)) w = Some a \<and> arena_data a = p"
      if "blocks h' p = Some c" for p c
    proof (cases "p = next_addr h")
      case True
      then show ?thesis by (intro exI [of _ v]) simp
    next
      case False
      with that h' have "blocks h p = Some c" by simp
      from d(5) [OF this] obtain w a where "f w = Some a" "arena_data a = p" by blast
      with v show ?thesis by (intro exI [of _ w] exI [of _ a]) auto
    qed
    show "u = w" if "(f(v \<mapsto> \<lparr>arena_size = n, arena_data = next_addr h\<rparr>)) u = Some a"
        "(f(v \<mapsto> \<lparr>arena_size = n, arena_data = next_addr h\<rparr>)) w = Some b"
        "arena_data a \<noteq> 0" "arena_data a = arena_data b" for u w a b
    proof (cases "u = v"; cases "w = v")
      assume "u = v" "w \<noteq> v"
      with that have "f w = Some b" "arena_data b = next_addr h" by auto
      with old [of w b] show ?thesis by simp
    next
      assume "u \<noteq> v" "w = v"
      with that have "f u = Some a" "arena_data a = next_addr h" by auto
      with old [of u a] show ?thesis by simp
    next
      assume "u \<noteq> v" "w \<noteq> v"
      with that have "f u = Some a" "f w = Some b" by simp_all
      then show ?thesis using that(3,4) by (rule d(4))
    qed simp
  qed (use d(1,2) h' in auto)
qed

lemma arenas_ok_add_empty:
  assumes "arenas_ok f h" and "f v = None"
  shows "arenas_ok (f(v \<mapsto> \<lparr>arena_size = 0, arena_data = 0\<rparr>)) h"
proof (rule arenas_okI)
  note d = arenas_okD [OF assms(1)]
  show "\<exists>w a. (f(v \<mapsto> \<lparr>arena_size = 0, arena_data = 0\<rparr>)) w = Some a \<and> arena_data a = p" if "blocks h p = Some c" for p c
    using d(5) [OF that] assms(2) by (metis fun_upd_apply option.distinct(1))
qed (use arenas_okD [OF assms(1)] in \<open>auto simp: arena_ok_def split: if_splits\<close>)

text \<open>A block that goes, with the variable that held it.\<close>

lemma arenas_ok_remove:
  assumes ok: "arenas_ok f h" and a: "f v = Some a"
    and h': "blocks h' = (if arena_data a = 0 then blocks h else (blocks h)(arena_data a := None))"
      "next_addr h' = next_addr h"
  shows "arenas_ok (f(v := None)) h'"
proof (rule arenas_okI)
  note d = arenas_okD [OF ok]
  show "arena_ok h' b" if "(f(v := None)) w = Some b" for w b
  proof -
    from that have w: "f w = Some b" "w \<noteq> v" by (auto split: if_splits)
    with d(4) [OF w(1) a] have "arena_data b \<noteq> 0 \<Longrightarrow> arena_data b \<noteq> arena_data a" by blast
    with d(3) [OF w(1)] h'(1) show ?thesis by (auto simp: arena_ok_def)
  qed
  show "\<exists>w b. (f(v := None)) w = Some b \<and> arena_data b = p" if "blocks h' p = Some c" for p c
  proof -
    from that h'(1) have p: "blocks h p = Some c" "p \<noteq> arena_data a \<or> arena_data a = 0" by (auto split: if_splits)
    from d(5) [OF p(1)] obtain w b where wb: "f w = Some b" "arena_data b = p" by blast
    have "p \<noteq> 0" using p(1) d(2) [of p] by fastforce
    with p(2) wb a have "w \<noteq> v" by auto
    with wb show ?thesis by (intro exI [of _ w]) simp
  qed
qed (use arenas_okD [OF ok] h' in \<open>auto split: if_splits\<close>)

text \<open>Renaming the owner of a block.\<close>

lemma arenas_ok_rename:
  assumes ok: "arenas_ok f h" and "f w = Some a" and "f v = None"
  shows "arenas_ok (f(w \<mapsto> empty_arena, v \<mapsto> a)) h"
proof (rule arenas_okI)
  note d = arenas_okD [OF ok]
  show "\<exists>u b. (f(w \<mapsto> empty_arena, v \<mapsto> a)) u = Some b \<and> arena_data b = p" if p: "blocks h p = Some c" for p c
  proof -
    from d(5) [OF p] obtain u b where u: "f u = Some b" "arena_data b = p" by blast
    with assms(2,3) show ?thesis by (intro exI [of _ "if u = w then v else u"] exI [of _ b]) auto
  qed
  show "x = y" if "(f(w \<mapsto> empty_arena, v \<mapsto> a)) x = Some b" "(f(w \<mapsto> empty_arena, v \<mapsto> a)) y = Some c"
      "arena_data b \<noteq> 0" "arena_data b = arena_data c" for x y b c
  proof -
    have "(x = v \<and> b = a \<or> x \<noteq> v \<and> x \<noteq> w \<and> f x = Some b)" "(y = v \<and> c = a \<or> y \<noteq> v \<and> y \<noteq> w \<and> f y = Some c)"
      using that by (auto simp: empty_arena_def split: if_splits)
    with that(3,4) d(4) assms(2) show ?thesis by metis
  qed
  show "arena_ok h b" if "(f(w \<mapsto> empty_arena, v \<mapsto> a)) u = Some b" for u b
    using that d(3) assms(2) by (auto simp: arena_ok_def empty_arena_def split: if_splits)
qed (use arenas_okD [OF ok] in auto)

lemma arenas_ok_calls [simp]: "arenas_ok f (h\<lparr>calls := n\<rparr>) = arenas_ok f h"
  by (simp add: arenas_ok_def arena_ok_def)

text \<open>Contents of a block change, its length does not.\<close>

lemma arenas_ok_store:
  assumes ok: "arenas_ok f h" and "blocks h p = Some b" and "length b' = length b"
  shows "arenas_ok f (h\<lparr>blocks := (blocks h)(p \<mapsto> b')\<rparr>)"
proof (rule arenas_okI)
  note d = arenas_okD [OF ok]
  show "arena_ok (h\<lparr>blocks := (blocks h)(p \<mapsto> b')\<rparr>) a" if "f v = Some a" for v a
    using d(3) [OF that] assms(2,3) by (auto simp: arena_ok_def)
  show "q = 0 \<or> next_addr (h\<lparr>blocks := (blocks h)(p \<mapsto> b')\<rparr>) \<le> q \<Longrightarrow> blocks (h\<lparr>blocks := (blocks h)(p \<mapsto> b')\<rparr>) q = None" for q
    using d(2) [of q] assms(2) by auto
  show "\<exists>v a. f v = Some a \<and> arena_data a = q" if "blocks (h\<lparr>blocks := (blocks h)(p \<mapsto> b')\<rparr>) q = Some c" for q c
    using that d(5) [of q] d(5) [OF assms(2)] by (cases "q = p") auto
qed (use arenas_okD [OF ok] in auto)

section \<open>The operations keep it\<close>

lemma malloc_cases:
  assumes "0 < next_addr h"
  obtains (granted) "malloc grant n h = (next_addr h, h\<lparr>blocks := (blocks h)(next_addr h \<mapsto> replicate (unat n) None),
      next_addr := next_addr h + 1, calls := calls h + 1\<rparr>)"
  | (refused) "malloc grant n h = (0, h\<lparr>calls := calls h + 1\<rparr>)"
  by (cases "grant (calls h)") (simp_all add: malloc_def)

lemma keep_new_simps [simp]:
  "keep_new v f (Ok a, h) = (True, f(v \<mapsto> a), h)" "keep_new v f (Throw e, h) = (True, f, h)"
  "keep_new v f (Undefined, h) = (False, f, h)"
  by (simp_all add: keep_new_def)

definition good :: "bool \<times> vars \<times> heap \<Rightarrow> bool" where
  "good r \<longleftrightarrow> (case r of (ok, f, h) \<Rightarrow> ok \<and> arenas_ok f h)"

lemma good_simp [simp]: "good (ok, f, h) \<longleftrightarrow> ok \<and> arenas_ok f h"
  by (simp add: good_def)

lemma construct_good:
  assumes ok: "arenas_ok f h" and v: "f v = None"
  shows "good (keep_new v f (Arena_new grant n h))"
proof (cases "n = 0")
  case True
  with ok v show ?thesis by (simp add: Arena_new_def arenas_ok_add_empty)
next
  case False
  note n = this arenas_okD(1) [OF ok]
  from n(2) show ?thesis
  proof (cases rule: malloc_cases [of h grant n])
    case granted
    with n show ?thesis
      using arenas_ok_add [OF ok v, of "replicate (unat n) None" n] by (simp add: Arena_new_def)
  next
    case refused
    with n ok show ?thesis by (simp add: Arena_new_def)
  qed
qed

text \<open>What the copy constructor does to an arena that satisfies the invariant.\<close>

lemma copy_cases:
  assumes ok: "arenas_ok f h" and a: "f w = Some a"
  obtains (empty) "arena_size a = 0" and "Arena_copy grant a h = (Ok \<lparr>arena_size = 0, arena_data = 0\<rparr>, h)"
  | (refused) "Arena_copy grant a h = (Throw Bad_alloc, h\<lparr>calls := calls h + 1\<rparr>)"
  | (copied) b where "arena_size a \<noteq> 0" and "blocks h (arena_data a) = Some b" and "length b = unat (arena_size a)"
      and "Arena_copy grant a h = (Ok \<lparr>arena_size = arena_size a, arena_data = next_addr h\<rparr>,
        h\<lparr>blocks := (blocks h)(next_addr h \<mapsto> b), next_addr := next_addr h + 1, calls := calls h + 1\<rparr>)"
proof (cases "arena_size a = 0")
  case True
  then show ?thesis using that(1) by (simp add: Arena_copy_def)
next
  case False
  note n = arenas_okD(1) [OF ok]
  from False arenas_okD(3) [OF ok a] obtain b where
    b: "blocks h (arena_data a) = Some b" "length b = unat (arena_size a)"
    by (auto simp: arena_ok_def split: if_splits)
  have fresh: "arena_data a \<noteq> next_addr h" using b(1) arenas_okD(2) [OF ok, of "next_addr h"] by auto
  have ne: "b \<noteq> []" using False b(2) by (auto simp: unat_eq_zero)
  from n show ?thesis
  proof (cases rule: malloc_cases [of h grant "arena_size a"])
    case granted
    have "unat (arena_size a) \<noteq> 0" using False by (simp add: unat_eq_zero)
    with granted False b fresh ne n have "Arena_copy grant a h = (Ok \<lparr>arena_size = arena_size a, arena_data = next_addr h\<rparr>,
        h\<lparr>blocks := (blocks h)(next_addr h \<mapsto> b), next_addr := next_addr h + 1, calls := calls h + 1\<rparr>)"
      by (cases h) (simp add: Arena_copy_def load_bytes_def store_bytes_def)
    with False b show ?thesis by (intro that(3))
  next
    case refused
    with False show ?thesis by (intro that(2)) (simp add: Arena_copy_def)
  qed
qed

lemma copy_construct_good:
  assumes ok: "arenas_ok f h" and v: "f v = None" and a: "f w = Some a"
  shows "good (keep_new v f (Arena_copy grant a h))"
  using ok a
proof (cases rule: copy_cases [of f h w a grant])
  case empty
  with ok v show ?thesis by (simp add: arenas_ok_add_empty)
next
  case refused
  with ok show ?thesis by simp
next
  case (copied b)
  then show ?thesis using arenas_ok_add [OF ok v, of b "arena_size a"] by simp
qed

lemma move_construct_good:
  assumes "arenas_ok f h" and "f v = None" and "f w = Some a"
  shows "good (op_step grant (Move_construct v w) f h)"
  using arenas_ok_rename [OF assms(1,3,2)] assms(3) by (simp add: Arena_move_def)

lemma free_good:
  assumes ok: "arenas_ok f h" and a: "f v = Some a"
  shows "\<exists>h'. free (arena_data a) h = (Ok (), h') \<and> arenas_ok (f(v := None)) h' \<and> next_addr h' = next_addr h \<and>
    calls h' = calls h \<and> blocks h' = (if arena_data a = 0 then blocks h else (blocks h)(arena_data a := None))"
proof (cases "arena_data a = 0")
  case True
  with arenas_ok_remove [OF ok a, of h] show ?thesis by (simp add: free_def)
next
  case False
  with arenas_okD(3) [OF ok a] obtain b where "blocks h (arena_data a) = Some b"
    by (auto dest: arena_ok_block)
  with False arenas_ok_remove [OF ok a, of "h\<lparr>blocks := (blocks h)(arena_data a := None)\<rparr>"]
  show ?thesis by (simp add: free_def)
qed

lemma copy_assign_good:
  assumes ok: "arenas_ok f h" and x: "f v = Some x" and a: "f w = Some a"
  shows "good (keep_new v f (Arena_copy_assign grant x a h))"
  using ok a
proof (cases rule: copy_cases [of f h w a grant])
  case empty
  from free_good [OF ok x] obtain h' where "free (arena_data x) h = (Ok (), h')" "arenas_ok (f(v := None)) h'" by blast
  with empty arenas_ok_add_empty [of "f(v := None)" h' v] show ?thesis
    by (simp add: Arena_copy_assign_def arena_swap_def Arena_destroy_def)
next
  case refused
  with ok show ?thesis by (simp add: Arena_copy_assign_def)
next
  case (copied b)
  let ?h1 = "h\<lparr>blocks := (blocks h)(next_addr h \<mapsto> b), next_addr := next_addr h + 1, calls := calls h + 1\<rparr>"
  have ne: "arena_data x \<noteq> next_addr h"
  proof
    assume eq: "arena_data x = next_addr h"
    then have "arena_data x \<noteq> 0" using arenas_okD(1) [OF ok] by simp
    then obtain c where "blocks h (arena_data x) = Some c"
      using arenas_okD(3) [OF ok x] by (auto dest: arena_ok_block)
    then show False using eq arenas_okD(2) [OF ok, of "next_addr h"] by simp
  qed
  from free_good [OF ok x] obtain h0 where h0: "arenas_ok (f(v := None)) h0" "next_addr h0 = next_addr h"
    "blocks h0 = (if arena_data x = 0 then blocks h else (blocks h)(arena_data x := None))" by blast
  define h2 where "h2 = (if arena_data x = 0 then ?h1 else ?h1\<lparr>blocks := (blocks ?h1)(arena_data x := None)\<rparr>)"
  have "blocks ?h1 (arena_data x) \<noteq> None" if "arena_data x \<noteq> 0"
    using that ne arenas_okD(3) [OF ok x] by (auto dest: arena_ok_block)
  then have "free (arena_data x) ?h1 = (Ok (), h2)" by (cases "arena_data x = 0"; auto simp: free_def h2_def)
  moreover have "arenas_ok (f(v := None, v \<mapsto> \<lparr>arena_size = arena_size a, arena_data = next_addr h0\<rparr>)) h2"
    by (rule arenas_ok_add [OF h0(1) _ copied(3)]) (use h0(2,3) ne in \<open>auto simp: h2_def fun_upd_twist\<close>)
  ultimately show ?thesis
    using copied(4) h0(2) by (simp add: Arena_copy_assign_def arena_swap_def Arena_destroy_def)
qed

lemma move_assign_good:
  assumes ok: "arenas_ok f h" and x: "f v = Some x" and a: "f w = Some a" and ne: "v \<noteq> w"
  shows "good (op_step grant (Move_assign v w) f h)"
proof -
  from free_good [OF ok x] obtain h' where h': "free (arena_data x) h = (Ok (), h')" "arenas_ok (f(v := None)) h'"
    by blast
  have "arenas_ok (f(v := None, w \<mapsto> empty_arena, v \<mapsto> a)) h'"
    by (rule arenas_ok_rename [OF h'(2)]) (use a ne in simp_all)
  with h'(1) x a ne show ?thesis by (simp add: Arena_move_assign_def fun_upd_twist)
qed

lemma write_good:
  assumes ok: "arenas_ok f h" and a: "f v = Some a" and nw: "unat off + length s < 2 ^ 64"
  shows "good (op_step grant (Write v off s) f h)"
proof (cases "off + of_nat (length s) > arena_size a \<or> s = []")
  case True
  with ok a show ?thesis by (auto simp: arena_write_def store_bytes_def)
next
  case False
  have sum: "unat (off + of_nat (length s)) = unat off + length s"
    using nw by (simp add: unat_word_ariths unat_of_nat)
  with False have le: "unat off + length s \<le> unat (arena_size a)" by (simp add: word_le_nat_alt not_less)
  with False arenas_okD(3) [OF ok a] obtain b where b: "blocks h (arena_data a) = Some b" "length b = unat (arena_size a)"
    by (auto simp: arena_ok_def split: if_splits)
  have "arenas_ok f (h\<lparr>blocks := (blocks h)(arena_data a \<mapsto> take (unat off) b @ map Some s @ drop (unat off + length s) b)\<rparr>)"
    using le b by (intro arenas_ok_store [OF ok b(1)]) simp
  with False a b le show ?thesis by (simp add: arena_write_def store_bytes_def)
qed

lemma read_good:
  assumes ok: "arenas_ok f h" and a: "f v = Some a" and nw: "unat off + unat n < 2 ^ 64"
  shows "good (op_step grant (Read v off n) f h)"
proof (cases "off + n > arena_size a \<or> unat n = 0")
  case True
  with ok a show ?thesis by (auto simp: arena_read_def load_bytes_def)
next
  case False
  have "unat (off + n) = unat off + unat n" using nw by (simp add: unat_word_ariths)
  with False have le: "unat off + unat n \<le> unat (arena_size a)" by (simp add: word_le_nat_alt not_less)
  with False arenas_okD(3) [OF ok a] obtain b where "blocks h (arena_data a) = Some b" "length b = unat (arena_size a)"
    by (auto simp: arena_ok_def split: if_splits)
  with False ok a le show ?thesis by (simp add: arena_read_def load_bytes_def)
qed

lemma op_step_good:
  assumes ok: "arenas_ok f h" and "op_valid op f" and "no_wrap op"
  shows "good (op_step grant op f h)"
proof (cases op)
  case (Construct v n)
  with assms construct_good show ?thesis by simp
next
  case (Copy_construct v w)
  with assms copy_construct_good [OF ok, of v w] show ?thesis by auto
next
  case (Move_construct v w)
  with assms move_construct_good [OF ok, of v w] show ?thesis by auto
next
  case (Copy_assign v w)
  with assms obtain x a where "f v = Some x" "f w = Some a" by auto
  with Copy_assign ok copy_assign_good [OF ok, of v x w a] show ?thesis by (auto simp: Arena_self_assign_def fun_upd_idem)
next
  case (Move_assign v w)
  with assms obtain x a where xa: "f v = Some x" "f w = Some a" by auto
  show ?thesis
  proof (cases "v = w")
    case True
    with Move_assign xa ok show ?thesis by (simp add: Arena_self_assign_def fun_upd_idem)
  next
    case False
    from move_assign_good [OF ok xa False] Move_assign show ?thesis by simp
  qed
next
  case (Write v off s)
  with assms write_good [OF ok, of v _ off s] show ?thesis by auto
next
  case (Read v off n)
  with assms read_good [OF ok, of v _ off n] show ?thesis by auto
next
  case (Destroy v)
  with assms obtain a where a: "f v = Some a" by auto
  from free_good [OF ok a] Destroy a show ?thesis by (auto simp: Arena_destroy_def)
qed

lemma run_ops_good:
  "arenas_ok f h \<Longrightarrow> ops_valid grant ops f h \<Longrightarrow> \<forall>op\<in>set ops. no_wrap op \<Longrightarrow> good (run_ops grant ops f h)"
proof (induction ops arbitrary: f h)
  case (Cons op ops)
  have "good (op_step grant op f h)" using Cons.prems by (intro op_step_good) simp_all
  then obtain f' h' where "op_step grant op f h = (True, f', h')" "arenas_ok f' h'"
    by (auto simp: good_def split: prod.splits)
  with Cons show ?case by simp
qed simp

section \<open>Contents\<close>

definition contents :: "heap \<Rightarrow> arena \<Rightarrow> char option list" where
  "contents h a = (case blocks h (arena_data a) of None \<Rightarrow> [] | Some b \<Rightarrow> b)"

lemma write_contents_other:
  assumes "arena_data a \<noteq> arena_data b \<or> blocks h (arena_data a) = None"
  shows "contents (snd (arena_write off s a h)) b = contents h b"
  using assms by (auto simp: arena_write_def store_bytes_def contents_def split: option.splits)

lemma null_block: "arenas_ok f h \<Longrightarrow> blocks h 0 = None"
  by (rule arenas_okD(2)) simp_all

text \<open>A write inside the arena.\<close>

lemma word_sum_fits: "unat off + n < 2 ^ 64 \<Longrightarrow> unat (off + of_nat n :: size_t) = unat off + n"
  by (simp add: unat_word_ariths unat_of_nat)

lemma write_inside:
  assumes ok: "arenas_ok f h" and a: "f v = Some a" and nw: "unat off + length s < 2 ^ 64"
    and le: "unat off + length s \<le> unat (arena_size a)"
  shows "\<exists>h'. arena_write off s a h = (Ok (), h') \<and> arena_read off (of_nat (length s)) a h' = Ok (map Some s) \<and>
    (\<forall>i. i < unat off \<or> unat off + length s \<le> i \<longrightarrow> contents h' a ! i = contents h a ! i)"
proof -
  have chk: "\<not> arena_size a < off + of_nat (length s)"
    using le word_sum_fits [OF nw] by (simp add: word_less_nat_alt)
  have len: "unat (of_nat (length s) :: size_t) = length s"
    using nw by (simp add: unat_of_nat)
  show ?thesis
  proof (cases "s = []")
    case True
    with chk show ?thesis by (auto simp: arena_write_def arena_read_def store_bytes_def load_bytes_def)
  next
    case False
    with le have "arena_size a \<noteq> 0" by auto
    with arenas_okD(3) [OF ok a] obtain b where b: "blocks h (arena_data a) = Some b" "length b = unat (arena_size a)"
      by (auto simp: arena_ok_def split: if_splits)
    let ?b = "take (unat off) b @ map Some s @ drop (unat off + length s) b"
    let ?h = "h\<lparr>blocks := (blocks h)(arena_data a \<mapsto> ?b)\<rparr>"
    have "arena_write off s a h = (Ok (), ?h)"
      using False chk b le by (simp add: arena_write_def store_bytes_def)
    moreover have "arena_read off (of_nat (length s)) a ?h = Ok (map Some s)"
      using False chk b le len by (simp add: arena_read_def load_bytes_def)
    moreover have "contents ?h a ! i = contents h a ! i" if "i < unat off \<or> unat off + length s \<le> i" for i
      using that b le by (auto simp: contents_def nth_append)
    ultimately show ?thesis by blast
  qed
qed

text \<open>A write that does not wrap around is inside the block, or throws.\<close>

lemma write_defined:
  assumes "arena_ok h a" and nw: "unat off + length s < 2 ^ 64"
  shows "fst (arena_write off s a h) \<noteq> Undefined"
proof (cases "unat off + length s \<le> unat (arena_size a) \<and> s \<noteq> []")
  case True
  then have "arena_size a \<noteq> 0" by auto
  with assms(1) obtain b where "blocks h (arena_data a) = Some b" "length b = unat (arena_size a)"
    by (auto simp: arena_ok_def split: if_splits)
  with True show ?thesis by (simp add: arena_write_def store_bytes_def)
next
  case False
  then show ?thesis
    using word_sum_fits [OF nw] by (auto simp: arena_write_def store_bytes_def word_less_nat_alt)
qed

section \<open>Properties\<close>

text \<open>C19. Any sequence of constructions, copies, moves, assignments (also to itself), writes,
  reads and destructions of any number of arenas, with allocations failing at any point, has
  defined behaviour as long as offsets and lengths do not wrap around: no double free, no
  access outside a block; every block always has exactly one owner, so that nothing is left
  allocated when the last arena has gone.\<close>

theorem arenas_memory_safe:
  assumes "arenas_ok f h" and "ops_valid grant ops f h" and "\<forall>op\<in>set ops. no_wrap op"
  shows "case run_ops grant ops f h of (ok, f', h') \<Rightarrow>
    ok \<and> arenas_ok f' h' \<and> ((\<forall>v. f' v = None) \<longrightarrow> (\<forall>p. blocks h' p = None))"
proof -
  obtain ok f' h' where r: "run_ops grant ops f h = (ok, f', h')" by (rule prod_cases3)
  with run_ops_good [OF assms] have good: "ok" "arenas_ok f' h'" by simp_all
  have "blocks h' p = None" if "\<forall>v. f' v = None" for p
    using that arenas_okD(5) [OF good(2), of p] by (cases "blocks h' p") auto
  with good r show ?thesis by simp
qed

text \<open>C20. Copies are deep: a copy has the bytes of the original in a block of its own, the
  original is unchanged, and a write with a defined outcome to either of them does not change the
  other. Every write whose offset and length do not wrap around has one; one that wraps past the
  check can hit any memory, and nothing is claimed of it.\<close>

theorem arena_copy_deep:
  assumes "arenas_ok f h" and "f w = Some a" and "Arena_copy grant a h = (Ok c, h')"
  shows "contents h' c = contents h a \<and> contents h' a = contents h a \<and> arena_size c = arena_size a \<and>
    (\<forall>off s. (fst (arena_write off s c h') \<noteq> Undefined \<longrightarrow> contents (snd (arena_write off s c h')) a = contents h' a) \<and>
      (fst (arena_write off s a h') \<noteq> Undefined \<longrightarrow> contents (snd (arena_write off s a h')) c = contents h' c) \<and>
      (unat off + length s < 2 ^ 64 \<longrightarrow>
        fst (arena_write off s c h') \<noteq> Undefined \<and> fst (arena_write off s a h') \<noteq> Undefined))"
  using assms(1,2)
proof (cases rule: copy_cases [of f h w a grant])
  case empty
  with assms(3) have c: "c = \<lparr>arena_size = 0, arena_data = 0\<rparr>" "h' = h" by simp_all
  have n: "blocks h 0 = None" using assms(1) by (rule null_block)
  have "contents h a = []"
    using arenas_okD(3) [OF assms(1,2)] empty(1) n by (auto simp: arena_ok_def contents_def split: if_splits)
  moreover have "contents h c = []" using c n by (simp add: contents_def)
  moreover have "arena_ok h c" "arena_ok h a" using c arenas_okD(3) [OF assms(1,2)] by (simp_all add: arena_ok_def)
  moreover have "arena_data c = 0" using c by simp
  moreover have "contents (snd (arena_write off s c h)) a = contents h a" for off s
    using n c by (intro write_contents_other) simp
  moreover have "contents (snd (arena_write off s a h)) c = contents h c" for off s
    by (intro write_contents_other) (use n c in \<open>cases "arena_data a = 0"; simp\<close>)
  ultimately show ?thesis using c empty(1) by (simp add: write_defined)
next
  case refused
  with assms(3) show ?thesis by simp
next
  case (copied b)
  have "arena_data a \<noteq> next_addr h"
    using copied(2) arenas_okD(2) [OF assms(1), of "next_addr h"] by auto
  moreover have "arena_ok h' c" "arena_ok h' a"
    using assms(3) copied arenas_okD(1) [OF assms(1)] arenas_okD(3) [OF assms(1,2)] calculation
    by (auto simp: arena_ok_def)
  then have "unat off + length s < 2 ^ 64 \<Longrightarrow>
      fst (arena_write off s c h') \<noteq> Undefined \<and> fst (arena_write off s a h') \<noteq> Undefined" for off s
    by (simp add: write_defined)
  ultimately show ?thesis
    using assms(3) copied
    by (auto simp: write_contents_other contents_def [of h] contents_def [of h'] contents_def [of "_\<lparr>calls := _\<rparr>"])
qed

text \<open>What passes the check and is not inside ends outside the block.\<close>

lemma outside_undefined:
  fixes off :: size_t
  assumes "arenas_ok f h" and "f v = Some a" and "unat (arena_size a) < unat off + length s" and "s \<noteq> []"
  shows "store_bytes (arena_data a) (unat off) (map Some s) h = (Undefined, h)"
    and "load_bytes (arena_data a) (unat off) (length s) h = Undefined"
proof -
  have "length b = unat (arena_size a)" if "blocks h (arena_data a) = Some b" for b
    using that arenas_okD(3) [OF assms(1,2)] null_block [OF assms(1)] by (auto simp: arena_ok_def split: if_splits)
  then show "store_bytes (arena_data a) (unat off) (map Some s) h = (Undefined, h)"
    and "load_bytes (arena_data a) (unat off) (length s) h = Undefined"
    using assms(3,4) by (fastforce simp: store_bytes_def load_bytes_def split: option.splits)+
qed

text \<open>C21. \<^verbatim>\<open>write\<close> and \<^verbatim>\<open>read\<close> at any offset, for any length below the width: inside the arena,
  reading back what was written gives it and every other byte is unchanged; outside, the call
  throws \<^verbatim>\<open>out_of_range\<close> and changes nothing, unless the sum of offset and length, taken modulo
  the width as the check does, is back inside: then the call passes the check and accesses
  memory outside the block.\<close>

theorem arena_write_read:
  assumes "arenas_ok f h" and "f v = Some a" and "length s < 2 ^ 64"
  shows "if unat off + length s \<le> unat (arena_size a)
    then (\<exists>h'. arena_write off s a h = (Ok (), h') \<and>
      arena_read off (of_nat (length s)) a h' = Ok (map Some s) \<and>
      (\<forall>i. i < unat off \<or> unat off + length s \<le> i \<longrightarrow> contents h' a ! i = contents h a ! i))
    else if (unat off + length s) mod 2 ^ 64 > unat (arena_size a)
    then arena_write off s a h = (Throw (Out_of_range ''arena write''), h) \<and>
      arena_read off (of_nat (length s)) a h = Throw (Out_of_range ''arena read'')
    else arena_write off s a h = (Undefined, h) \<and> arena_read off (of_nat (length s)) a h = Undefined"
proof -
  have sum: "unat (off + of_nat (length s) :: size_t) = (unat off + length s) mod 2 ^ 64"
    by (simp add: unat_word_ariths unat_of_nat mod_add_right_eq)
  have len: "unat (of_nat (length s) :: size_t) = length s"
    using assms(3) by (simp add: unat_of_nat)
  consider (inside) "unat off + length s \<le> unat (arena_size a)"
    | (caught) "unat (arena_size a) < unat off + length s" "unat (arena_size a) < (unat off + length s) mod 2 ^ 64"
    | (wrapped) "unat (arena_size a) < unat off + length s" "(unat off + length s) mod 2 ^ 64 \<le> unat (arena_size a)"
    by linarith
  then show ?thesis
  proof cases
    case inside
    then have "unat off + length s < 2 ^ 64"
      using unsigned_less [of "arena_size a", where 'a = nat] by simp
    from write_inside [OF assms(1,2) this inside] inside show ?thesis by simp
  next
    case caught
    with sum show ?thesis by (simp add: arena_write_def arena_read_def word_less_nat_alt)
  next
    case wrapped
    then have "s \<noteq> []" using unsigned_less [of off, where 'a = nat] by auto
    from outside_undefined [OF assms(1,2) wrapped(1) this] wrapped sum len show ?thesis
      by (simp add: arena_write_def arena_read_def word_less_nat_alt)
  qed
qed

text \<open>So on every arena that is not empty, writing two bytes at the largest offset, where the sum is
  1, accesses memory outside the block; likewise for reading.\<close>

lemma arena_wraparound:
  assumes "arenas_ok f h" and "f v = Some a" and "arena_size a \<noteq> 0"
  shows "arena_write (- 1) ''ab'' a h = (Undefined, h) \<and> arena_read (- 1) 2 a h = Undefined"
proof -
  have m: "unat (- 1 :: size_t) = 2 ^ 64 - 1" by (simp add: unsigned_minus_1_eq_mask mask_eq_exp_minus_1)
  have "\<not> arena_size a < 1" using assms(3) by (simp add: word_less_nat_alt unat_eq_zero)
  moreover have "unat (arena_size a) < unat (- 1 :: size_t) + length ''ab''"
    unfolding m using unsigned_less [of "arena_size a", where 'a = nat] by simp
  note outside_undefined [OF assms(1,2) this]
  moreover have "length ''ab'' = unat (2 :: size_t)" by simp
  ultimately show ?thesis
    by (simp add: arena_write_def arena_read_def del: list.size)
qed

section \<open>The example and witnesses\<close>

definition empty_heap :: heap where
  "empty_heap = \<lparr>blocks = (\<lambda>_. None), next_addr = 1, calls = 0\<rparr>"

text \<open>\<^verbatim>\<open>main\<close>: variables 1, 2 and 3, destroyed in reverse order.\<close>

definition main_ops :: "arena_op list" where
  "main_ops = [Construct 1 64, Write 1 0 ''cache-key'', Copy_construct 2 1, Move_construct 3 1,
     Read 2 0 9, Read 3 0 9, Destroy 3, Destroy 2, Destroy 1]"

text \<open>What \<^verbatim>\<open>main\<close> prints: \<open>None\<close> when an exception leaves it, and when it would read a byte that was never
  written.\<close>

definition main_out :: "(nat \<Rightarrow> bool) \<Rightarrow> console option" where
  "main_out grant =
     (let con = log_line [''Rule of 0: '', buffer_join (buffer_append ''world''
        (buffer_append ''backend '' (buffer_append ''hello '' [])))] []
      in case Arena_new grant 64 empty_heap of
        (Ok a1, h1) \<Rightarrow> (case arena_write 0 ''cache-key'' a1 h1 of
          (Ok _, h2) \<Rightarrow> (case Arena_copy grant a1 h2 of
            (Ok a2, h3) \<Rightarrow> (case Arena_move a1 of (a3, _) \<Rightarrow>
              (case (arena_read 0 9 a2 h3, arena_read 0 9 a3 h3) of
                (Ok s2, Ok s3) \<Rightarrow> if None \<in> set (s2 @ s3) then None
                  else Some (log_line [''Rule of 5 (move): '', map the s3]
                    (log_line [''Rule of 5 (copy): '', map the s2] con))
              | _ \<Rightarrow> None))
          | _ \<Rightarrow> None)
        | _ \<Rightarrow> None)
      | _ \<Rightarrow> None)"

lemma rule_of_five_main_output:
  "main_out (\<lambda>_. True) =
     Some [''Rule of 0: hello backend world'', ''Rule of 5 (copy): cache-key'', ''Rule of 5 (move): cache-key'']"
  by code_simp

lemma empty_ok: "arenas_ok (\<lambda>_. None) empty_heap"
  by (rule arenas_okI) (simp_all add: empty_heap_def)

lemma main_ops_valid: "ops_valid (\<lambda>_. True) main_ops (\<lambda>_. None) empty_heap"
  by code_simp

theorem arenas_memory_safe_witness:
  "case run_ops (\<lambda>_. True) main_ops (\<lambda>_. None) empty_heap of (ok, f, h) \<Rightarrow> ok \<and> arenas_ok f h"
  using arenas_memory_safe [OF empty_ok main_ops_valid] by (auto simp: main_ops_def)

definition one_arena :: "arena \<times> heap" where
  "one_arena = (\<lparr>arena_size = 64, arena_data = 1\<rparr>,
     \<lparr>blocks = (\<lambda>_. None)(1 \<mapsto> replicate 64 None), next_addr = 2, calls = 1\<rparr>)"

lemma one_arena_ok: "arenas_ok ((\<lambda>_. None)(0 \<mapsto> fst one_arena)) (snd one_arena)"
  by (rule arenas_okI) (auto simp: one_arena_def arena_ok_def split: if_splits)

theorem arena_copy_deep_witness:
  "\<exists>c h'. Arena_copy (\<lambda>_. True) (fst one_arena) (snd one_arena) = (Ok c, h') \<and>
     contents h' c = replicate 64 None \<and> fst (arena_write 0 ''x'' c h') \<noteq> Undefined \<and>
     contents (snd (arena_write 0 ''x'' c h')) (fst one_arena) = replicate 64 None"
proof -
  obtain c h' where c: "Arena_copy (\<lambda>_. True) (fst one_arena) (snd one_arena) = (Ok c, h')"
    by (simp add: one_arena_def Arena_copy_def malloc_def load_bytes_def store_bytes_def)
  from arena_copy_deep [OF one_arena_ok _ c, of 0] have
    "contents h' c = contents (snd one_arena) (fst one_arena)"
    "fst (arena_write 0 ''x'' c h') \<noteq> Undefined"
    "contents (snd (arena_write 0 ''x'' c h')) (fst one_arena) = contents (snd one_arena) (fst one_arena)" by auto
  with c show ?thesis by (simp add: one_arena_def contents_def)
qed

theorem arena_write_read_witness:
  "\<exists>h'. arena_write 60 ''abc'' (fst one_arena) (snd one_arena) = (Ok (), h') \<and>
     arena_read 60 3 (fst one_arena) h' = Ok (map Some ''abc'') \<and>
     arena_write 62 ''abc'' (fst one_arena) (snd one_arena) = (Throw (Out_of_range ''arena write''), snd one_arena) \<and>
     arena_write (- 1) ''ab'' (fst one_arena) (snd one_arena) = (Undefined, snd one_arena)"
  using arena_write_read [OF one_arena_ok, of 0 "fst one_arena" "''abc''" 60]
    arena_write_read [OF one_arena_ok, of 0 "fst one_arena" "''abc''" 62]
    arena_write_read [OF one_arena_ok, of 0 "fst one_arena" "''ab''" "- 1"]
  by (auto simp: one_arena_def unsigned_minus_1_eq_mask mask_eq_exp_minus_1)

end
