(* ===== verification/Connection.thy ===== *)
theory Connection
  imports Prelude
begin

text \<open>
  The connection of \<^verbatim>\<open>examples/state/main.cpp\<close>: one datatype value per state class, one function
  per virtual operation, defined by cases on the current state object, and \<open>transition_to\<close>,
  which logs the two names. An \<open>event\<close> is a call of the public interface.

  Proved: when exactly a connection is ready, and that the queries it executes are those of
  the abstract protocol \<open>proto_step\<close>, which has no console.
\<close>

datatype conn_state = Disconnected | Connecting | Authenticating | Ready

record conn =
  st :: conn_state
  out :: console

fun state_name :: "conn_state \<Rightarrow> string" where
  "state_name Disconnected = ''Disconnected''"
| "state_name Connecting = ''Connecting''"
| "state_name Authenticating = ''Authenticating''"
| "state_name Ready = ''Ready''"

definition say :: "string list \<Rightarrow> conn \<Rightarrow> conn" where
  "say parts c = c\<lparr>out := log_line parts (out c)\<rparr>"

definition transition_to :: "conn_state \<Rightarrow> conn \<Rightarrow> conn" where
  "transition_to s c =
     (say [''state transition: '', state_name (st c), '' -> '', state_name s] c)\<lparr>st := s\<rparr>"

definition connect :: "conn \<Rightarrow> conn" where
  "connect c = (case st c of
     Disconnected \<Rightarrow> transition_to Connecting (say [''starting async connect''] c)
   | Connecting \<Rightarrow> say [''already connecting''] c
   | Authenticating \<Rightarrow> say [''connection already established; waiting for auth''] c
   | Ready \<Rightarrow> say [''connection already ready''] c)"

definition authenticate :: "string \<Rightarrow> conn \<Rightarrow> conn" where
  "authenticate token c = (case st c of
     Disconnected \<Rightarrow> say [''cannot authenticate before connecting''] c
   | Connecting \<Rightarrow> say [''cannot authenticate until socket connects''] c
   | Authenticating \<Rightarrow> say [''sending auth token='', token, '' and waiting for server response''] c
   | Ready \<Rightarrow> say [''already authenticated''] c)"

definition send_query :: "string \<Rightarrow> conn \<Rightarrow> conn" where
  "send_query sql c = (case st c of
     Disconnected \<Rightarrow> say [''dropping query while disconnected: '', sql] c
   | Connecting \<Rightarrow> say [''cannot send query until connected: '', sql] c
   | Authenticating \<Rightarrow> say [''cannot run query before auth completes: '', sql] c
   | Ready \<Rightarrow> say [''executing query: '', sql] c)"

definition on_socket_connected :: "conn \<Rightarrow> conn" where
  "on_socket_connected c = (case st c of
     Disconnected \<Rightarrow> say [''unexpected socket_connected while disconnected''] c
   | Connecting \<Rightarrow> transition_to Authenticating (say [''tcp connected; beginning authentication''] c)
   | Authenticating \<Rightarrow> say [''socket already connected; waiting for auth''] c
   | Ready \<Rightarrow> say [''socket already connected''] c)"

definition on_bytes_received :: "string \<Rightarrow> conn \<Rightarrow> conn" where
  "on_bytes_received bytes c = (case st c of
     Disconnected \<Rightarrow> say [''unexpected bytes while disconnected: '', bytes] c
   | Connecting \<Rightarrow> say [''dropping bytes while connecting: '', bytes] c
   | Authenticating \<Rightarrow>
       (if bytes = ''AUTH_OK'' then transition_to Ready (say [''auth succeeded''] c)
        else if bytes = ''AUTH_FAIL'' then transition_to Disconnected (say [''auth failed''] c)
        else say [''ignoring unexpected auth response: '', bytes] c)
   | Ready \<Rightarrow> say [''received server bytes: '', bytes] c)"

definition on_socket_closed :: "string \<Rightarrow> conn \<Rightarrow> conn" where
  "on_socket_closed reason c = (case st c of
     Disconnected \<Rightarrow> say [''socket already closed: '', reason] c
   | Connecting \<Rightarrow> transition_to Disconnected (say [''connect failed: '', reason] c)
   | Authenticating \<Rightarrow> transition_to Disconnected (say [''socket closed during auth: '', reason] c)
   | Ready \<Rightarrow> transition_to Disconnected (say [''socket closed: '', reason] c))"

datatype event =
    Connect
  | Authenticate string
  | Send_query string
  | Socket_connected
  | Bytes_received string
  | Socket_closed string

fun deliver :: "event \<Rightarrow> conn \<Rightarrow> conn" where
  "deliver Connect c = connect c"
| "deliver (Authenticate token) c = authenticate token c"
| "deliver (Send_query sql) c = send_query sql c"
| "deliver Socket_connected c = on_socket_connected c"
| "deliver (Bytes_received bytes) c = on_bytes_received bytes c"
| "deliver (Socket_closed reason) c = on_socket_closed reason c"

definition Connection_new :: "console \<Rightarrow> conn" where
  "Connection_new con = \<lparr>st = Disconnected, out = con\<rparr>"

definition session :: "event list \<Rightarrow> conn" where
  "session es = fold deliver es (Connection_new [])"

text \<open>The calls of \<^verbatim>\<open>main\<close>.\<close>

definition main_events :: "event list" where
  "main_events = [Send_query ''SELECT 1'', Connect, Send_query ''SELECT * FROM users'', Socket_connected,
     Authenticate ''token-abc'', Bytes_received ''AUTH_OK'', Send_query ''SELECT * FROM users'',
     Socket_closed ''server hung up'']"

definition main_out :: console where
  "main_out = out (fold deliver main_events (Connection_new
     (log_line [''State example: connection behavior depends on current lifecycle state.''] [])))"

section \<open>The abstract protocol\<close>

fun proto_step :: "event \<Rightarrow> conn_state \<Rightarrow> conn_state" where
  "proto_step Connect Disconnected = Connecting"
| "proto_step Socket_connected Connecting = Authenticating"
| "proto_step (Bytes_received b) Authenticating =
     (if b = ''AUTH_OK'' then Ready else if b = ''AUTH_FAIL'' then Disconnected else Authenticating)"
| "proto_step (Socket_closed r) s = Disconnected"
| "proto_step e s = s"

definition proto :: "event list \<Rightarrow> conn_state" where
  "proto es = fold proto_step es Disconnected"

text \<open>The queries sent while the protocol is ready.\<close>

fun executed :: "conn_state \<Rightarrow> event list \<Rightarrow> string list" where
  "executed s [] = []"
| "executed s (e # es) =
     (case e of Send_query sql \<Rightarrow> if s = Ready then [sql] else [] | _ \<Rightarrow> []) @ executed (proto_step e s) es"

definition is_execution :: "string \<Rightarrow> bool" where
  "is_execution l \<longleftrightarrow> take 17 l = ''executing query: ''"

lemmas conn_defs = connect_def authenticate_def send_query_def on_socket_connected_def
  on_bytes_received_def on_socket_closed_def transition_to_def say_def

lemma deliver_st: "st (deliver e c) = proto_step e (st c)"
  by (cases e; cases "st c") (simp_all add: conn_defs)

lemma deliver_out:
  "filter is_execution (out (deliver e c)) = filter is_execution (out c) @
     map (\<lambda>sql. ''executing query: '' @ sql) (executed (st c) [e])"
  by (cases e; cases "st c") (simp_all add: conn_defs log_line_def is_execution_def)

lemma fold_deliver_st: "st (fold deliver es c) = fold proto_step es (st c)"
  by (induction es arbitrary: c) (simp_all add: deliver_st)

lemma executed_Cons: "executed s (e # es) = executed s [e] @ executed (proto_step e s) es"
  by simp

lemma fold_deliver_out:
  "filter is_execution (out (fold deliver es c)) = filter is_execution (out c) @
     map (\<lambda>sql. ''executing query: '' @ sql) (executed (st c) es)"
proof (induction es arbitrary: c)
  case (Cons e es)
  then show ?case
    by (simp only: fold_simps deliver_out deliver_st executed_Cons [of "st c" e es] map_append append_assoc)
qed simp

section \<open>When a connection is in a state\<close>

text \<open>The events after which each state has been left.\<close>

fun leaves :: "conn_state \<Rightarrow> event \<Rightarrow> bool" where
  "leaves Disconnected e = (e = Connect)"
| "leaves Connecting e = (e = Socket_connected \<or> (\<exists>r. e = Socket_closed r))"
| "leaves Authenticating e =
     (e = Bytes_received ''AUTH_OK'' \<or> e = Bytes_received ''AUTH_FAIL'' \<or> (\<exists>r. e = Socket_closed r))"
| "leaves Ready e = (\<exists>r. e = Socket_closed r)"

lemma proto_stays: "\<not> leaves s e \<Longrightarrow> proto_step e s = s"
  by (cases e; cases s) auto

lemma proto_leaves: "leaves s e \<Longrightarrow> proto_step e s \<noteq> s"
  by (cases e; cases s) auto

lemma proto_run_stays: "\<forall>e\<in>set es. \<not> leaves s e \<Longrightarrow> fold proto_step es s = s"
  by (induction es) (simp_all add: proto_stays)

text \<open>The last entry into the current state: after it, nothing has left it.\<close>

lemma last_entry:
  "proto es = s \<Longrightarrow> s \<noteq> Disconnected \<Longrightarrow>
   \<exists>a e b. es = a @ e # b \<and> proto a \<noteq> s \<and> proto_step e (proto a) = s \<and> (\<forall>x\<in>set b. \<not> leaves s x)"
proof (induction es rule: rev_induct)
  case (snoc x es)
  show ?case
  proof (cases "proto es = s")
    case True
    with snoc.prems have "proto_step x s = s" by (simp add: proto_def)
    then have "\<not> leaves s x" using proto_leaves by blast
    moreover from snoc.IH [OF True snoc.prems(2)] obtain a e b where
      "es = a @ e # b" "proto a \<noteq> s" "proto_step e (proto a) = s" "\<forall>x\<in>set b. \<not> leaves s x" by blast
    ultimately show ?thesis by (intro exI [of _ a] exI [of _ e] exI [of _ "b @ [x]"]) auto
  next
    case False
    with snoc.prems show ?thesis by (intro exI [of _ es] exI [of _ x] exI [of _ "[]"]) (simp add: proto_def)
  qed
qed (simp add: proto_def)

lemma enters_Connecting: "proto_step e s = Connecting \<Longrightarrow> s \<noteq> Connecting \<Longrightarrow> s = Disconnected \<and> e = Connect"
  by (cases e; cases s) (auto split: if_splits)

lemma enters_Authenticating:
  "proto_step e s = Authenticating \<Longrightarrow> s \<noteq> Authenticating \<Longrightarrow> s = Connecting \<and> e = Socket_connected"
  by (cases e; cases s) (auto split: if_splits)

lemma enters_Ready:
  "proto_step e s = Ready \<Longrightarrow> s \<noteq> Ready \<Longrightarrow> s = Authenticating \<and> e = Bytes_received ''AUTH_OK''"
  by (cases e; cases s) (auto split: if_splits)

lemma ready_history:
  assumes "proto es = Ready"
  shows "\<exists>a b c d. es = a @ Connect # b @ Socket_connected # c @ Bytes_received ''AUTH_OK'' # d \<and>
    proto a = Disconnected \<and> (\<forall>x\<in>set b. \<not> leaves Connecting x) \<and> (\<forall>x\<in>set c. \<not> leaves Authenticating x) \<and>
    (\<forall>x\<in>set d. \<not> leaves Ready x)"
proof -
  from last_entry [OF assms] obtain as d where
    r: "es = as @ Bytes_received ''AUTH_OK'' # d" "proto as = Authenticating" "\<forall>x\<in>set d. \<not> leaves Ready x"
    using enters_Ready by blast
  from last_entry [OF r(2)] obtain bs c where
    s: "as = bs @ Socket_connected # c" "proto bs = Connecting" "\<forall>x\<in>set c. \<not> leaves Authenticating x"
    using enters_Authenticating by blast
  from last_entry [OF s(2)] obtain a b where
    "bs = a @ Connect # b" "proto a = Disconnected" "\<forall>x\<in>set b. \<not> leaves Connecting x"
    using enters_Connecting by blast
  with r s show ?thesis by auto
qed

lemma ready_history_converse:
  assumes "proto a = Disconnected" and "\<forall>x\<in>set b. \<not> leaves Connecting x" and "\<forall>x\<in>set c. \<not> leaves Authenticating x"
    and "\<forall>x\<in>set d. \<not> leaves Ready x"
  shows "proto (a @ Connect # b @ Socket_connected # c @ Bytes_received ''AUTH_OK'' # d) = Ready"
  using assms by (simp add: proto_def proto_run_stays)

section \<open>Properties\<close>

text \<open>C23. A connection is ready after a sequence of calls and IO events if and only if its last
  lifecycle went the whole way: from disconnected a \<^verbatim>\<open>connect\<close>, then the socket came up before
  it closed, then the server answered \<^verbatim>\<open>AUTH_OK\<close> before it refused or closed, and the socket
  has not closed since. All other calls, in any number, make no difference.\<close>

theorem connection_ready_iff:
  "st (session es) = Ready \<longleftrightarrow>
   (\<exists>a b c d. es = a @ Connect # b @ Socket_connected # c @ Bytes_received ''AUTH_OK'' # d \<and>
     st (session a) = Disconnected \<and> (\<forall>x\<in>set b. \<not> leaves Connecting x) \<and>
     (\<forall>x\<in>set c. \<not> leaves Authenticating x) \<and> (\<forall>x\<in>set d. \<not> leaves Ready x))"
proof -
  have st: "st (session es) = proto es" for es
    by (simp add: session_def proto_def fold_deliver_st Connection_new_def)
  show ?thesis unfolding st using ready_history [of es] ready_history_converse by blast
qed

text \<open>C24. The connection refines the protocol: its state is the protocol's, and the queries it
  executes, in order, are exactly those sent while the protocol is ready; every other query
  is dropped.\<close>

theorem connection_executes:
  "st (session es) = proto es \<and>
   filter is_execution (out (session es)) = map (\<lambda>sql. ''executing query: '' @ sql) (executed Disconnected es)"
  by (simp add: session_def proto_def fold_deliver_st fold_deliver_out Connection_new_def)

section \<open>Witnesses\<close>

theorem connection_ready_iff_witness: "st (session (take 6 main_events)) = Ready"
proof -
  have "take 6 main_events = [Send_query ''SELECT 1''] @ Connect # [Send_query ''SELECT * FROM users''] @
    Socket_connected # [Authenticate ''token-abc''] @ Bytes_received ''AUTH_OK'' # []"
    by (simp add: main_events_def)
  moreover have "st (session [Send_query ''SELECT 1'']) = Disconnected"
    by (simp add: session_def Connection_new_def conn_defs)
  ultimately show ?thesis
    unfolding connection_ready_iff
    by (intro exI [of _ "[Send_query ''SELECT 1'']"] exI [of _ "[Send_query ''SELECT * FROM users'']"]
        exI [of _ "[Authenticate ''token-abc'']"] exI [of _ "[]"]) simp
qed

lemma main_executes_one: "executed Disconnected main_events = [''SELECT * FROM users'']"
  by (simp add: main_events_def)

lemma main_output:
  "main_out = [''State example: connection behavior depends on current lifecycle state.'',
     ''dropping query while disconnected: SELECT 1'', ''starting async connect'',
     ''state transition: Disconnected -> Connecting'',
     ''cannot send query until connected: SELECT * FROM users'', ''tcp connected; beginning authentication'',
     ''state transition: Connecting -> Authenticating'', ''sending auth token=token-abc and waiting for server response'',
     ''auth succeeded'', ''state transition: Authenticating -> Ready'', ''executing query: SELECT * FROM users'',
     ''socket closed: server hung up'', ''state transition: Ready -> Disconnected'']"
  by code_simp

end
