(* ===== verification/CacheStore.thy ===== *)
theory CacheStore
  imports Prelude
begin

text \<open>
  The contract of the caches in the examples and of the clients that read through them.
  \<open>cache_store\<close> is the law of a cache: after an insertion a lookup returns the inserted value
  at that key and what it returned before at every other. \<open>read_through\<close> is the contract of a
  lookup that asks the cache first, then the source behind it, and keeps what the source
  knows. What a sequence of such lookups answers, leaves in the cache and asks of the source
  is proved once here, for every client.
\<close>

fun lookups :: "('k \<Rightarrow> 'c \<Rightarrow> 'v option \<times> 'c) \<Rightarrow> 'k list \<Rightarrow> 'c \<Rightarrow> 'v option list \<times> 'c" where
  "lookups f [] c = ([], c)"
| "lookups f (k # ks) c = (let (v, c') = f k c; (vs, c'') = lookups f ks c' in (v # vs, c''))"

text \<open>The keys of a sequence of lookups that are not in the cache when their turn comes.\<close>

fun misses_of :: "('k \<Rightarrow> 'c \<Rightarrow> 'v option) \<Rightarrow> ('k \<Rightarrow> 'c \<Rightarrow> 'v option \<times> 'c) \<Rightarrow> 'k list \<Rightarrow> 'c \<Rightarrow> 'k list" where
  "misses_of g f [] c = []"
| "misses_of g f (k # ks) c = (if g k c = None then [k] else []) @ misses_of g f ks (snd (f k c))"

definition cached_or :: "'v option \<Rightarrow> 'v option \<Rightarrow> 'v option" where
  "cached_or a b = (case a of Some v \<Rightarrow> Some v | None \<Rightarrow> b)"

lemma cached_or_simps [simp]: "cached_or (Some v) b = Some v" "cached_or None b = b" "cached_or a None = a"
  by (simp_all add: cached_or_def split: option.split)

lemma lookups_append:
  "lookups f (ks @ ls) c = (fst (lookups f ks c) @ fst (lookups f ls (snd (lookups f ks c))),
     snd (lookups f ls (snd (lookups f ks c))))"
  by (induction ks arbitrary: c) (auto simp: Let_def split: prod.split)

lemma length_lookups [simp]: "length (fst (lookups f ks c)) = length ks"
  by (induction ks arbitrary: c) (simp_all add: Let_def split_beta)

locale cache_store =
  fixes get :: "'k \<Rightarrow> 'c \<Rightarrow> 'v option" and put :: "'k \<Rightarrow> 'v \<Rightarrow> 'c \<Rightarrow> 'c"
  assumes get_put: "get k' (put k v c) = (if k' = k then Some v else get k' c)"
begin

lemma get_fold_put:
  "get k (fold (\<lambda>(k, v). put k v) kvs c) = cached_or (map_of (rev kvs) k) (get k c)"
  by (induction kvs arbitrary: c) (auto simp: get_put map_add_def cached_or_def split: option.splits)

lemma put_put_same: "get k' (put k v (put k w c)) = get k' (put k v c)"
  by (simp add: get_put)

lemma put_commute: "k \<noteq> l \<Longrightarrow> get k' (put k v (put l w c)) = get k' (put l w (put k v c))"
  by (simp add: get_put)

end

locale read_through = cache_store get put
  for get :: "'k \<Rightarrow> 'c \<Rightarrow> 'v option" and put :: "'k \<Rightarrow> 'v \<Rightarrow> 'c \<Rightarrow> 'c" +
  fixes load :: "'k \<Rightarrow> 'v option" and lookup :: "'k \<Rightarrow> 'c \<Rightarrow> 'v option \<times> 'c"
  assumes lookup_hit: "get k c = Some v \<Longrightarrow> fst (lookup k c) = Some v \<and> get k' (snd (lookup k c)) = get k' c"
    and lookup_load: "get k c = None \<Longrightarrow> load k = Some v \<Longrightarrow>
      fst (lookup k c) = Some v \<and> get k' (snd (lookup k c)) = get k' (put k v c)"
    and lookup_unknown: "get k c = None \<Longrightarrow> load k = None \<Longrightarrow>
      fst (lookup k c) = None \<and> get k' (snd (lookup k c)) = get k' c"
begin

lemma lookup_answer: "fst (lookup k c) = cached_or (get k c) (load k)"
  by (cases "get k c"; cases "load k") (simp_all add: lookup_hit lookup_load lookup_unknown)

lemma lookup_cache: "get k' (snd (lookup k c)) = (if k' = k then cached_or (get k c) (load k) else get k' c)"
  by (cases "get k c"; cases "load k") (auto simp: lookup_hit lookup_load lookup_unknown get_put)

lemma lookup_keeps_answer: "cached_or (get k' (snd (lookup k c))) (load k') = cached_or (get k' c) (load k')"
  by (simp add: lookup_cache cached_or_def split: option.split)

lemma lookups_answers: "fst (lookups lookup ks c) = map (\<lambda>k. cached_or (get k c) (load k)) ks"
proof (induction ks arbitrary: c)
  case (Cons k ks)
  then show ?case
    by (simp add: split_beta Let_def lookup_answer lookup_keeps_answer)
qed simp

lemma lookups_cache:
  "get k (snd (lookups lookup ks c)) = (if k \<in> set ks then cached_or (get k c) (load k) else get k c)"
proof (induction ks arbitrary: c)
  case (Cons l ks)
  then show ?case
    by (auto simp: split_beta Let_def lookup_cache cached_or_def split: option.splits)
qed simp

text \<open>The source is asked for a key it knows at most once, and for a cached key never.\<close>

lemma misses_known:
  "load k \<noteq> None \<Longrightarrow>
   count_list (misses_of get lookup ks c) k = (if get k c = None \<and> k \<in> set ks then 1 else 0)"
proof (induction ks arbitrary: c)
  case (Cons l ks)
  then show ?case
    by (auto simp: lookup_cache cached_or_def split: option.splits)
qed simp

lemma misses_unknown:
  "load k = None \<Longrightarrow>
   count_list (misses_of get lookup ks c) k = (if get k c = None then count_list ks k else 0)"
proof (induction ks arbitrary: c)
  case (Cons l ks)
  then show ?case
    by (auto simp: lookup_cache cached_or_def split: option.splits)
qed simp

text \<open>When the source knows every key, it is asked for the distinct keys that were not cached,
  each when it is first asked for.\<close>

lemma misses_total:
  "(\<And>k. load k \<noteq> None) \<Longrightarrow> misses_of get lookup ks c = rev (remdups (rev (filter (\<lambda>k. get k c = None) ks)))"
proof (induction ks rule: rev_induct)
  case (snoc k ks)
  have split: "misses_of get lookup (ks @ [k]) c =
      misses_of get lookup ks c @ (if get k (snd (lookups lookup ks c)) = None then [k] else [])"
    by (induction ks arbitrary: c) (simp_all add: split_beta Let_def)
  show ?case
    using snoc by (auto simp: split lookups_cache cached_or_def split: option.splits)
qed simp

end

section \<open>Maps are caches\<close>

interpretation map_store: cache_store "\<lambda>k m. m k" "\<lambda>k v m. m(k \<mapsto> v)"
  by unfold_locales simp

end
