(* ===== verification/AbstractFactory.thy ===== *)
theory AbstractFactory
  imports CacheStore
begin

text \<open>
  The repository of \<^verbatim>\<open>examples/abstract_factory/main.cpp\<close>: the two database clients and the two
  cache clients as constructors, the two factories that pair them, \<open>get_user_name\<close> with its
  console output, and \<open>run_demo\<close>. User ids are only compared and printed. The repository calls
  its database through the interface \<^verbatim>\<open>DatabaseClient\<close>: a function from an id and the client's
  state to the answer and the next state. The program's clients have no state; a client that
  keeps a list of its calls makes the calls themselves observable.

  Proved: a repository holds the two clients of one family, answers every sequence of lookups as
  that family does, and calls the database once for each user it knows and has not in its cache.
\<close>

datatype database_client = ProductionDatabaseClient | TestDatabaseClient

datatype cache_client = ProductionCacheClient "int \<Rightarrow> string option" | TestCacheClient "int \<Rightarrow> string option"

datatype backend_factory = ProductionBackendFactory | TestBackendFactory

text \<open>The interface \<^verbatim>\<open>DatabaseClient\<close>, and the two clients behind it.\<close>

type_synonym 'd database = "int \<Rightarrow> 'd \<Rightarrow> string option \<times> 'd"

fun load_user :: "database_client database" where
  "load_user user_id ProductionDatabaseClient =
     (if user_id = 42 then Some ''Ada'' else None, ProductionDatabaseClient)"
| "load_user user_id TestDatabaseClient =
     (if user_id = 5 then Some ''test-db-user-5'' else None, TestDatabaseClient)"

fun cache_get :: "cache_client \<Rightarrow> int \<Rightarrow> string option" where
  "cache_get (ProductionCacheClient data) user_id = data user_id"
| "cache_get (TestCacheClient data) user_id = data user_id"

fun cache_put :: "int \<Rightarrow> string \<Rightarrow> cache_client \<times> console \<Rightarrow> cache_client \<times> console" where
  "cache_put user_id name (ProductionCacheClient data, con) =
     (ProductionCacheClient (data(user_id \<mapsto> name)),
      log_line [''prod cache put user='', show_int user_id, '' name='', name] con)"
| "cache_put user_id name (TestCacheClient data, con) =
     (TestCacheClient (data(user_id \<mapsto> name)),
      log_line [''test cache put user='', show_int user_id, '' name='', name] con)"

fun create_database :: "backend_factory \<Rightarrow> database_client" where
  "create_database ProductionBackendFactory = ProductionDatabaseClient"
| "create_database TestBackendFactory = TestDatabaseClient"

fun create_cache :: "backend_factory \<Rightarrow> cache_client" where
  "create_cache ProductionBackendFactory = ProductionCacheClient [7 \<mapsto> ''Grace'']"
| "create_cache TestBackendFactory = TestCacheClient [1 \<mapsto> ''cached-test-user'']"

record 'd user_repository =
  repo_db :: 'd
  repo_cache :: cache_client

definition UserRepository_new :: "backend_factory \<Rightarrow> database_client user_repository" where
  "UserRepository_new f = \<lparr>repo_db = create_database f, repo_cache = create_cache f\<rparr>"

definition get_user_name :: "'d database \<Rightarrow> int \<Rightarrow> 'd user_repository \<times> console \<Rightarrow>
    string option \<times> 'd user_repository \<times> console" where
  "get_user_name load user_id rc = (let (repo, con) = rc in
     case cache_get (repo_cache repo) user_id of
       Some cached \<Rightarrow> (Some cached, repo, log_line [''cache hit for user='', show_int user_id] con)
     | None \<Rightarrow> (let con1 = log_line [''cache miss for user='', show_int user_id] con;
           (answer, db) = load user_id (repo_db repo)
         in case answer of
           Some loaded \<Rightarrow> (let (c, con2) = cache_put user_id loaded (repo_cache repo, con1)
             in (Some loaded, \<lparr>repo_db = db, repo_cache = c\<rparr>, con2))
         | None \<Rightarrow> (None, repo\<lparr>repo_db := db\<rparr>, con1)))"

text \<open>The body of the loop of \<open>run_demo\<close>, and its two attempts.\<close>

definition demo_attempt :: "int \<Rightarrow> nat \<Rightarrow> database_client user_repository \<times> console \<Rightarrow>
    database_client user_repository \<times> console" where
  "demo_attempt user_id attempt rc = (let (repo, con) = rc;
     (user, repo', con') = get_user_name load_user user_id (repo, log_line [''lookup '', show_nat attempt, '':''] con)
     in case user of
       Some name \<Rightarrow> (repo', log_line [''user='', show_int user_id, '' name='', name] con')
     | None \<Rightarrow> (repo', log_line [''user='', show_int user_id, '' not found''] con'))"

definition run_demo :: "string \<Rightarrow> backend_factory \<Rightarrow> int \<Rightarrow> console \<Rightarrow> console" where
  "run_demo label f user_id con =
     snd (fold (demo_attempt user_id) [1, 2] (UserRepository_new f, log_line [label] con))"

definition main_out :: console where
  "main_out = run_demo ''test:'' TestBackendFactory 5 (run_demo ''production:'' ProductionBackendFactory 42
     (log_line [''Abstract Factory example: environment-specific wiring.''] []))"

section \<open>The clients are caches, the repository reads through\<close>

lemma cache_get_put: "cache_get (fst (cache_put k v cc)) k' = (if k' = k then Some v else cache_get (fst cc) k')"
  by (cases cc; cases "fst cc") auto

interpretation client_store: cache_store
  "\<lambda>k cc. cache_get (fst cc) k" "cache_put"
  by unfold_locales (simp add: cache_get_put)

text \<open>The answer of a client of the program, which never changes: it is a parameter of the reading
  client.\<close>

definition known :: "database_client \<Rightarrow> int \<Rightarrow> string option" where
  "known db k = fst (load_user k db)"

lemma load_user_known: "load_user k db = (known db k, db)"
  by (cases db) (simp_all add: known_def)

definition repo_get :: "int \<Rightarrow> cache_client \<times> console \<Rightarrow> string option" where
  "repo_get k cc = cache_get (fst cc) k"

definition repo_lookup :: "database_client \<Rightarrow> int \<Rightarrow> cache_client \<times> console \<Rightarrow> string option \<times> cache_client \<times> console" where
  "repo_lookup db k cc = (let (v, repo, con) = get_user_name load_user k (\<lparr>repo_db = db, repo_cache = fst cc\<rparr>, snd cc)
     in (v, repo_cache repo, con))"

interpretation repository: read_through repo_get cache_put "known db" "repo_lookup db" for db
  by unfold_locales
    (auto simp: repo_get_def cache_get_put repo_lookup_def get_user_name_def load_user_known Let_def split_beta)

lemma get_user_name_lookup:
  "get_user_name load_user k (\<lparr>repo_db = db, repo_cache = c\<rparr>, con) =
   (let (v, c', con') = repo_lookup db k (c, con) in (v, \<lparr>repo_db = db, repo_cache = c'\<rparr>, con'))"
  by (subst repo_lookup_def)
    (auto simp: get_user_name_def load_user_known Let_def split_beta split: option.split)

lemma lookups_repository:
  "lookups (get_user_name load_user) ks (\<lparr>repo_db = db, repo_cache = c\<rparr>, con) =
   (let (vs, c', con') = lookups (repo_lookup db) ks (c, con) in (vs, \<lparr>repo_db = db, repo_cache = c'\<rparr>, con'))"
proof (induction ks arbitrary: c con)
  case (Cons k ks)
  show ?case
    by (cases "repo_lookup db k (c, con)") (simp add: get_user_name_lookup Cons Let_def split_beta)
qed simp

text \<open>A database that records the calls it gets, in front of any database.\<close>

definition recorded :: "'d database \<Rightarrow> ('d \<times> int list) database" where
  "recorded load k dc = (let (v, db) = load k (fst dc) in (v, db, snd dc @ [k]))"

lemma get_user_name_recorded:
  "get_user_name (recorded load_user) k (\<lparr>repo_db = (db, calls), repo_cache = c\<rparr>, con) =
   (let (v, c', con') = repo_lookup db k (c, con) in
     (v, \<lparr>repo_db = (db, calls @ (if repo_get k (c, con) = None then [k] else [])), repo_cache = c'\<rparr>, con'))"
  by (subst repo_lookup_def)
    (auto simp: get_user_name_def recorded_def repo_get_def load_user_known Let_def split_beta split: option.split)

lemma lookups_recorded:
  "lookups (get_user_name (recorded load_user)) ks (\<lparr>repo_db = (db, calls), repo_cache = c\<rparr>, con) =
   (let (vs, c', con') = lookups (repo_lookup db) ks (c, con) in
     (vs, \<lparr>repo_db = (db, calls @ misses_of repo_get (repo_lookup db) ks (c, con)), repo_cache = c'\<rparr>, con'))"
proof (induction ks arbitrary: calls c con)
  case (Cons k ks)
  show ?case
    by (cases "repo_lookup db k (c, con)") (simp add: get_user_name_recorded Cons Let_def split_beta)
qed simp

section \<open>The two families\<close>

text \<open>What a family is, apart from the factory that makes it: a database and a cache of one kind;
  the users it has, and the one of them its cache holds from the start.\<close>

fun matching :: "backend_factory \<Rightarrow> database_client \<Rightarrow> cache_client \<Rightarrow> bool" where
  "matching ProductionBackendFactory ProductionDatabaseClient (ProductionCacheClient data) = True"
| "matching TestBackendFactory TestDatabaseClient (TestCacheClient data) = True"
| "matching f db c = False"

fun family_users :: "backend_factory \<Rightarrow> int \<Rightarrow> string option" where
  "family_users ProductionBackendFactory = [7 \<mapsto> ''Grace'', 42 \<mapsto> ''Ada'']"
| "family_users TestBackendFactory = [1 \<mapsto> ''cached-test-user'', 5 \<mapsto> ''test-db-user-5'']"

fun cached_user :: "backend_factory \<Rightarrow> int" where
  "cached_user ProductionBackendFactory = 7"
| "cached_user TestBackendFactory = 1"

lemma family_answers: "cached_or (cache_get (create_cache f) k) (known (create_database f) k) = family_users f k"
  by (cases f) (simp_all add: cached_or_def known_def)

lemma family_cached: "cache_get (create_cache f) k = None \<longleftrightarrow> k \<noteq> cached_user f"
  by (cases f) simp_all

lemma family_known: "k \<noteq> cached_user f \<Longrightarrow> known (create_database f) k = family_users f k"
  by (cases f) (simp_all add: known_def)

lemma matching_new: "matching f (create_database f) (create_cache f)"
  by (cases f) simp_all

lemma cache_put_matching: "matching f db (fst (cache_put k v (c, con))) = matching f db c"
  by (cases c; cases f; cases db) simp_all

lemma lookups_matching: "matching f db (fst (snd (lookups (repo_lookup db) ks (c, con)))) = matching f db c"
proof (induction ks arbitrary: c con)
  case (Cons k ks)
  have "matching f db (fst (snd (repo_lookup db k (c, con)))) = matching f db c"
    by (auto simp: repo_lookup_def get_user_name_def load_user_known Let_def split_beta cache_put_matching
        split: option.split)
  then show ?case
    using Cons [of "fst (snd (repo_lookup db k (c, con)))" "snd (snd (repo_lookup db k (c, con)))"]
    by (simp add: Let_def split_beta)
qed simp

section \<open>A miss on the console\<close>

text \<open>A miss is a line of the console.\<close>

definition miss_line :: "int \<Rightarrow> string" where
  "miss_line k = ''cache miss for user='' @ show_int k"

lemma miss_line_inject [simp]: "miss_line k = miss_line l \<longleftrightarrow> k = l"
  by (simp add: miss_line_def)

lemma other_lines [simp]:
  "concat [''cache hit for user='', x] \<noteq> miss_line l"
  "concat [''prod cache put user='', x, y, z] \<noteq> miss_line l"
  "concat [''test cache put user='', x, y, z] \<noteq> miss_line l"
  by (simp_all add: miss_line_def)

lemma count_log_line: "count_list (log_line ps con) x = count_list con x + (if concat ps = x then 1 else 0)"
  by (simp add: log_line_def)

lemma cache_put_misses [simp]: "count_list (snd (cache_put k v (c, con))) (miss_line l) = count_list con (miss_line l)"
  by (cases c) (simp_all add: count_log_line del: concat.simps)

lemma miss_line_concat: "concat [''cache miss for user='', show_int k] = miss_line k"
  by (simp add: miss_line_def)

lemma repo_lookup_misses:
  "count_list (snd (snd (repo_lookup db k (c, con)))) (miss_line l) =
   count_list con (miss_line l) + (if k = l \<and> repo_get k (c, con) = None then 1 else 0)"
  by (simp add: repo_lookup_def get_user_name_def repo_get_def load_user_known Let_def split_beta count_log_line
      miss_line_concat del: concat.simps split: option.split)

lemma lookups_misses:
  "count_list (snd (snd (lookups (repo_lookup db) ks cc))) (miss_line l) =
   count_list (snd cc) (miss_line l) + count_list (misses_of repo_get (repo_lookup db) ks cc) l"
proof (induction ks arbitrary: cc)
  case (Cons k ks)
  show ?case
    using repo_lookup_misses [of db k "fst cc" "snd cc" l]
    by (auto simp: split_beta Let_def Cons repo_get_def)
qed simp

lemma misses_family:
  "count_list (misses_of repo_get (repo_lookup (create_database f)) ids (create_cache f, con)) i =
     (if i = cached_user f then 0
      else if family_users f i = None then count_list ids i else if i \<in> set ids then 1 else 0)"
  using repository.misses_known [where db = "create_database f" and k = i and ks = ids and c = "(create_cache f, con)"]
    repository.misses_unknown [where db = "create_database f" and k = i and ks = ids and c = "(create_cache f, con)"]
  by (auto simp: repo_get_def family_cached family_known)
    (auto simp: family_cached [THEN iffD2] count_list_0_iff)

section \<open>Properties\<close>

text \<open>C25. A repository made by a factory is of that factory's family, now and after any sequence of
  lookups: its database and its cache are both the production clients or both the test clients,
  and it answers each lookup with the family's user (Grace and Ada in production, the two test
  users in the test family) or with nothing. With a database that records its calls the answers,
  the cache and the console are the same, and the calls are: none for the user the new cache
  holds, one for the other user of the family however often it is looked up, and one per lookup
  for an id nobody has. Each call has its line \<^verbatim>\<open>cache miss\<close> on the console.\<close>

theorem repository_reads_through:
  "let (names, repo, con') = lookups (get_user_name load_user) ids (UserRepository_new f, con);
       (names', repo', con'') = lookups (get_user_name (recorded load_user)) ids
         (\<lparr>repo_db = (create_database f, []), repo_cache = create_cache f\<rparr>, con);
       asked = snd (repo_db repo')
   in names = map (family_users f) ids \<and> matching f (repo_db repo) (repo_cache repo) \<and>
      names' = names \<and> fst (repo_db repo') = repo_db repo \<and> repo_cache repo' = repo_cache repo \<and> con'' = con' \<and>
      count_list asked i =
        (if i = cached_user f then 0
         else if family_users f i = None then count_list ids i else if i \<in> set ids then 1 else 0) \<and>
      count_list con' (miss_line i) = count_list con (miss_line i) + count_list asked i"
proof -
  have answers: "fst (lookups (repo_lookup (create_database f)) ids (create_cache f, con)) = map (family_users f) ids"
    by (simp add: repository.lookups_answers) (simp add: repo_get_def family_answers)
  have family: "matching f (create_database f)
      (fst (snd (lookups (repo_lookup (create_database f)) ids (create_cache f, con))))"
    by (simp add: lookups_matching matching_new)
  show ?thesis
    using lookups_misses [of "create_database f" ids "(create_cache f, con)" i]
    by (simp add: UserRepository_new_def lookups_repository lookups_recorded Let_def split_beta
        answers family misses_family)
qed

lemma factory_main_output:
  "main_out = [''Abstract Factory example: environment-specific wiring.'',
     ''production:'', ''lookup 1:'', ''cache miss for user=42'', ''prod cache put user=42 name=Ada'',
     ''user=42 name=Ada'', ''lookup 2:'', ''cache hit for user=42'', ''user=42 name=Ada'',
     ''test:'', ''lookup 1:'', ''cache miss for user=5'', ''test cache put user=5 name=test-db-user-5'',
     ''user=5 name=test-db-user-5'', ''lookup 2:'', ''cache hit for user=5'', ''user=5 name=test-db-user-5'']"
  by code_simp

end
