(* ===== verification/Proxy.thy ===== *)
theory Proxy
  imports CacheStore
begin

text \<open>
  The feature-flag services of \<^verbatim>\<open>examples/proxy/main.cpp\<close>. A service is an operation on a state
  and the console; the proxy is built over any inner service, its state the cache and the
  state of the inner one.

  Proved: behind any service whose answer depends on the flag alone the proxy gives the same
  answers and asks it for each distinct flag once, at its first use.
\<close>

type_synonym 's flag_service = "string \<Rightarrow> 's \<times> console \<Rightarrow> bool \<times> 's \<times> console"

definition remote_is_enabled :: "unit flag_service" where
  "remote_is_enabled flag_name sc =
     (flag_name = ''new-checkout'', fst sc, log_line [''remote lookup for flag='', flag_name] (snd sc))"

definition proxy_is_enabled :: "'s flag_service \<Rightarrow> ((string \<Rightarrow> bool option) \<times> 's) flag_service" where
  "proxy_is_enabled inner flag_name sc = (let ((cache, s), con) = sc in
     case cache flag_name of
       Some v \<Rightarrow> (v, (cache, s), log_line [''proxy cache hit for flag='', flag_name] con)
     | None \<Rightarrow> (let (enabled, s', con') = inner flag_name (s, con)
         in (enabled, (cache(flag_name \<mapsto> enabled), s'), con')))"

definition check_flag :: "'s flag_service \<Rightarrow> string \<Rightarrow> 's \<times> console \<Rightarrow> 's \<times> console" where
  "check_flag service flag_name sc = (let (b, s, con) = service flag_name sc
     in (s, log_line [''flag='', flag_name, '' enabled='', show_bool b] con))"

definition main_out :: console where
  "main_out = snd (fold (check_flag (proxy_is_enabled remote_is_enabled))
     [''new-checkout'', ''beta-search'', ''new-checkout'']
     ((Map.empty, ()), log_line [''Proxy example: add caching around a remote client.''] []))"

text \<open>A sequence of calls of a service: the answers and the state after them.\<close>

fun calls :: "'s flag_service \<Rightarrow> string list \<Rightarrow> 's \<times> console \<Rightarrow> bool list \<times> 's \<times> console" where
  "calls service [] sc = ([], sc)"
| "calls service (f # fs) sc = (let (b, sc') = service f sc; (bs, sc'') = calls service fs sc' in (b # bs, sc''))"

section \<open>A recording service\<close>

text \<open>
  An inner service whose state is the list of the flags it has been asked for, newest last,
  and whose answer is any function of the flag. It prints what \<open>report\<close> gives for the flag.
\<close>

definition recording :: "(string \<Rightarrow> bool) \<Rightarrow> (string \<Rightarrow> string list) \<Rightarrow> string list flag_service" where
  "recording answer report flag_name sc = (answer flag_name, fst sc @ [flag_name], snd sc @ report flag_name)"

text \<open>The proxy as a client that reads through its cache.\<close>

definition proxy_get :: "string \<Rightarrow> ((string \<Rightarrow> bool option) \<times> 's) \<times> console \<Rightarrow> bool option" where
  "proxy_get k sc = fst (fst sc) k"

definition proxy_put :: "string \<Rightarrow> bool \<Rightarrow> ((string \<Rightarrow> bool option) \<times> 's) \<times> console \<Rightarrow> ((string \<Rightarrow> bool option) \<times> 's) \<times> console" where
  "proxy_put k v sc = (let ((cache, s), con) = sc in ((cache(k \<mapsto> v), s), con))"

definition proxy_lookup where
  "proxy_lookup answer report k sc = (let (b, sc') = proxy_is_enabled (recording answer report) k sc in (Some b, sc'))"

lemma proxy_lookup_hit:
  "proxy_get k sc = Some v \<Longrightarrow> proxy_lookup answer report k sc =
   (Some v, fst sc, log_line [''proxy cache hit for flag='', k] (snd sc))"
  by (cases sc) (auto simp: proxy_get_def proxy_lookup_def proxy_is_enabled_def Let_def)

lemma proxy_lookup_miss:
  "proxy_get k sc = None \<Longrightarrow> proxy_lookup answer report k sc =
   (Some (answer k), ((fst (fst sc))(k \<mapsto> answer k), snd (fst sc) @ [k]), snd sc @ report k)"
  by (cases sc) (auto simp: proxy_get_def proxy_lookup_def proxy_is_enabled_def recording_def Let_def)

interpretation proxy_cache: read_through proxy_get proxy_put "\<lambda>k. Some (answer k)" "proxy_lookup answer report"
  for answer report
  by unfold_locales
    (simp_all add: proxy_lookup_hit proxy_lookup_miss, simp_all add: proxy_get_def proxy_put_def Let_def split_beta)

lemma calls_lookups:
  "calls (proxy_is_enabled (recording answer report)) fs sc =
   (map the (fst (lookups (proxy_lookup answer report) fs sc)), snd (lookups (proxy_lookup answer report) fs sc))"
proof (induction fs arbitrary: sc)
  case (Cons f fs)
  have "proxy_lookup answer report f sc = (Some (fst (proxy_is_enabled (recording answer report) f sc)),
      snd (proxy_is_enabled (recording answer report) f sc))"
    by (simp add: proxy_lookup_def split_beta)
  then show ?case
    by (simp add: Cons Let_def split_beta)
qed simp

lemma asked_misses:
  "snd (fst (snd (lookups (proxy_lookup answer report) fs sc))) =
   snd (fst sc) @ misses_of proxy_get (proxy_lookup answer report) fs sc"
proof (induction fs arbitrary: sc)
  case (Cons f fs)
  show ?case
  proof (cases "proxy_get f sc")
    case None
    then show ?thesis by (simp add: Let_def split_beta Cons proxy_lookup_miss)
  next
    case (Some v)
    then show ?thesis by (simp add: Let_def split_beta Cons proxy_lookup_hit)
  qed
qed simp

section \<open>The property\<close>

text \<open>C26. The caching proxy is transparent and saves calls: in front of any service whose answers
  depend on the flag alone, and whatever the service prints, it answers every sequence of
  queries as the service would, and the service is asked exactly once for each distinct flag,
  in the order of their first use.\<close>

theorem proxy_transparent:
  "fst (calls (proxy_is_enabled (recording answer report)) fs ((Map.empty, []), con)) =
     fst (calls (recording answer report) fs ([], con)) \<and>
   snd (fst (snd (calls (proxy_is_enabled (recording answer report)) fs ((Map.empty, []), con)))) =
     rev (remdups (rev fs))"
proof
  have direct: "fst (calls (recording answer report) fs sc) = map answer fs" for sc
    by (induction fs arbitrary: sc) (simp_all add: recording_def Let_def split_beta)
  show "fst (calls (proxy_is_enabled (recording answer report)) fs ((Map.empty, []), con)) =
      fst (calls (recording answer report) fs ([], con))"
    by (simp add: direct calls_lookups proxy_cache.lookups_answers proxy_get_def)
  show "snd (fst (snd (calls (proxy_is_enabled (recording answer report)) fs ((Map.empty, []), con)))) =
      rev (remdups (rev fs))"
    by (simp add: calls_lookups asked_misses proxy_cache.misses_total proxy_get_def)
qed

lemma remote_is_recording:
  "remote_is_enabled f (s, con) = (let (b, s', con') =
     recording (\<lambda>f. f = ''new-checkout'') (\<lambda>f. [''remote lookup for flag='' @ f]) f (l, con) in (b, s, con'))"
  by (simp add: remote_is_enabled_def recording_def log_line_def)

lemma proxy_main_output:
  "main_out = [''Proxy example: add caching around a remote client.'',
     ''remote lookup for flag=new-checkout'', ''flag=new-checkout enabled=1'',
     ''remote lookup for flag=beta-search'', ''flag=beta-search enabled=0'',
     ''proxy cache hit for flag=new-checkout'', ''flag=new-checkout enabled=1'']"
  by code_simp

end
