(* ===== verification/Facade.thy ===== *)
theory Facade
  imports CacheStore
begin

text \<open>
  The batch profile lookup of \<^verbatim>\<open>examples/facade/main.cpp\<close>: the metrics, the cache, the database,
  \<open>fetch_profiles\<close> with its two index vectors and its merge loop, \<open>print_profiles\<close> and \<open>main\<close>.
  The counters are machine \<^verbatim>\<open>int\<close>s; they are modelled as integers, and the bound that keeps
  them in range is the number of ids requested, which the property on the metrics gives.
\<close>

record user_profile =
  user_id :: int
  prof_name :: string
  tier :: string

record metrics =
  cache_hits :: int
  db_hits :: int
  misses :: int

definition record_cache_hit :: "metrics \<Rightarrow> metrics" where
  "record_cache_hit m = m\<lparr>cache_hits := cache_hits m + 1\<rparr>"

definition record_db_hit :: "metrics \<Rightarrow> metrics" where
  "record_db_hit m = m\<lparr>db_hits := db_hits m + 1\<rparr>"

definition record_miss :: "metrics \<Rightarrow> metrics" where
  "record_miss m = m\<lparr>misses := misses m + 1\<rparr>"

definition dump :: "metrics \<Rightarrow> console \<Rightarrow> console" where
  "dump m = log_line [''metrics: cache_hits='', show_int (cache_hits m), '' db_hits='', show_int (db_hits m),
     '' misses='', show_int (misses m)]"

type_synonym table = "int \<Rightarrow> user_profile option"

definition get_many :: "table \<Rightarrow> int list \<Rightarrow> console \<Rightarrow> user_profile option list \<times> console" where
  "get_many cache user_ids con =
     (map cache user_ids, log_line [''cache.get_many('', show_nat (length user_ids), '' ids)''] con)"

definition put_many :: "user_profile list \<Rightarrow> table \<Rightarrow> table" where
  "put_many profiles cache = fold (\<lambda>p m. m(user_id p \<mapsto> p)) profiles cache"

definition load_many :: "table \<Rightarrow> int list \<Rightarrow> console \<Rightarrow> user_profile option list \<times> console" where
  "load_many rows user_ids con =
     (map rows user_ids, log_line [''db.load_many('', show_nat (length user_ids), '' ids)''] con)"

record facade_state =
  cache_tab :: table
  rows :: table
  stats :: metrics
  con :: console

text \<open>The first loop: the ids and positions the cache did not answer, the hits counted.\<close>

definition scan_body :: "int list \<Rightarrow> user_profile option list \<Rightarrow> nat \<Rightarrow> int list \<times> nat list \<times> metrics
    \<Rightarrow> int list \<times> nat list \<times> metrics" where
  "scan_body user_ids results i s = (let (missed_ids, missed_positions, m) = s in
     if results ! i \<noteq> None then (missed_ids, missed_positions, record_cache_hit m)
     else (missed_ids @ [user_ids ! i], missed_positions @ [i], m))"

definition scan_results :: "int list \<Rightarrow> user_profile option list \<Rightarrow> metrics \<Rightarrow> int list \<times> nat list \<times> metrics" where
  "scan_results user_ids results m = fold (scan_body user_ids results) [0..<length results] ([], [], m)"

text \<open>The second loop: the answers of the database put back at their positions.\<close>

definition merge_body :: "nat list \<Rightarrow> user_profile option list \<Rightarrow> nat \<Rightarrow>
    user_profile option list \<times> user_profile list \<times> metrics \<Rightarrow> user_profile option list \<times> user_profile list \<times> metrics" where
  "merge_body missed_positions loaded i s = (let (results, profiles_to_cache, m) = s in
     case loaded ! i of
       Some p \<Rightarrow> (results[missed_positions ! i := Some p], profiles_to_cache @ [p], record_db_hit m)
     | None \<Rightarrow> (results, profiles_to_cache, record_miss m))"

definition merge_loaded :: "nat list \<Rightarrow> user_profile option list \<Rightarrow> user_profile option list \<Rightarrow> metrics \<Rightarrow>
    user_profile option list \<times> user_profile list \<times> metrics" where
  "merge_loaded missed_positions loaded results m =
     fold (merge_body missed_positions loaded) [0..<length loaded] (results, [], m)"

definition fetch_profiles :: "int list \<Rightarrow> facade_state \<Rightarrow> user_profile option list \<times> facade_state" where
  "fetch_profiles user_ids f = (let
     (results, con1) = get_many (cache_tab f) user_ids (con f);
     (missed_ids, missed_positions, m1) = scan_results user_ids results (stats f)
   in if missed_ids = [] then (results, f\<lparr>stats := m1, con := con1\<rparr>)
      else (let
        (loaded, con2) = load_many (rows f) missed_ids con1;
        (results', profiles_to_cache, m2) = merge_loaded missed_positions loaded results m1;
        cache' = (if profiles_to_cache \<noteq> [] then put_many profiles_to_cache (cache_tab f) else cache_tab f)
      in (results', f\<lparr>cache_tab := cache', stats := m2, con := con2\<rparr>)))"

definition print_profile :: "int \<times> user_profile option \<Rightarrow> console \<Rightarrow> console" where
  "print_profile ip = (case snd ip of
     Some p \<Rightarrow> log_line [''user='', show_int (fst ip), '' name='', prof_name p, '' tier='', tier p]
   | None \<Rightarrow> log_line [''user='', show_int (fst ip), '' not found''])"

definition print_profiles :: "int list \<Rightarrow> user_profile option list \<Rightarrow> console \<Rightarrow> console" where
  "print_profiles user_ids profiles = fold print_profile (zip user_ids profiles)"

definition grace :: user_profile where
  "grace = \<lparr>user_id = 7, prof_name = ''Grace'', tier = ''gold''\<rparr>"

definition main_rows :: table where
  "main_rows = [42 \<mapsto> \<lparr>user_id = 42, prof_name = ''Ada'', tier = ''platinum''\<rparr>, 7 \<mapsto> grace,
     8 \<mapsto> \<lparr>user_id = 8, prof_name = ''Linus'', tier = ''silver''\<rparr>]"

definition main_init :: facade_state where
  "main_init = \<lparr>cache_tab = [7 \<mapsto> grace], rows = main_rows,
     stats = \<lparr>cache_hits = 0, db_hits = 0, misses = 0\<rparr>,
     con = log_line [''Facade example: one batch API over cache + DB + metrics.''] []\<rparr>"

definition demo_batch :: "string \<Rightarrow> int list \<Rightarrow> facade_state \<Rightarrow> facade_state" where
  "demo_batch label batch_ids f = (let
     (ps, f') = fetch_profiles batch_ids (f\<lparr>con := log_line [label] (con f)\<rparr>)
   in f'\<lparr>con := print_profiles batch_ids ps (con f')\<rparr>)"

definition main_out :: console where
  "main_out = (let batch_ids = [7, 42, 99, 8, 42];
     f = demo_batch ''second batch:'' batch_ids (demo_batch ''first batch:'' batch_ids main_init)
   in dump (stats f) (con f))"

section \<open>The two loops\<close>

definition missed_at :: "user_profile option list \<Rightarrow> nat list" where
  "missed_at results = filter (\<lambda>i. results ! i = None) [0..<length results]"

lemma scan_results_eq:
  "scan_results user_ids results m = (map ((!) user_ids) (missed_at results), missed_at results,
     m\<lparr>cache_hits := cache_hits m + int (length (filter (\<lambda>r. r \<noteq> None) results))\<rparr>)"
proof -
  have "fold (scan_body user_ids results) [0..<n] ([], [], m) =
      (map ((!) user_ids) (filter (\<lambda>i. results ! i = None) [0..<n]), filter (\<lambda>i. results ! i = None) [0..<n],
       m\<lparr>cache_hits := cache_hits m + int (length (filter (\<lambda>r. r \<noteq> None) (take n results)))\<rparr>)"
    if "n \<le> length results" for n
    using that by (induction n) (auto simp: scan_body_def record_cache_hit_def take_Suc_conv_app_nth)
  from this [of "length results"] show ?thesis
    by (simp add: scan_results_def missed_at_def)
qed

fun merged :: "nat list \<Rightarrow> user_profile option list \<Rightarrow> user_profile option list \<Rightarrow> user_profile option list" where
  "merged (pos # ps) (Some p # ls) results = merged ps ls (results[pos := Some p])"
| "merged (pos # ps) (None # ls) results = merged ps ls results"
| "merged _ _ results = results"

lemma merge_loaded_eq:
  "length ps = length ls \<Longrightarrow> merge_loaded ps ls results m = (merged ps ls results, map the (filter (\<lambda>r. r \<noteq> None) ls),
     m\<lparr>db_hits := db_hits m + int (length (filter (\<lambda>r. r \<noteq> None) ls)),
       misses := misses m + int (length (filter (\<lambda>r. r = None) ls))\<rparr>)"
proof (induction ps ls rule: rev_induct2)
  case (4 pos ps l ls)
  then have len: "length ps = length ls" by simp
  have same: "fold (merge_body (ps @ [pos]) (ls @ [l])) [0..<length ls] s = fold (merge_body ps ls) [0..<length ls] s" for l s
    using len by (intro fold_cong) (auto simp: merge_body_def nth_append fun_eq_iff split: option.split)
  have snoc: "merged (ps @ [pos]) (ls @ [l]) r = merged [pos] [l] (merged ps ls r)" for l r
    using len by (induction ps ls r rule: merged.induct) auto
  show ?case
    using "4.IH" [OF len] len
    by (cases l) (simp_all add: merge_loaded_def same snoc merge_body_def record_db_hit_def record_miss_def nth_append)
qed (simp_all add: merge_loaded_def)


lemma merged_nth:
  "j < length r \<Longrightarrow> merged ps (map g ps) r ! j = (if j \<in> set ps \<and> g j \<noteq> None then g j else r ! j)"
proof (induction ps arbitrary: r)
  case (Cons p ps)
  then show ?case
    by (cases "g p"; cases "p = j") auto
qed simp

lemma length_merged [simp]: "length (merged ps ls r) = length r"
  by (induction ps ls r rule: merged.induct) simp_all

lemma missed_answers:
  "merged (missed_at (map c ids)) (map rs (map ((!) ids) (missed_at (map c ids)))) (map c ids) =
   map (\<lambda>i. cached_or (c i) (rs i)) ids"
proof (rule nth_equalityI)
  fix j assume "j < length (merged (missed_at (map c ids)) (map rs (map ((!) ids) (missed_at (map c ids)))) (map c ids))"
  then have j: "j < length ids" by simp
  then show "merged (missed_at (map c ids)) (map rs (map ((!) ids) (missed_at (map c ids)))) (map c ids) ! j =
      map (\<lambda>i. cached_or (c i) (rs i)) ids ! j"
    using merged_nth [of j "map c ids" "missed_at (map c ids)" "\<lambda>k. rs (ids ! k)"]
    by (auto simp: missed_at_def o_def cached_or_def split: option.splits)
qed simp

lemma missed_ids_eq: "map ((!) ids) (missed_at (map c ids)) = filter (\<lambda>i. c i = None) ids"
proof -
  have "filter (\<lambda>i. c i = None) (map ((!) ids) [0..<length ids]) =
      map ((!) ids) (filter (\<lambda>i. c (ids ! i) = None) [0..<length ids])"
    by (simp add: filter_map o_def)
  moreover have "filter (\<lambda>i. map c ids ! i = None) [0..<length ids] = filter (\<lambda>i. c (ids ! i) = None) [0..<length ids]"
    by (rule filter_cong) simp_all
  ultimately show ?thesis
    by (simp add: missed_at_def map_nth)
qed

text \<open>The rows of a table carry their own key.\<close>

definition well_keyed :: "table \<Rightarrow> bool" where
  "well_keyed t \<longleftrightarrow> (\<forall>k p. t k = Some p \<longrightarrow> user_id p = k)"

lemma put_many_rows:
  "well_keyed rs \<Longrightarrow> put_many (map the (filter (\<lambda>r. r \<noteq> None) (map rs ids))) c =
   (\<lambda>i. if i \<in> set ids then (case rs i of Some p \<Rightarrow> Some p | None \<Rightarrow> c i) else c i)"
  unfolding put_many_def
proof (induction ids arbitrary: c)
  case (Cons k ids)
  show ?case
  proof (cases "rs k")
    case (Some p)
    with Cons.prems have "user_id p = k" by (simp add: well_keyed_def)
    with Some Cons show ?thesis by (auto simp: fun_eq_iff)
  qed (use Cons in \<open>auto simp: fun_eq_iff\<close>)
qed simp

definition answer :: "facade_state \<Rightarrow> int \<Rightarrow> user_profile option" where
  "answer f i = cached_or (cache_tab f i) (rows f i)"

definition count_ids :: "(int \<Rightarrow> bool) \<Rightarrow> int list \<Rightarrow> int" where
  "count_ids P ids = int (length (filter P ids))"

lemma count_ids_0: "(\<And>i. i \<in> set ids \<Longrightarrow> \<not> P i) \<Longrightarrow> count_ids P ids = 0"
  by (simp add: count_ids_def filter_empty_conv)

lemma fetch_eq:
  assumes "well_keyed (rows f)"
  shows "fetch_profiles ids f = (map (answer f) ids,
    f\<lparr>cache_tab := (\<lambda>i. if i \<in> set ids then answer f i else cache_tab f i),
      stats := \<lparr>cache_hits = cache_hits (stats f) + count_ids (\<lambda>i. cache_tab f i \<noteq> None) ids,
        db_hits = db_hits (stats f) + count_ids (\<lambda>i. cache_tab f i = None \<and> rows f i \<noteq> None) ids,
        misses = misses (stats f) + count_ids (\<lambda>i. cache_tab f i = None \<and> rows f i = None) ids\<rparr>,
      con := (let c1 = log_line [''cache.get_many('', show_nat (length ids), '' ids)''] (con f);
        missed = filter (\<lambda>i. cache_tab f i = None) ids
        in if missed = [] then c1 else log_line [''db.load_many('', show_nat (length missed), '' ids)''] c1)\<rparr>)"
proof (cases "filter (\<lambda>i. cache_tab f i = None) ids = []")
  case True
  then have none: "i \<in> set ids \<Longrightarrow> cache_tab f i \<noteq> None" for i by (simp add: filter_empty_conv)
  then have hit: "i \<in> set ids \<Longrightarrow> answer f i = cache_tab f i" for i
    by (fastforce simp: answer_def cached_or_def split: option.split)
  then have tab: "(\<lambda>i. if i \<in> set ids then answer f i else cache_tab f i) = cache_tab f"
    by (simp add: fun_eq_iff)
  have zero: "count_ids (\<lambda>i. cache_tab f i = None \<and> P i) ids = 0" for P
    using none by (intro count_ids_0) simp
  from True missed_ids_eq [of ids "cache_tab f"] have no_miss: "missed_at (map (cache_tab f) ids) = []"
    by (metis map_is_Nil_conv)
  show ?thesis
    by (simp add: fetch_profiles_def get_many_def scan_results_eq no_miss True zero hit tab cong: map_cong)
      (simp add: count_ids_def filter_map o_def)
next
  case False
  let ?missed = "filter (\<lambda>i. cache_tab f i = None) ids"
  let ?ps = "missed_at (map (cache_tab f) ids)"
  have ids: "map ((!) ids) ?ps = ?missed" by (rule missed_ids_eq)
  have len: "length ?ps = length (map (rows f) ?missed)" by (simp flip: ids)
  have res: "merged ?ps (map (rows f) ?missed) (map (cache_tab f) ids) = map (answer f) ids"
    using missed_answers [of "cache_tab f" ids "rows f"] by (simp add: ids answer_def [abs_def])
  have tab: "(\<lambda>i. if i \<in> set ?missed then (case rows f i of Some p \<Rightarrow> Some p | None \<Rightarrow> cache_tab f i)
      else cache_tab f i) = (\<lambda>i. if i \<in> set ids then answer f i else cache_tab f i)"
    by (auto simp: fun_eq_iff answer_def cached_or_def split: option.split)
  define qs where "qs = map the (filter (\<lambda>r. r \<noteq> None) (map (rows f) ?missed))"
  have put: "(if qs \<noteq> [] then put_many qs (cache_tab f) else cache_tab f) =
      (\<lambda>i. if i \<in> set ids then answer f i else cache_tab f i)"
    using put_many_rows [OF assms, of ?missed "cache_tab f"] unfolding tab qs_def [symmetric]
    by (cases "qs = []") (simp_all add: put_many_def)
  have some: "missed_at (map (cache_tab f) ids) \<noteq> []"
    using False ids by (metis list.map_disc_iff)
  have counts: "int (length (filter (\<lambda>r. r \<noteq> None) (map (cache_tab f) ids))) = count_ids (\<lambda>i. cache_tab f i \<noteq> None) ids"
    "int (length (filter (\<lambda>r. r \<noteq> None) (map (rows f) ?missed))) =
      count_ids (\<lambda>i. cache_tab f i = None \<and> rows f i \<noteq> None) ids"
    "int (length (filter (\<lambda>r. r = None) (map (rows f) ?missed))) =
      count_ids (\<lambda>i. cache_tab f i = None \<and> rows f i = None) ids"
    by (simp_all add: count_ids_def filter_map o_def conj_commute)
  show ?thesis
    unfolding fetch_profiles_def get_many_def load_many_def scan_results_eq Let_def prod.case ids
      merge_loaded_eq [OF len] res counts qs_def [symmetric] put
    using some False by simp
qed

section \<open>Batches and single lookups\<close>

text \<open>
  The batch of one id is a lookup that reads through the cache, so a batch answers as the
  single lookups one after the other would, and leaves the same cache.
\<close>

definition single :: "table \<Rightarrow> int \<Rightarrow> facade_state \<Rightarrow> user_profile option \<times> facade_state" where
  "single rs i f = (let (ps, f') = fetch_profiles [i] (f\<lparr>rows := rs\<rparr>) in (ps ! 0, f'))"

lemma single_reads_through:
  assumes "well_keyed rs"
  shows "read_through (\<lambda>i f. cache_tab f i) (\<lambda>i p f. f\<lparr>cache_tab := (cache_tab f)(i \<mapsto> p)\<rparr>) rs (single rs)"
  using assms by unfold_locales (simp_all add: single_def fetch_eq answer_def fun_eq_iff)

lemma main_rows_keyed: "well_keyed main_rows"
  by (simp add: well_keyed_def main_rows_def grace_def)

interpretation profiles: read_through "\<lambda>i f. cache_tab f i" "\<lambda>i p f. f\<lparr>cache_tab := (cache_tab f)(i \<mapsto> p)\<rparr>"
  main_rows "single main_rows"
  by (rule single_reads_through [OF main_rows_keyed])

lemma batch_is_singles:
  assumes "rows f = main_rows"
  shows "fst (fetch_profiles ids f) = fst (lookups (single main_rows) ids f) \<and>
    cache_tab (snd (fetch_profiles ids f)) = cache_tab (snd (lookups (single main_rows) ids f))"
proof -
  have "well_keyed (rows f)" using assms main_rows_keyed by simp
  then show ?thesis
    by (simp add: fetch_eq profiles.lookups_answers profiles.lookups_cache answer_def [abs_def] fun_eq_iff)
      (simp add: assms)
qed

section \<open>Properties\<close>

text \<open>C27. One call of \<open>fetch_profiles\<close>, over any cache and any table whose rows carry their own id,
  is completely determined: the answers stand at the positions of their ids and are the
  cache's, else the table's; the cache gains exactly the answers found; every requested id,
  repeated ones included, is counted as a cache hit, a database hit or a miss by what the
  cache held before the call, so the three counters grow by the number of ids; the table is
  asked once, for the missing ids, or not at all. A second call with the same ids answers the
  same and counts no database hit.\<close>

theorem fetch_profiles_correct:
  assumes "well_keyed (rows f)"
  shows "fetch_profiles ids f = (map (answer f) ids,
    f\<lparr>cache_tab := (\<lambda>i. if i \<in> set ids then answer f i else cache_tab f i),
      stats := \<lparr>cache_hits = cache_hits (stats f) + count_ids (\<lambda>i. cache_tab f i \<noteq> None) ids,
        db_hits = db_hits (stats f) + count_ids (\<lambda>i. cache_tab f i = None \<and> rows f i \<noteq> None) ids,
        misses = misses (stats f) + count_ids (\<lambda>i. cache_tab f i = None \<and> rows f i = None) ids\<rparr>,
      con := (let c1 = log_line [''cache.get_many('', show_nat (length ids), '' ids)''] (con f);
        missed = filter (\<lambda>i. cache_tab f i = None) ids
        in if missed = [] then c1 else log_line [''db.load_many('', show_nat (length missed), '' ids)''] c1)\<rparr>) \<and>
    count_ids (\<lambda>i. cache_tab f i \<noteq> None) ids + count_ids (\<lambda>i. cache_tab f i = None \<and> rows f i \<noteq> None) ids +
      count_ids (\<lambda>i. cache_tab f i = None \<and> rows f i = None) ids = int (length ids) \<and>
    fst (fetch_profiles ids (snd (fetch_profiles ids f))) = fst (fetch_profiles ids f) \<and>
    db_hits (stats (snd (fetch_profiles ids (snd (fetch_profiles ids f))))) = db_hits (stats (snd (fetch_profiles ids f)))"
proof (intro conjI)
  note fetch = fetch_eq [OF assms]
  let ?f = "snd (fetch_profiles ids f)"
  have tab: "cache_tab ?f i = (if i \<in> set ids then answer f i else cache_tab f i)" for i
    by (simp add: fetch)
  have rows: "rows ?f = rows f" by (simp add: fetch)
  with assms have keyed: "well_keyed (rows ?f)" by simp
  have ans: "answer ?f i = answer f i" for i
    by (simp add: answer_def tab rows cached_or_def split: option.split)
  show "fst (fetch_profiles ids ?f) = fst (fetch_profiles ids f)"
    by (simp add: fetch_eq [OF keyed] ans [abs_def]) (simp add: fetch)
  have "count_ids (\<lambda>i. cache_tab ?f i = None \<and> rows ?f i \<noteq> None) ids = 0"
    by (rule count_ids_0) (auto simp: tab rows answer_def cached_or_def split: option.splits)
  then show "db_hits (stats (snd (fetch_profiles ids ?f))) = db_hits (stats ?f)"
    by (simp add: fetch_eq [OF keyed, of ids])
  show "count_ids (\<lambda>i. cache_tab f i \<noteq> None) ids + count_ids (\<lambda>i. cache_tab f i = None \<and> rows f i \<noteq> None) ids +
      count_ids (\<lambda>i. cache_tab f i = None \<and> rows f i = None) ids = int (length ids)"
    by (induction ids) (auto simp: count_ids_def)
qed (rule fetch_eq [OF assms])

theorem fetch_profiles_correct_witness:
  "fst (fetch_profiles [7, 42, 99, 8, 42] main_init) = map (answer main_init) [7, 42, 99, 8, 42] \<and>
   map (answer main_init) [7, 99] = [Some grace, None]"
proof
  have "well_keyed (rows main_init)" by (simp add: main_init_def main_rows_keyed)
  from fetch_profiles_correct [OF this, of "[7, 42, 99, 8, 42]"]
  show "fst (fetch_profiles [7, 42, 99, 8, 42] main_init) = map (answer main_init) [7, 42, 99, 8, 42]" by simp
  show "map (answer main_init) [7, 99] = [Some grace, None]"
    by (simp add: answer_def main_init_def main_rows_def)
qed

lemma facade_main_output:
  "main_out = [''Facade example: one batch API over cache + DB + metrics.'',
     ''first batch:'', ''cache.get_many(5 ids)'', ''db.load_many(4 ids)'', ''user=7 name=Grace tier=gold'',
     ''user=42 name=Ada tier=platinum'', ''user=99 not found'', ''user=8 name=Linus tier=silver'',
     ''user=42 name=Ada tier=platinum'',
     ''second batch:'', ''cache.get_many(5 ids)'', ''db.load_many(1 ids)'', ''user=7 name=Grace tier=gold'',
     ''user=42 name=Ada tier=platinum'', ''user=99 not found'', ''user=8 name=Linus tier=silver'',
     ''user=42 name=Ada tier=platinum'', ''metrics: cache_hits=5 db_hits=3 misses=2'']"
  by code_simp

end
