(* ===== verification/CacheService.thy ===== *)
theory CacheService
  imports CacheStore
begin

text \<open>
  The cache services of \<^verbatim>\<open>examples/nvi/main.cpp\<close>. The three virtual hooks of a derived class are a
  record of functions on its state and the console; the public functions of the base class
  take it as an argument and run the request line, the validation, the metrics line and the
  hook in the order of the code. An exception is the \<open>Inl\<close> of the result, with the state
  reached when it was thrown.

  Proved: whatever the hooks print, the base class calls them exactly for the valid requests,
  so a store behind it only ever holds valid entries, and the counters of \<open>InMemoryCache\<close>
  count its valid gets.
\<close>

record 's hooks =
  get_impl :: "string \<Rightarrow> 's \<times> console \<Rightarrow> 's \<times> console"
  put_impl :: "string \<Rightarrow> string \<Rightarrow> 's \<times> console \<Rightarrow> 's \<times> console"
  remove_impl :: "string \<Rightarrow> 's \<times> console \<Rightarrow> 's \<times> console"

definition validate_key :: "string \<Rightarrow> cpp_exn + unit" where
  "validate_key key =
     (if key = [] then Inl (Invalid_argument ''cache key cannot be empty'')
      else if length key > 256 then Inl (Invalid_argument ''cache key too long (max 256 chars)'')
      else Inr ())"

definition validate_value :: "string \<Rightarrow> cpp_exn + unit" where
  "validate_value v =
     (if length v > 1024 * 1024 then Inl (Invalid_argument ''cache value too large (max 1MB)'') else Inr ())"

definition increment_metrics :: "string \<Rightarrow> console \<Rightarrow> console" where
  "increment_metrics operation = log_line [''[Metrics] cache.'', operation, '' +1'']"

definition service_get :: "'s hooks \<Rightarrow> string \<Rightarrow> 's \<times> console \<Rightarrow> (cpp_exn + unit) \<times> 's \<times> console" where
  "service_get impl key sc = (let con = log_line [''[CacheService] GET request for key: '', key] (snd sc) in
     case validate_key key of
       Inl e \<Rightarrow> (Inl e, fst sc, con)
     | Inr _ \<Rightarrow> (Inr (), get_impl impl key (fst sc, increment_metrics ''get'' con)))"

definition service_put :: "'s hooks \<Rightarrow> string \<Rightarrow> string \<Rightarrow> 's \<times> console \<Rightarrow> (cpp_exn + unit) \<times> 's \<times> console" where
  "service_put impl key v sc = (let con = log_line [''[CacheService] PUT request for key: '', key] (snd sc) in
     case validate_key key of
       Inl e \<Rightarrow> (Inl e, fst sc, con)
     | Inr _ \<Rightarrow> (case validate_value v of
         Inl e \<Rightarrow> (Inl e, fst sc, con)
       | Inr _ \<Rightarrow> (Inr (), put_impl impl key v (fst sc, increment_metrics ''put'' con))))"

definition service_remove :: "'s hooks \<Rightarrow> string \<Rightarrow> 's \<times> console \<Rightarrow> (cpp_exn + unit) \<times> 's \<times> console" where
  "service_remove impl key sc = (let con = log_line [''[CacheService] REMOVE request for key: '', key] (snd sc) in
     case validate_key key of
       Inl e \<Rightarrow> (Inl e, fst sc, con)
     | Inr _ \<Rightarrow> (Inr (), remove_impl impl key (fst sc, increment_metrics ''remove'' con)))"

text \<open>The two implementations.\<close>

record mem_cache =
  entries :: "string \<Rightarrow> string option"
  hits :: int
  misses :: int

definition InMemoryCache :: "mem_cache hooks" where
  "InMemoryCache = \<lparr>
     get_impl = (\<lambda>key (m, con). case entries m key of
         Some v \<Rightarrow> (m\<lparr>hits := hits m + 1\<rparr>, log_line [''[InMemoryCache] HIT: '', key, '' = '', v] con)
       | None \<Rightarrow> (m\<lparr>misses := misses m + 1\<rparr>, log_line [''[InMemoryCache] MISS: '', key] con)),
     put_impl = (\<lambda>key v (m, con). (m\<lparr>entries := (entries m)(key \<mapsto> v)\<rparr>,
         log_line [''[InMemoryCache] STORED: '', key, '' = '', v] con)),
     remove_impl = (\<lambda>key (m, con). (m\<lparr>entries := (entries m)(key := None)\<rparr>,
         if entries m key \<noteq> None then log_line [''[InMemoryCache] REMOVED: '', key] con
         else log_line [''[InMemoryCache] KEY NOT FOUND: '', key] con))\<rparr>"

definition InMemoryCache_new :: mem_cache where
  "InMemoryCache_new = \<lparr>entries = Map.empty, hits = 0, misses = 0\<rparr>"

definition RedisCache :: "unit hooks" where
  "RedisCache = \<lparr>
     get_impl = (\<lambda>key (u, con). (u, log_line [''[RedisCache] GET '', key, '' from Redis cluster''] con)),
     put_impl = (\<lambda>key v (u, con). (u, log_line [''[RedisCache] SET '', key, '' = '', v, '' in Redis cluster''] con)),
     remove_impl = (\<lambda>key (u, con). (u, log_line [''[RedisCache] DEL '', key, '' from Redis cluster''] con))\<rparr>"

datatype request = Get string | Put string string | Remove string

fun perform :: "'s hooks \<Rightarrow> request \<Rightarrow> 's \<times> console \<Rightarrow> (cpp_exn + unit) \<times> 's \<times> console" where
  "perform impl (Get k) sc = service_get impl k sc"
| "perform impl (Put k v) sc = service_put impl k v sc"
| "perform impl (Remove k) sc = service_remove impl k sc"

text \<open>A caller that survives the exceptions, and one that reports them as \<^verbatim>\<open>main\<close> does. The
  requests \<^verbatim>\<open>main\<close> makes outside its two handlers are valid, so none of them throws.\<close>

definition serve :: "'s hooks \<Rightarrow> request list \<Rightarrow> 's \<times> console \<Rightarrow> 's \<times> console" where
  "serve impl rs sc = fold (\<lambda>r sc. snd (perform impl r sc)) rs sc"

definition attempt :: "'s hooks \<Rightarrow> request \<Rightarrow> 's \<times> console \<Rightarrow> 's \<times> console" where
  "attempt impl r sc = (case perform impl r sc of
     (Inr _, sc') \<Rightarrow> sc'
   | (Inl e, s, con) \<Rightarrow> (s, log_line [''  Caught: '', what e] con))"

definition newline :: char where
  "newline = CHR 0x0A"

definition main_out :: console where
  "main_out = (let
     c0 = log_line [newline # ''--- Using InMemoryCache ---'']
       (log_line [''NVI example: enforcing invariants in cache service components.''] []);
     c1 = snd (serve InMemoryCache [Put ''user:123'' ''alice'', Put ''user:456'' ''bob'', Get ''user:123'',
       Get ''user:999'', Remove ''user:456''] (InMemoryCache_new, c0));
     c2 = log_line [newline # ''--- Using RedisCache ---''] c1;
     c3 = snd (serve RedisCache [Put ''session:abc'' ''data'', Get ''session:abc'', Remove ''session:abc''] ((), c2));
     c4 = log_line [''Attempting invalid operations (should throw):'']
       (log_line [newline # ''--- Invariant enforcement ---''] c3);
     c5 = snd (attempt RedisCache (Put ''key'' (replicate (2 * 1024 * 1024) CHR ''x''))
       (attempt RedisCache (Put [] ''value'') ((), c4)))
   in log_line [newline # ''Note: Even though derived classes override virtual methods, '',
        ''the base class ensures logging, validation, and metrics always run.''] c5)"

section \<open>The contract of an implementation that stores\<close>

definition valid_key :: "string \<Rightarrow> bool" where
  "valid_key k \<longleftrightarrow> k \<noteq> [] \<and> length k \<le> 256"

definition valid_value :: "string \<Rightarrow> bool" where
  "valid_value v \<longleftrightarrow> length v \<le> 1048576"

fun valid_request :: "request \<Rightarrow> bool" where
  "valid_request (Get k) = valid_key k"
| "valid_request (Put k v) = (valid_key k \<and> valid_value v)"
| "valid_request (Remove k) = valid_key k"

fun hook :: "'s hooks \<Rightarrow> request \<Rightarrow> 's \<times> console \<Rightarrow> 's \<times> console" where
  "hook impl (Get k) sc = get_impl impl k sc"
| "hook impl (Put k v) sc = put_impl impl k v sc"
| "hook impl (Remove k) sc = remove_impl impl k sc"

fun store_step :: "request \<Rightarrow> (string \<Rightarrow> string option) \<Rightarrow> string \<Rightarrow> string option" where
  "store_step (Get k) m = m"
| "store_step (Put k v) m = m(k \<mapsto> v)"
| "store_step (Remove k) m = m(k := None)"

lemma validate_key_iff: "validate_key k = Inr () \<longleftrightarrow> valid_key k" "(\<exists>e. validate_key k = Inl e) \<longleftrightarrow> \<not> valid_key k"
  by (auto simp: validate_key_def valid_key_def)

lemma validate_value_iff:
  "validate_value v = Inr () \<longleftrightarrow> valid_value v" "(\<exists>e. validate_value v = Inl e) \<longleftrightarrow> \<not> valid_value v"
  by (auto simp: validate_value_def valid_value_def)

lemma perform_cases:
  "(valid_request r \<longrightarrow> fst (perform impl r (s, con)) = Inr () \<and>
     (\<exists>con'. snd (perform impl r (s, con)) = hook impl r (s, con'))) \<and>
   (\<not> valid_request r \<longrightarrow> isl (fst (perform impl r (s, con))) \<and> fst (snd (perform impl r (s, con))) = s)"
  by (cases r)
    (auto simp: service_get_def service_put_def service_remove_def validate_key_iff validate_value_iff Let_def
      split: sum.split dest: validate_key_iff(2) [THEN iffD1, OF exI] validate_value_iff(2) [THEN iffD1, OF exI])

locale storing_hooks = cache_store lookup store
  for lookup :: "string \<Rightarrow> 's \<Rightarrow> string option" and store :: "string \<Rightarrow> string \<Rightarrow> 's \<Rightarrow> 's" +
  fixes impl :: "'s hooks"
  assumes get_keeps: "lookup k' (fst (get_impl impl k (s, con))) = lookup k' s"
    and put_stores: "lookup k' (fst (put_impl impl k v (s, con))) = lookup k' (store k v s)"
    and remove_deletes: "lookup k' (fst (remove_impl impl k (s, con))) = (if k' = k then None else lookup k' s)"
begin

lemma hook_contents:
  "(\<lambda>k. lookup k (fst (hook impl r (s, con)))) = store_step r (\<lambda>k. lookup k s)"
  by (cases r) (auto simp: get_keeps put_stores remove_deletes get_put)

lemma perform_contents:
  "(\<lambda>k. lookup k (fst (snd (perform impl r (s, con))))) =
   (if valid_request r then store_step r (\<lambda>k. lookup k s) else (\<lambda>k. lookup k s))"
  using perform_cases [of r impl s con] hook_contents by (auto simp: fun_eq_iff)

lemma serve_contents:
  "(\<lambda>k. lookup k (fst (serve impl rs (s, con)))) = fold store_step (filter valid_request rs) (\<lambda>k. lookup k s)"
proof (induction rs arbitrary: s con)
  case (Cons r rs)
  then show ?case
    using perform_contents [of r s con] by (cases "perform impl r (s, con)") (auto simp: serve_def)
qed (simp add: serve_def)

end

interpretation mem: storing_hooks "\<lambda>k m. entries m k" "\<lambda>k v m. m\<lparr>entries := (entries m)(k \<mapsto> v)\<rparr>" InMemoryCache
  by unfold_locales (simp_all add: InMemoryCache_def split: option.split)

lemma valid_steps:
  "dom m \<subseteq> {k. valid_key k} \<Longrightarrow> ran m \<subseteq> {v. valid_value v} \<Longrightarrow> \<forall>r\<in>set rs. valid_request r \<Longrightarrow>
   dom (fold store_step rs m) \<subseteq> {k. valid_key k} \<and> ran (fold store_step rs m) \<subseteq> {v. valid_value v}"
proof (induction rs arbitrary: m)
  case (Cons r rs)
  have "dom (store_step r m) \<subseteq> {k. valid_key k} \<and> ran (store_step r m) \<subseteq> {v. valid_value v}"
    using Cons.prems by (cases r) (auto simp: ran_def)
  with Cons show ?case by simp
qed simp

text \<open>The gets that find their key.\<close>

fun found :: "(string \<Rightarrow> string option) \<Rightarrow> request list \<Rightarrow> bool list" where
  "found m [] = []"
| "found m (r # rs) = (case r of Get k \<Rightarrow> [m k \<noteq> None] | _ \<Rightarrow> []) @ found (store_step r m) rs"

definition count_true :: "bool list \<Rightarrow> int" where
  "count_true bs = int (length (filter id bs))"

lemma mem_hook_counts:
  "hits (fst (hook InMemoryCache r (m, con))) = hits m + count_true (found (entries m) [r]) \<and>
   misses (fst (hook InMemoryCache r (m, con))) = misses m + count_true (map Not (found (entries m) [r]))"
  by (cases r) (auto simp: InMemoryCache_def count_true_def split: option.split)

lemma mem_perform_counts:
  "hits (fst (snd (perform InMemoryCache r (m, con)))) =
     hits m + (if valid_request r then count_true (found (entries m) [r]) else 0) \<and>
   misses (fst (snd (perform InMemoryCache r (m, con)))) =
     misses m + (if valid_request r then count_true (map Not (found (entries m) [r])) else 0)"
  using perform_cases [of r InMemoryCache m con] mem_hook_counts [of r m] by auto

lemma found_Cons: "found m (r # rs) = found m [r] @ found (store_step r m) rs"
  by simp

lemma count_true_append [simp]: "count_true (a @ b) = count_true a + count_true b"
  by (simp add: count_true_def)

lemma mem_serve_counts:
  "hits (fst (serve InMemoryCache rs (m, con))) =
     hits m + count_true (found (entries m) (filter valid_request rs)) \<and>
   misses (fst (serve InMemoryCache rs (m, con))) =
     misses m + count_true (map Not (found (entries m) (filter valid_request rs)))"
proof (induction rs arbitrary: m con)
  case (Cons r rs)
  obtain e m' con' where p: "perform InMemoryCache r (m, con) = (e, m', con')" by (cases "perform InMemoryCache r (m, con)")
  have "entries m' = (if valid_request r then store_step r (entries m) else entries m)"
    using mem.perform_contents [of r m con] by (simp add: p)
  moreover have "hits m' = hits m + (if valid_request r then count_true (found (entries m) [r]) else 0)"
    and "misses m' = misses m + (if valid_request r then count_true (map Not (found (entries m) [r])) else 0)"
    using mem_perform_counts [of r m con] by (simp_all add: p)
  ultimately show ?case
    using Cons [of m' con']
    by (simp add: serve_def p found_Cons [of _ r "filter valid_request rs"] del: found.simps(2))
qed (simp add: serve_def count_true_def)

section \<open>The property\<close>

text \<open>C28. Behind the validation of \<^verbatim>\<open>CacheService\<close>, for a caller that survives the exceptions,
  an \<^verbatim>\<open>InMemoryCache\<close> holds after any requests exactly what the valid ones would leave in a
  plain map, every key it holds has 1 to 256 characters and every value at most a megabyte,
  the hits are the valid gets that found their key and the misses the others.\<close>

theorem cache_service_contract:
  "entries (fst (serve InMemoryCache rs (InMemoryCache_new, con))) =
     fold store_step (filter valid_request rs) Map.empty \<and>
   dom (entries (fst (serve InMemoryCache rs (InMemoryCache_new, con)))) \<subseteq> {k. k \<noteq> [] \<and> length k \<le> 256} \<and>
   ran (entries (fst (serve InMemoryCache rs (InMemoryCache_new, con)))) \<subseteq> {v. length v \<le> 1048576} \<and>
   hits (fst (serve InMemoryCache rs (InMemoryCache_new, con))) =
     count_true (found Map.empty (filter valid_request rs)) \<and>
   misses (fst (serve InMemoryCache rs (InMemoryCache_new, con))) =
     count_true (map Not (found Map.empty (filter valid_request rs)))"
proof -
  have "dom (fold store_step (filter valid_request rs) Map.empty) \<subseteq> {k. valid_key k} \<and>
    ran (fold store_step (filter valid_request rs) Map.empty) \<subseteq> {v. valid_value v}"
    by (rule valid_steps) simp_all
  then show ?thesis
    using mem.serve_contents [of rs InMemoryCache_new con] mem_serve_counts [of rs InMemoryCache_new con]
    by (simp add: InMemoryCache_new_def valid_key_def valid_value_def)
qed

lemma nvi_main_output:
  "main_out = [''NVI example: enforcing invariants in cache service components.'',
     newline # ''--- Using InMemoryCache ---'',
     ''[CacheService] PUT request for key: user:123'', ''[Metrics] cache.put +1'',
     ''[InMemoryCache] STORED: user:123 = alice'',
     ''[CacheService] PUT request for key: user:456'', ''[Metrics] cache.put +1'',
     ''[InMemoryCache] STORED: user:456 = bob'',
     ''[CacheService] GET request for key: user:123'', ''[Metrics] cache.get +1'',
     ''[InMemoryCache] HIT: user:123 = alice'',
     ''[CacheService] GET request for key: user:999'', ''[Metrics] cache.get +1'',
     ''[InMemoryCache] MISS: user:999'',
     ''[CacheService] REMOVE request for key: user:456'', ''[Metrics] cache.remove +1'',
     ''[InMemoryCache] REMOVED: user:456'',
     newline # ''--- Using RedisCache ---'',
     ''[CacheService] PUT request for key: session:abc'', ''[Metrics] cache.put +1'',
     ''[RedisCache] SET session:abc = data in Redis cluster'',
     ''[CacheService] GET request for key: session:abc'', ''[Metrics] cache.get +1'',
     ''[RedisCache] GET session:abc from Redis cluster'',
     ''[CacheService] REMOVE request for key: session:abc'', ''[Metrics] cache.remove +1'',
     ''[RedisCache] DEL session:abc from Redis cluster'',
     newline # ''--- Invariant enforcement ---'', ''Attempting invalid operations (should throw):'',
     ''[CacheService] PUT request for key: '', ''  Caught: cache key cannot be empty'',
     ''[CacheService] PUT request for key: key'', ''  Caught: cache value too large (max 1MB)'',
     newline # ''Note: Even though derived classes override virtual methods, the base class ensures logging, validation, and metrics always run.'']"
  by (simp add: main_out_def serve_def attempt_def InMemoryCache_def RedisCache_def InMemoryCache_new_def
      service_get_def service_put_def service_remove_def validate_key_def validate_value_def increment_metrics_def
      log_line_def Let_def)

end
