(* ===== verification/Flyweight.thy ===== *)
theory Flyweight
  imports Prelude
begin

text \<open>
  The shared roles of \<^verbatim>\<open>examples/flyweight/main.cpp\<close>. A \<^verbatim>\<open>shared_ptr\<close> to a role is an index into
  the list of the roles made so far (\<open>make_shared\<close> appends one; the factory keeps all of them
  alive), so two pointers are equal when they share one object. The map of the factory is an
  association list, whose length is the \<^verbatim>\<open>size()\<close> of the map.

  Proved: the pointers, the objects and the count after any requests, from which sharing
  follows: same name, same object.
\<close>

record role =
  role_name :: string
  permissions :: "string set"

definition has_permission :: "role \<Rightarrow> string \<Rightarrow> bool" where
  "has_permission r perm \<longleftrightarrow> perm \<in> permissions r"

definition create_role :: "string \<Rightarrow> role" where
  "create_role n =
     (if n = ''admin'' then \<lparr>role_name = ''admin'', permissions = {''read'', ''write'', ''delete'', ''admin''}\<rparr>
      else if n = ''editor'' then \<lparr>role_name = ''editor'', permissions = {''read'', ''write''}\<rparr>
      else if n = ''viewer'' then \<lparr>role_name = ''viewer'', permissions = {''read''}\<rparr>
      else \<lparr>role_name = n, permissions = {}\<rparr>)"

record factory =
  roles :: "(string \<times> nat) list"
  objects :: "role list"
  con :: console

definition RoleFactory_new :: "console \<Rightarrow> factory" where
  "RoleFactory_new c = \<lparr>roles = [], objects = [], con = c\<rparr>"

definition get_role :: "string \<Rightarrow> factory \<Rightarrow> nat \<times> factory" where
  "get_role n f = (case map_of (roles f) n of
     Some p \<Rightarrow> (p, f\<lparr>con := log_line [''[RoleFactory] Reusing existing role: '', n] (con f)\<rparr>)
   | None \<Rightarrow> (let p = length (objects f)
       in (p, f\<lparr>roles := (n, p) # roles f, objects := objects f @ [create_role n],
         con := log_line [''[RoleFactory] Creating new role: '', n] (con f)\<rparr>)))"

definition shared_role_count :: "factory \<Rightarrow> nat" where
  "shared_role_count f = length (roles f)"

record user_context =
  user_id :: string
  role_ptr :: nat

definition can :: "user_context \<Rightarrow> string \<Rightarrow> factory \<Rightarrow> bool \<times> factory" where
  "can u permission f = (let r = objects f ! role_ptr u; allowed = has_permission r permission
     in (allowed, f\<lparr>con := log_line [''  User '', user_id u, '' (role: '', role_name r, '') '',
          if allowed then ''ALLOWED'' else ''DENIED'', '' for: '', permission] (con f)\<rparr>))"

fun get_roles :: "string list \<Rightarrow> factory \<Rightarrow> nat list \<times> factory" where
  "get_roles [] f = ([], f)"
| "get_roles (n # ns) f = (let (p, f') = get_role n f; (ps, f'') = get_roles ns f' in (p # ps, f''))"

definition newline :: char where
  "newline = CHR 0x0A"

definition say :: "string list \<Rightarrow> factory \<Rightarrow> factory" where
  "say parts f = f\<lparr>con := log_line parts (con f)\<rparr>"

definition check_user :: "user_context \<Rightarrow> factory \<Rightarrow> factory" where
  "check_user u f = fold (\<lambda>perm f. snd (can u perm f)) [''read'', ''write'', ''delete'', ''admin'']
     (say [newline # ''User: '', user_id u, '' (role: '', role_name (objects f ! role_ptr u), '')''] f)"

definition main_users :: "(string \<times> string) list" where
  "main_users = [(''alice'', ''admin''), (''bob'', ''editor''), (''charlie'', ''viewer''), (''diana'', ''admin''),
     (''eve'', ''editor''), (''frank'', ''viewer'')]"

definition main_setup :: "user_context list \<times> factory" where
  "main_setup = (let
     (ps, f0) = get_roles (map snd main_users)
       (say [''Flyweight example: sharing role data across user contexts.''] (RoleFactory_new []));
     users = map2 (\<lambda>u p. \<lparr>user_id = fst u, role_ptr = p\<rparr>) main_users ps;
     f1 = say [newline # ''Shared role objects created: '', show_nat (shared_role_count f0)] f0;
     f2 = say [''Total user contexts: '', show_nat (length users)] f1
   in (users, say [''Memory saved: '', show_nat (length users - shared_role_count f2),
       '' role objects not duplicated'' @ [newline]] f2))"

definition main_final :: factory where
  "main_final = (let (users, f3) = main_setup;
     f4 = fold check_user users (say [''--- Permission checks ---''] f3);
     f5 = say [newline # ''--- Without flyweight ---''] f4;
     f6 = say [''Without sharing, we would need '', show_nat (length users), '' separate role objects.''] f5;
     f7 = say [''With flyweight, we only need '', show_nat (shared_role_count f6), '' shared role objects.''] f6
   in say [''This becomes significant at scale (thousands of users, few roles).''] f7)"

section \<open>The pointers after any requests\<close>

text \<open>The distinct names of a list, in the order of their first occurrence, and the position of
  a name among them.\<close>

definition firsts :: "'a list \<Rightarrow> 'a list" where
  "firsts xs = rev (remdups (rev xs))"

definition position :: "'a list \<Rightarrow> 'a \<Rightarrow> nat" where
  "position xs x = length (takeWhile (\<lambda>y. y \<noteq> x) xs)"

lemma firsts_snoc: "firsts (xs @ [x]) = (if x \<in> set xs then firsts xs else firsts xs @ [x])"
  by (simp add: firsts_def)

lemma set_firsts [simp]: "set (firsts xs) = set xs"
  by (simp add: firsts_def)

lemma distinct_firsts [simp]: "distinct (firsts xs)"
  by (simp add: firsts_def)

lemma position_append: "position (xs @ ys) x = (if x \<in> set xs then position xs x else length xs + position ys x)"
  by (induction xs) (auto simp: position_def)

lemma position_nth: "x \<in> set xs \<Longrightarrow> position xs x < length xs \<and> xs ! position xs x = x"
  by (induction xs) (auto simp: position_def)

lemma position_eq_iff: "x \<in> set xs \<Longrightarrow> position xs x = position xs y \<longleftrightarrow> x = y"
  by (induction xs) (auto simp: position_def)

lemma position_Nil [simp]: "position [x] x = 0"
  by (simp add: position_def)

definition holds :: "string list \<Rightarrow> factory \<Rightarrow> bool" where
  "holds ns f \<longleftrightarrow> objects f = map create_role (firsts ns) \<and> length (roles f) = length (firsts ns) \<and>
     (\<forall>n. map_of (roles f) n = (if n \<in> set ns then Some (position (firsts ns) n) else None))"

lemma get_role_holds:
  "holds ns f \<Longrightarrow> fst (get_role n f) = position (firsts (ns @ [n])) n \<and> holds (ns @ [n]) (snd (get_role n f))"
  by (auto simp: holds_def get_role_def firsts_snoc position_append Let_def)

lemma position_later: "n \<in> set ns \<Longrightarrow> position (firsts (ns @ ms)) n = position (firsts ns) n"
  by (induction ms rule: rev_induct) (auto simp: firsts_snoc position_append simp flip: append_assoc)

lemma get_roles_holds:
  "holds ms f \<Longrightarrow> fst (get_roles ns f) = map (position (firsts (ms @ ns))) ns \<and> holds (ms @ ns) (snd (get_roles ns f))"
proof (induction ns arbitrary: ms f)
  case (Cons n ns)
  obtain p f' where g: "get_role n f = (p, f')" by (cases "get_role n f")
  with get_role_holds [OF Cons.prems, of n] have "p = position (firsts (ms @ [n])) n" "holds (ms @ [n]) f'" by simp_all
  with Cons.IH [of "ms @ [n]" f'] position_later [of n "ms @ [n]" ns] show ?case
    by (simp add: g Let_def split_beta)
qed simp

lemma get_roles_new:
  "fst (get_roles ns (RoleFactory_new c)) = map (position (firsts ns)) ns \<and> holds ns (snd (get_roles ns (RoleFactory_new c)))"
  using get_roles_holds [of "[]" "RoleFactory_new c" ns] by (simp add: holds_def RoleFactory_new_def firsts_def)

section \<open>The property\<close>

text \<open>C29. After any requests of a new factory, each request has got the pointer to the one object
  of its name: the objects are those of the distinct names in the order they were first asked
  for, each made once, and \<open>shared_role_count\<close> is the number of distinct names. Two users
  share a role object exactly when they asked for the same name, and a user can do what the
  role of that name permits.\<close>

theorem roles_shared:
  "fst (get_roles ns (RoleFactory_new c)) = map (position (firsts ns)) ns \<and>
   objects (snd (get_roles ns (RoleFactory_new c))) = map create_role (firsts ns) \<and>
   shared_role_count (snd (get_roles ns (RoleFactory_new c))) = card (set ns) \<and>
   inj_on (position (firsts ns)) (set ns) \<and>
   map (\<lambda>p. fst (can \<lparr>user_id = u, role_ptr = p\<rparr> perm (snd (get_roles ns (RoleFactory_new c)))))
     (fst (get_roles ns (RoleFactory_new c))) = map (\<lambda>n. has_permission (create_role n) perm) ns"
proof -
  from get_roles_new [of ns c] have ptrs: "fst (get_roles ns (RoleFactory_new c)) = map (position (firsts ns)) ns"
    and objs: "objects (snd (get_roles ns (RoleFactory_new c))) = map create_role (firsts ns)"
    and count: "length (roles (snd (get_roles ns (RoleFactory_new c)))) = length (firsts ns)"
    by (simp_all add: holds_def)
  have "length (firsts ns) = card (set ns)"
    using distinct_card [of "firsts ns"] by simp
  moreover have "inj_on (position (firsts ns)) (set ns)"
    by (rule inj_onI) (simp add: position_eq_iff)
  moreover have "n \<in> set ns \<Longrightarrow> map create_role (firsts ns) ! position (firsts ns) n = create_role n" for n
    using position_nth [of n "firsts ns"] by simp
  ultimately show ?thesis
    by (simp add: ptrs objs count shared_role_count_def can_def Let_def)
qed

lemma flyweight_main_setup:
  "con (snd main_setup) = [''Flyweight example: sharing role data across user contexts.'',
     ''[RoleFactory] Creating new role: admin'', ''[RoleFactory] Creating new role: editor'',
     ''[RoleFactory] Creating new role: viewer'', ''[RoleFactory] Reusing existing role: admin'',
     ''[RoleFactory] Reusing existing role: editor'', ''[RoleFactory] Reusing existing role: viewer'',
     newline # ''Shared role objects created: 3'', ''Total user contexts: 6'',
     ''Memory saved: 3 role objects not duplicated'' @ [newline]]"
  by code_simp

end
