(* ===== verification/Command.thy ===== *)
theory Command
  imports Prelude
begin

text \<open>
  The commands of \<^verbatim>\<open>examples/command/main.cpp\<close>: the client with its connection flag, the three
  statements that throw when it is not connected, the retry loop over any virtual \<open>execute\<close>
  (a function from the client to a result and a client, \<open>Inl\<close> an exception), and the queue.
  The port and the attempts are machine \<^verbatim>\<open>int\<close>s; the loop never counts beyond
  \<^verbatim>\<open>max_attempts\<close>, so the counter stays in range.

  Proved: what the loop does for any command, in terms of the first attempt that does not
  throw; that the client's own commands then need at most one reconnection; and what a batch
  leaves when a command throws.
\<close>

record postgres =
  host :: string
  port :: int
  dbname :: string
  connected :: bool
  con :: console

type_synonym outcome = "(cpp_exn + unit) \<times> postgres"

definition PostgresClient_new :: "string \<Rightarrow> int \<Rightarrow> string \<Rightarrow> console \<Rightarrow> postgres" where
  "PostgresClient_new h p d c = \<lparr>host = h, port = p, dbname = d, connected = True, con = c\<rparr>"

definition say :: "string list \<Rightarrow> postgres \<Rightarrow> postgres" where
  "say parts pg = pg\<lparr>con := log_line parts (con pg)\<rparr>"

definition lost :: cpp_exn where
  "lost = Runtime_error ''postgres connection lost''"

definition insert_row :: "string \<Rightarrow> string \<Rightarrow> postgres \<Rightarrow> outcome" where
  "insert_row table data pg = (if \<not> connected pg then (Inl lost, pg)
     else (Inr (), say [''[PG] INSERT INTO '', table, '' VALUES ('', data, '')''] pg))"

definition update_row :: "string \<Rightarrow> string \<Rightarrow> string \<Rightarrow> postgres \<Rightarrow> outcome" where
  "update_row table row data pg = (if \<not> connected pg then (Inl lost, pg)
     else (Inr (), say [''[PG] UPDATE '', table, '' SET '', data, '' WHERE id='', row] pg))"

definition delete_row :: "string \<Rightarrow> string \<Rightarrow> postgres \<Rightarrow> outcome" where
  "delete_row table row pg = (if \<not> connected pg then (Inl lost, pg)
     else (Inr (), say [''[PG] DELETE FROM '', table, '' WHERE id='', row] pg))"

definition address :: "postgres \<Rightarrow> string" where
  "address pg = host pg @ '':'' @ show_int (port pg) @ ''/'' @ dbname pg"

definition disconnect :: "postgres \<Rightarrow> postgres" where
  "disconnect pg = say [''[PG] disconnected from '', address pg] (pg\<lparr>connected := False\<rparr>)"

definition reconnect :: "postgres \<Rightarrow> postgres" where
  "reconnect pg = say [''[PG] reconnected'']
     ((say [''[PG] reconnecting to '', address pg, ''...''] pg)\<lparr>connected := True\<rparr>)"

datatype cmd = InsertCommand string string | UpdateCommand string string string | DeleteCommand string string

fun execute :: "cmd \<Rightarrow> postgres \<Rightarrow> outcome" where
  "execute (InsertCommand table data) pg = insert_row table data pg"
| "execute (UpdateCommand table row data) pg = update_row table row data pg"
| "execute (DeleteCommand table row) pg = delete_row table row pg"

fun description :: "cmd \<Rightarrow> string" where
  "description (InsertCommand table data) = ''INSERT''"
| "description (UpdateCommand table row data) = ''UPDATE''"
| "description (DeleteCommand table row) = ''DELETE''"

text \<open>The loop of \<open>execute_with_retry\<close> from a given attempt on.\<close>

function retry_from :: "(postgres \<Rightarrow> outcome) \<Rightarrow> int \<Rightarrow> int \<Rightarrow> postgres \<Rightarrow> outcome" where
  "retry_from exec attempt max_attempts pg =
     (if attempt \<le> max_attempts then
        (case exec pg of
          (Inr _, pg1) \<Rightarrow> (Inr (), if attempt > 1 then say [''succeeded on attempt '', show_int attempt] pg1 else pg1)
        | (Inl e, pg1) \<Rightarrow> (let pg2 = say [''attempt '', show_int attempt, '' failed: '', what e] pg1 in
            if attempt = max_attempts then (Inl e, say [''max retries exceeded, giving up''] pg2)
            else retry_from exec (attempt + 1) max_attempts
              (say [''retrying...''] (reconnect (say [''attempting to reconnect...''] pg2)))))
      else (Inr (), pg))"
  by pat_completeness auto

termination by (relation "measure (\<lambda>(_, attempt, max_attempts, _). nat (max_attempts + 1 - attempt))") auto

declare retry_from.simps [simp del]

definition execute_with_retry :: "(postgres \<Rightarrow> outcome) \<Rightarrow> int \<Rightarrow> postgres \<Rightarrow> outcome" where
  "execute_with_retry exec max_attempts pg = retry_from exec 1 max_attempts pg"

definition default_attempts :: int where
  "default_attempts = 3"

text \<open>The queue. An exception leaves \<open>execute_all\<close> before the queue is cleared.\<close>

fun execute_each :: "(postgres \<Rightarrow> outcome) list \<Rightarrow> postgres \<Rightarrow> outcome" where
  "execute_each [] pg = (Inr (), pg)"
| "execute_each (c # cs) pg = (case c pg of (Inl e, pg1) \<Rightarrow> (Inl e, pg1) | (Inr _, pg1) \<Rightarrow> execute_each cs pg1)"

definition add_command :: "'c \<Rightarrow> 'c list \<Rightarrow> 'c list" where
  "add_command c q = q @ [c]"

definition execute_all :: "('c \<Rightarrow> postgres \<Rightarrow> outcome) \<Rightarrow> 'c list \<Rightarrow> postgres \<Rightarrow> (cpp_exn + unit) \<times> 'c list \<times> postgres" where
  "execute_all exec q pg = (case execute_each (map exec q)
       (say [''executing batch of '', show_nat (length q), '' commands''] pg) of
     (Inl e, pg1) \<Rightarrow> (Inl e, q, pg1)
   | (Inr _, pg1) \<Rightarrow> (Inr (), [], pg1))"

definition quoted :: "string \<Rightarrow> string" where
  "quoted s = CHR 0x27 # s @ [CHR 0x27]"

definition main_queue :: "cmd list" where
  "main_queue = add_command (DeleteCommand ''logs'' ''42'')
     (add_command (UpdateCommand ''users'' ''1'' (''name='' @ quoted ''alice_updated''))
     (add_command (InsertCommand ''users'' (''(2, '' @ quoted ''bob'' @ '')''))
     (add_command (InsertCommand ''users'' (''(1, '' @ quoted ''alice'' @ '')'')) [])))"

definition main_out :: console where
  "main_out = con (snd (snd (execute_all execute main_queue (PostgresClient_new ''localhost'' 5432 ''mydb''
     (log_line [''Command example: queueable PostgreSQL operations with retry logic.''] [])))))"

section \<open>The attempts of any command\<close>

text \<open>What the loop does to the client when attempt \<open>k\<close> has thrown and another follows, and the
  client as attempt \<open>k\<close> finds it.\<close>

definition recover :: "int \<Rightarrow> cpp_exn \<Rightarrow> postgres \<Rightarrow> postgres" where
  "recover k e pg = say [''retrying...''] (reconnect (say [''attempting to reconnect...'']
     (say [''attempt '', show_int k, '' failed: '', what e] pg)))"

primrec before_attempt :: "(postgres \<Rightarrow> outcome) \<Rightarrow> postgres \<Rightarrow> nat \<Rightarrow> postgres" where
  "before_attempt exec pg 0 = pg"
| "before_attempt exec pg (Suc k) =
     (let (r, pg1) = exec (before_attempt exec pg k) in recover (int (Suc k)) (projl r) pg1)"

definition fails :: "(postgres \<Rightarrow> outcome) \<Rightarrow> postgres \<Rightarrow> nat \<Rightarrow> bool" where
  "fails exec pg k \<longleftrightarrow> isl (fst (exec (before_attempt exec pg k)))"

definition finish :: "nat \<Rightarrow> postgres \<Rightarrow> postgres" where
  "finish k pg = (if k > 0 then say [''succeeded on attempt '', show_int (int (Suc k))] pg else pg)"

definition give_up :: "nat \<Rightarrow> outcome \<Rightarrow> outcome" where
  "give_up k r = (fst r, say [''max retries exceeded, giving up'']
     (say [''attempt '', show_int (int (Suc k)), '' failed: '', what (projl (fst r))] (snd r)))"

lemma retry_from_steps:
  "k < n \<Longrightarrow> retry_from exec (int (Suc k)) (int n) (before_attempt exec pg k) =
   (case find (\<lambda>j. \<not> fails exec pg j) [k..<n] of
      Some j \<Rightarrow> (Inr (), finish j (snd (exec (before_attempt exec pg j))))
    | None \<Rightarrow> give_up (n - 1) (exec (before_attempt exec pg (n - 1))))"
proof (induction "n - k" arbitrary: k)
  case (Suc d)
  obtain r pg1 where x: "exec (before_attempt exec pg k) = (r, pg1)" by (cases "exec (before_attempt exec pg k)")
  have upt: "[k..<n] = k # [Suc k..<n]" using Suc.prems by (simp add: upt_conv_Cons)
  show ?case
  proof (cases r)
    case (Inr u)
    with x Suc.prems show ?thesis
      by (subst retry_from.simps) (simp add: upt fails_def finish_def)
  next
    case (Inl e)
    show ?thesis
    proof (cases "Suc k = n")
      case True
      with x Inl show ?thesis
        by (subst retry_from.simps) (auto simp: upt fails_def give_up_def Let_def)
    next
      case False
      with Suc.prems have n: "Suc k < n" by simp
      have "retry_from exec (int (Suc k)) (int n) (before_attempt exec pg k) =
          retry_from exec (int (Suc (Suc k))) (int n) (before_attempt exec pg (Suc k))"
        using n x Inl by (subst retry_from.simps) (simp add: recover_def Let_def add.commute)
      also have "\<dots> = (case find (\<lambda>j. \<not> fails exec pg j) [Suc k..<n] of
          Some j \<Rightarrow> (Inr (), finish j (snd (exec (before_attempt exec pg j))))
        | None \<Rightarrow> give_up (n - 1) (exec (before_attempt exec pg (n - 1))))"
        using Suc.hyps Suc.prems n by (intro Suc.hyps(1)) simp_all
      finally show ?thesis
        using x Inl by (simp add: upt fails_def)
    qed
  qed
qed simp

section \<open>Commands that only need a connection\<close>

text \<open>
  The contract of the client's commands: connected, a command does not throw and keeps the
  connection; not connected, it throws and leaves the client as it was.
\<close>

locale connected_command =
  fixes exec :: "postgres \<Rightarrow> outcome"
  assumes works: "connected pg \<Longrightarrow> fst (exec pg) = Inr () \<and> connected (snd (exec pg))"
    and throws: "\<not> connected pg \<Longrightarrow> isl (fst (exec pg)) \<and> snd (exec pg) = pg"
begin

lemma exec_connected: "connected pg \<Longrightarrow> exec pg = (Inr (), snd (exec pg))"
  using works [of pg] by (metis prod.collapse)

lemma exec_disconnected: "\<not> connected pg \<Longrightarrow> exec pg = (Inl (projl (fst (exec pg))), pg)"
  using throws [of pg] by (metis prod.collapse sum.collapse(1))

lemma recover_connected: "connected (recover k e pg)"
  by (simp add: recover_def reconnect_def say_def)

lemma retry_connected:
  assumes "connected pg" and "0 < n"
  shows "execute_with_retry exec n pg = exec pg"
proof -
  obtain pg1 where e: "exec pg = (Inr (), pg1)"
    using exec_connected [OF assms(1)] by blast
  then show ?thesis
    using assms(2) by (simp add: execute_with_retry_def retry_from.simps [of exec 1])
qed

lemma retry_disconnected:
  "\<not> connected pg \<Longrightarrow> 1 < n \<Longrightarrow> execute_with_retry exec n pg =
   (Inr (), finish 1 (snd (exec (recover 1 (projl (fst (exec pg))) pg))))"
proof -
  assume d: "\<not> connected pg" and n: "1 < n"
  let ?e = "projl (fst (exec pg))"
  obtain e where e: "exec pg = (Inl e, pg)"
    using exec_disconnected [OF d] by blast
  have "execute_with_retry exec n pg = retry_from exec 2 n (recover 1 ?e pg)"
    using n by (simp add: execute_with_retry_def retry_from.simps [of exec 1] recover_def Let_def e)
  also have "\<dots> = (Inr (), finish 1 (snd (exec (recover 1 ?e pg))))"
    using n by (subst retry_from.simps, subst exec_connected [OF recover_connected])
      (simp add: finish_def)
  finally show ?thesis .
qed

lemma retry_once:
  assumes "\<not> connected pg"
  shows "execute_with_retry exec 1 pg = give_up 0 (exec pg)"
proof -
  obtain e where e: "exec pg = (Inl e, pg)"
    using exec_disconnected [OF assms] by blast
  then show ?thesis
    by (simp add: execute_with_retry_def retry_from.simps [of exec 1] give_up_def Let_def)
qed

end

interpretation pg_command: connected_command "execute c" for c
  by unfold_locales (cases c; simp add: insert_row_def update_row_def delete_row_def say_def)+

text \<open>The statement a command sends.\<close>

fun statement :: "cmd \<Rightarrow> string" where
  "statement (InsertCommand table data) = ''[PG] INSERT INTO '' @ table @ '' VALUES ('' @ data @ '')''"
| "statement (UpdateCommand table row data) = ''[PG] UPDATE '' @ table @ '' SET '' @ data @ '' WHERE id='' @ row"
| "statement (DeleteCommand table row) = ''[PG] DELETE FROM '' @ table @ '' WHERE id='' @ row"

lemma execute_sends:
  "execute c pg = (if connected pg then (Inr (), pg\<lparr>con := con pg @ [statement c]\<rparr>) else (Inl lost, pg))"
  by (cases c) (simp_all add: insert_row_def update_row_def delete_row_def say_def log_line_def)

text \<open>A batch: the commands before the one that throws have been executed, it and the later ones
  have not, and the queue still holds all of them.\<close>

fun prefix_ok :: "(postgres \<Rightarrow> outcome) list \<Rightarrow> postgres \<Rightarrow> nat" where
  "prefix_ok [] pg = 0"
| "prefix_ok (c # cs) pg = (if isl (fst (c pg)) then 0 else Suc (prefix_ok cs (snd (c pg))))"

lemma execute_each_prefix:
  "execute_each cs pg = (let k = prefix_ok cs pg; pg1 = fold (\<lambda>c pg. snd (c pg)) (take k cs) pg
     in if k = length cs then (Inr (), pg1) else (cs ! k) pg1)"
proof (induction cs arbitrary: pg)
  case (Cons c cs)
  obtain r pg1 where c: "c pg = (r, pg1)" by (cases "c pg")
  then show ?case
    using Cons [of pg1] by (cases r) (auto simp: Let_def)
qed simp

lemma execute_each_connected:
  "connected pg \<Longrightarrow> execute_each (map execute cs) pg = (Inr (), pg\<lparr>con := con pg @ map statement cs\<rparr>)"
  by (induction cs arbitrary: pg) (simp_all add: execute_sends)

section \<open>Properties\<close>

text \<open>C30. \<open>execute_with_retry\<close> for any command, whatever it does to the client: it always returns;
  with a positive bound it executes the command until the first attempt that does not throw,
  reconnecting after each that does, and after as many failures as the bound it rethrows the
  last exception; with no positive bound it returns without having executed the command at
  all.\<close>

theorem retry_any_command:
  "execute_with_retry exec n pg =
   (if n \<le> 0 then (Inr (), pg)
    else case find (\<lambda>j. \<not> fails exec pg j) [0..<nat n] of
      Some j \<Rightarrow> (Inr (), finish j (snd (exec (before_attempt exec pg j))))
    | None \<Rightarrow> give_up (nat n - 1) (exec (before_attempt exec pg (nat n - 1))))"
proof (cases "n \<le> 0")
  case True
  then show ?thesis by (simp add: execute_with_retry_def retry_from.simps)
next
  case False
  then show ?thesis
    using retry_from_steps [of 0 "nat n" exec pg] by (simp add: execute_with_retry_def)
qed

text \<open>C31. A command of the client, retried with the default bound, succeeds from any state of the
  client and its statement is sent exactly once, as the last statement on the console, after
  one reconnection when the client was not connected. A batch sends the statements of all its
  commands in order and empties the queue when the client is connected; when it is not, the
  first command throws, nothing is sent and the queue keeps every command.\<close>

theorem pg_commands_retried:
  "execute_with_retry (execute c) default_attempts pg =
     (if connected pg then (Inr (), pg\<lparr>con := con pg @ [statement c]\<rparr>)
      else (Inr (), pg\<lparr>connected := True, con := con pg @
        [''attempt 1 failed: postgres connection lost'', ''attempting to reconnect...'',
         ''[PG] reconnecting to '' @ address pg @ ''...'', ''[PG] reconnected'', ''retrying...'',
         statement c, ''succeeded on attempt 2'']\<rparr>)) \<and>
   execute_all execute q pg =
     (let start = ''executing batch of '' @ show_nat (length q) @ '' commands'' in
      if connected pg \<or> q = [] then (Inr (), [], pg\<lparr>con := con pg @ [start] @ map statement q\<rparr>)
      else (Inl lost, q, pg\<lparr>con := con pg @ [start]\<rparr>))"
proof
  have addr: "address (say ps pg) = address pg" for ps pg
    by (simp add: address_def say_def)
  have sent: "pg\<lparr>connected := True, con := x\<rparr> = pg\<lparr>con := x, connected := True\<rparr>" for x
    by simp
  have n: "show_int 1 = ''1''" "show_int 2 = ''2''" by code_simp+
  show "execute_with_retry (execute c) default_attempts pg =
     (if connected pg then (Inr (), pg\<lparr>con := con pg @ [statement c]\<rparr>)
      else (Inr (), pg\<lparr>connected := True, con := con pg @
        [''attempt 1 failed: postgres connection lost'', ''attempting to reconnect...'',
         ''[PG] reconnecting to '' @ address pg @ ''...'', ''[PG] reconnected'', ''retrying...'',
         statement c, ''succeeded on attempt 2'']\<rparr>))"
    using pg_command.retry_connected [of pg default_attempts c] pg_command.retry_disconnected [of pg default_attempts c]
    by (simp add: default_attempts_def execute_sends recover_def reconnect_def finish_def addr)
      (simp add: say_def log_line_def lost_def n)
  show "execute_all execute q pg =
     (let start = ''executing batch of '' @ show_nat (length q) @ '' commands'' in
      if connected pg \<or> q = [] then (Inr (), [], pg\<lparr>con := con pg @ [start] @ map statement q\<rparr>)
      else (Inl lost, q, pg\<lparr>con := con pg @ [start]\<rparr>))"
    by (cases "connected pg"; cases q)
      (simp_all add: execute_all_def execute_each_connected execute_sends say_def log_line_def Let_def)
qed

lemma command_main_output:
  "main_out = ''Command example: queueable PostgreSQL operations with retry logic.'' #
     ''executing batch of 4 commands'' # map statement main_queue"
  by code_simp

end
