(* ===== verification/Composite.thy ===== *)
theory Composite
  imports Prelude "HOL-Library.Sublist"
begin

text \<open>
  The routing tree of \<^verbatim>\<open>examples/composite/main.cpp\<close>: endpoints and groups as a datatype,
  \<open>try_handle\<close> with the response it writes into, the loop over the children, and \<open>dispatch\<close>.

  Proved: a tree behaves as one table from method and path to a body, in which the first entry
  for a key wins; the prefixes of the groups only remove the entries they do not cover.
\<close>

record request =
  req_method :: string
  req_path :: string

record response =
  status :: int
  body :: string

datatype handler = Endpoint string string string | RouteGroup string "handler list"

definition starts_with :: "string \<Rightarrow> string \<Rightarrow> bool" where
  "starts_with s p \<longleftrightarrow> length s \<ge> length p \<and> take (length p) s = p"

fun try_handle :: "handler \<Rightarrow> request \<Rightarrow> response \<Rightarrow> bool \<times> response"
  and try_children :: "handler list \<Rightarrow> request \<Rightarrow> response \<Rightarrow> bool \<times> response" where
  "try_handle (Endpoint m p b) request response =
     (if req_method request \<noteq> m \<or> req_path request \<noteq> p then (False, response)
      else (True, response\<lparr>status := 200, body := b\<rparr>))"
| "try_handle (RouteGroup pfx children) request response =
     (if \<not> starts_with (req_path request) pfx then (False, response)
      else try_children children request response)"
| "try_children [] request response = (False, response)"
| "try_children (child # children) request response =
     (case try_handle child request response of
        (True, r) \<Rightarrow> (True, r)
      | (False, r) \<Rightarrow> try_children children request r)"

text \<open>\<open>add\<close> of a group; an endpoint has no such member.\<close>

fun add_child :: "handler \<Rightarrow> handler \<Rightarrow> handler" where
  "add_child child (RouteGroup pfx children) = RouteGroup pfx (children @ [child])"
| "add_child child (Endpoint m p b) = Endpoint m p b"

definition new_response :: response where
  "new_response = \<lparr>status = 200, body = []\<rparr>"

definition dispatch :: "handler \<Rightarrow> request \<Rightarrow> response" where
  "dispatch root request = (let (handled, r) = try_handle root request new_response
     in if \<not> handled then r\<lparr>status := 404, body := ''not found''\<rparr> else r)"

definition main_root :: handler where
  "main_root =
     add_child (add_child (Endpoint ''GET'' ''/v1/users/42'' ''user 42'')
       (add_child (Endpoint ''GET'' ''/v1/users'' ''list users'') (RouteGroup ''/v1'' [])))
     (add_child (Endpoint ''GET'' ''/health'' ''ok'') (RouteGroup ''/'' []))"

definition main_requests :: "request list" where
  "main_requests = map (\<lambda>(m, p). \<lparr>req_method = m, req_path = p\<rparr>)
     [(''GET'', ''/health''), (''GET'', ''/v1/users''), (''GET'', ''/v1/users/42''), (''POST'', ''/v1/users''),
      (''GET'', ''/v2/users'')]"

definition request_line :: "handler \<Rightarrow> request \<Rightarrow> string list" where
  "request_line root r = (let res = dispatch root r
     in [req_method r, '' '', req_path r, '' -> '', show_int (status res), '' '', body res])"

definition main_out :: console where
  "main_out = fold (\<lambda>r. log_line (request_line main_root r)) main_requests
     (log_line [''Composite example: routing tree composed of groups and endpoints.''] [])"

section \<open>What every handler promises\<close>

text \<open>
  A handler that refuses leaves the response alone, and one that accepts writes one that does
  not depend on what was there. A chain of such handlers is one again: it behaves as the first
  that accepts.
\<close>

fun first_of :: "('q \<Rightarrow> 'r \<Rightarrow> bool \<times> 'r) list \<Rightarrow> 'q \<Rightarrow> 'r \<Rightarrow> bool \<times> 'r" where
  "first_of [] q r = (False, r)"
| "first_of (h # hs) q r = (case h q r of (True, r') \<Rightarrow> (True, r') | (False, r') \<Rightarrow> first_of hs q r')"

locale responder =
  fixes attempt :: "'q \<Rightarrow> 'r \<Rightarrow> bool \<times> 'r" and accepts :: "'q \<Rightarrow> 'r option"
  assumes behaves: "fst (attempt q r) = (accepts q \<noteq> None) \<and>
    snd (attempt q r) = (case accepts q of None \<Rightarrow> r | Some r' \<Rightarrow> r')"
begin

lemma attempt_eq: "attempt q r = (case accepts q of None \<Rightarrow> (False, r) | Some r' \<Rightarrow> (True, r'))"
  using behaves [of q r] by (cases "attempt q r") (auto split: option.splits)

lemma refused: "accepts q = None \<Longrightarrow> attempt q r = (False, r)"
  by (simp add: attempt_eq)

end

section \<open>The table of a tree\<close>

type_synonym route = "(string \<times> string) \<times> string"

fun route_table :: "handler \<Rightarrow> route list" and group_table :: "handler list \<Rightarrow> route list" where
  "route_table (Endpoint m p b) = [((m, p), b)]"
| "route_table (RouteGroup pfx children) =
     filter (\<lambda>((m, p), b). starts_with p pfx) (group_table children)"
| "group_table [] = []"
| "group_table (child # children) = route_table child @ group_table children"

lemma starts_with_prefix: "starts_with s p \<longleftrightarrow> prefix p s"
  by (auto simp: starts_with_def prefix_def) (metis append_take_drop_id)

lemma map_of_filter_paths:
  "map_of (filter (\<lambda>((m, p), b). P p) t) (m, p) = (if P p then map_of t (m, p) else None)"
  by (induction t) auto

definition answer_of :: "string option \<Rightarrow> response option" where
  "answer_of = map_option (\<lambda>b. \<lparr>status = 200, body = b\<rparr>)"

lemma try_table:
  "try_handle h q r = (case answer_of (map_of (route_table h) (req_method q, req_path q)) of
     None \<Rightarrow> (False, r) | Some r' \<Rightarrow> (True, r'))"
  "try_children hs q r = (case answer_of (map_of (group_table hs) (req_method q, req_path q)) of
     None \<Rightarrow> (False, r) | Some r' \<Rightarrow> (True, r'))"
proof (induction h q r and hs q r rule: try_handle_try_children.induct)
  case (4 child children q r)
  note rest = "4.IH"(2) [of False, simplified]
  show ?case
    using "4.IH"(1) rest by (auto simp: answer_of_def map_add_def split: option.splits)
qed (auto simp: answer_of_def map_of_filter_paths)

definition tree_accepts :: "handler \<Rightarrow> request \<Rightarrow> response option" where
  "tree_accepts h q = answer_of (map_of (route_table h) (req_method q, req_path q))"

interpretation tree: responder "try_handle h" "tree_accepts h" for h
  by unfold_locales (simp add: try_table(1) tree_accepts_def split: option.split)

text \<open>A group whose endpoints all lie under its prefix is a plain list of its children, and a
  group of any children is its children behind the prefix test.\<close>

lemma covered_group:
  "(\<And>m p b. ((m, p), b) \<in> set (group_table children) \<Longrightarrow> starts_with p pfx) \<Longrightarrow>
   route_table (RouteGroup pfx children) = group_table children"
  by (auto intro!: filter_True)

lemma group_first_of: "try_children children = first_of (map try_handle children)"
proof (induction children)
  case (Cons c cs)
  then show ?case by (auto simp: fun_eq_iff split: prod.split bool.split)
qed (simp add: fun_eq_iff)

lemma table_add_child: "route_table (add_child c (RouteGroup p cs)) = route_table (RouteGroup p cs) @
    filter (\<lambda>((m, q), b). starts_with q p) (route_table c)"
proof -
  have "group_table (cs @ [c]) = group_table cs @ route_table c" by (induction cs) simp_all
  then show ?thesis by simp
qed

section \<open>Properties\<close>

text \<open>C32. \<open>dispatch\<close> on any tree of groups and endpoints is a lookup in its flat table: 200 with the
  body of the first endpoint, in the order of the tree, that has the method and the path of
  the request and whose path lies under the prefix of every group around it, and 404 with
  \<^verbatim>\<open>not found\<close> when there is none. Whatever is added to a group later, the answers that were
  not 404 stay.\<close>

theorem dispatch_is_table_lookup:
  "dispatch root q = (case map_of (route_table root) (req_method q, req_path q) of
     Some b \<Rightarrow> \<lparr>status = 200, body = b\<rparr>
   | None \<Rightarrow> \<lparr>status = 404, body = ''not found''\<rparr>) \<and>
   dispatch (add_child c (RouteGroup p cs)) q =
     (if map_of (route_table (RouteGroup p cs)) (req_method q, req_path q) = None
      then dispatch (RouteGroup p [c]) q else dispatch (RouteGroup p cs) q)"
proof
  have table: "dispatch root q = (case map_of (route_table root) (req_method q, req_path q) of
     Some b \<Rightarrow> \<lparr>status = 200, body = b\<rparr>
   | None \<Rightarrow> \<lparr>status = 404, body = ''not found''\<rparr>)" for root
    by (simp add: dispatch_def tree.attempt_eq tree_accepts_def answer_of_def new_response_def split: option.split)
  then show "dispatch root q = (case map_of (route_table root) (req_method q, req_path q) of
     Some b \<Rightarrow> \<lparr>status = 200, body = b\<rparr> | None \<Rightarrow> \<lparr>status = 404, body = ''not found''\<rparr>)" .
  show "dispatch (add_child c (RouteGroup p cs)) q =
     (if map_of (route_table (RouteGroup p cs)) (req_method q, req_path q) = None
      then dispatch (RouteGroup p [c]) q else dispatch (RouteGroup p cs) q)"
    by (simp only: table table_add_child)
      (simp add: map_add_def map_of_filter_paths split: option.split)
qed

lemma composite_main_output:
  "main_out = [''Composite example: routing tree composed of groups and endpoints.'',
     ''GET /health -> 200 ok'', ''GET /v1/users -> 200 list users'', ''GET /v1/users/42 -> 200 user 42'',
     ''POST /v1/users -> 404 not found'', ''GET /v2/users -> 404 not found'']"
  by code_simp

end
