(* ===== verification/Strategy.thy ===== *)
theory Strategy
  imports Prelude "HOL-Library.Word"
begin

text \<open>
  The request router of \<^verbatim>\<open>examples/strategy/main.cpp\<close>. A strategy has a state and chooses an index
  of the list of backends (the reference the code returns); on an empty list both strategies
  of the source are undefined (a division by zero, a dereference of \<^verbatim>\<open>end()\<close>), so the choice
  is \<open>None\<close>. The counter of the round robin is a 64-bit \<^verbatim>\<open>size_t\<close>; a load is a 32-bit
  \<^verbatim>\<open>int\<close>, and a request whose work takes it out of that range is undefined (\<open>None\<close>).

  Proved, for backends with room for the work of the requests: round robin sends the requests to
  the backends in turn, so their numbers differ by at most one; the least-loaded choice is the
  first of the smallest loads and keeps the spread of the loads bounded. A backend without room
  makes the request undefined.
\<close>

record backend =
  bname :: string
  in_flight :: int

type_synonym 's strategy = "backend list \<Rightarrow> 's \<Rightarrow> (nat \<times> 's) option"

definition round_robin :: "64 word strategy" where
  "round_robin backends nxt =
     (if backends = [] then None else Some (unat nxt mod length backends, nxt + 1))"

text \<open>\<^verbatim>\<open>std::min_element\<close>: the first element than which no later one is smaller.\<close>

fun min_element :: "('a \<Rightarrow> 'a \<Rightarrow> bool) \<Rightarrow> nat \<Rightarrow> 'a \<Rightarrow> nat \<Rightarrow> 'a list \<Rightarrow> nat" where
  "min_element lt best x i [] = best"
| "min_element lt best x i (y # ys) =
     (if lt y x then min_element lt i y (Suc i) ys else min_element lt best x (Suc i) ys)"

definition least_loaded :: "unit strategy" where
  "least_loaded backends s = (case backends of
     [] \<Rightarrow> None
   | b # bs \<Rightarrow> Some (min_element (\<lambda>a b. in_flight a < in_flight b) 0 b 1 bs, s))"

text \<open>\<^verbatim>\<open>+=\<close> on a 32-bit \<^verbatim>\<open>int\<close>: a sum outside the range is undefined.\<close>

definition add_int :: "int \<Rightarrow> int \<Rightarrow> int option" where
  "add_int a b = (if - (2 ^ 31) \<le> a + b \<and> a + b < 2 ^ 31 then Some (a + b) else None)"

definition handle_request :: "'s strategy \<Rightarrow> int \<Rightarrow> int \<Rightarrow> backend list \<times> 's \<times> console \<Rightarrow>
    (backend list \<times> 's \<times> console) option" where
  "handle_request strategy request_id work bsc = (let (backends, s, con) = bsc in
     case strategy backends s of
       None \<Rightarrow> None
     | Some (i, s') \<Rightarrow> (case add_int (in_flight (backends ! i)) work of
           None \<Rightarrow> None
         | Some load \<Rightarrow> (let b = (backends ! i)\<lparr>in_flight := load\<rparr>
             in Some (backends[i := b], s', log_line [''request='', show_int request_id, '' -> '', bname b,
                  '' new_in_flight='', show_int (in_flight b)] con))))"

fun handle_all :: "'s strategy \<Rightarrow> (int \<times> int) list \<Rightarrow> backend list \<times> 's \<times> console \<Rightarrow>
    (backend list \<times> 's \<times> console) option" where
  "handle_all strategy [] bsc = Some bsc"
| "handle_all strategy ((request_id, work) # rs) bsc =
     (case handle_request strategy request_id work bsc of None \<Rightarrow> None | Some bsc' \<Rightarrow> handle_all strategy rs bsc')"

definition make_backends :: "backend list" where
  "make_backends = [\<lparr>bname = ''api-a'', in_flight = 2\<rparr>, \<lparr>bname = ''api-b'', in_flight = 5\<rparr>,
     \<lparr>bname = ''api-c'', in_flight = 1\<rparr>]"

definition run_demo :: "string \<Rightarrow> 's strategy \<Rightarrow> 's \<Rightarrow> console \<Rightarrow> ('s \<times> console) option" where
  "run_demo label strategy s con =
     map_option snd (handle_all strategy [(101, 2), (102, 2), (103, 2)] (make_backends, s, log_line [label] con))"

definition main_out :: "console option" where
  "main_out = (case run_demo ''round robin:'' round_robin 0
       (log_line [''Strategy example: swap routing policy without changing caller.''] []) of
     None \<Rightarrow> None
   | Some (_, con) \<Rightarrow> map_option snd (run_demo ''least loaded:'' least_loaded () con))"

section \<open>Loads that stay in the range of an int\<close>

text \<open>Whichever backends the requests go to, no load leaves the range: each backend has room for
  all the work that is added, and for all that is taken away.\<close>

definition room :: "backend list \<Rightarrow> (int \<times> int) list \<Rightarrow> bool" where
  "room bs rs \<longleftrightarrow> (\<forall>b\<in>set bs.
     in_flight b + (\<Sum>r\<leftarrow>rs. max 0 (snd r)) < 2 ^ 31 \<and>
     - (2 ^ 31) \<le> in_flight b + (\<Sum>r\<leftarrow>rs. min 0 (snd r)))"

lemma work_signs: "0 \<le> (\<Sum>r\<leftarrow>rs. max 0 (snd r :: int))" "(\<Sum>r\<leftarrow>rs. min 0 (snd r :: int)) \<le> 0"
  by (induction rs) auto

lemma room_step:
  assumes "room bs ((rid, work) # rs)" and "i < length bs"
  shows "add_int (in_flight (bs ! i)) work = Some (in_flight (bs ! i) + work)"
    and "room (bs[i := (bs ! i)\<lparr>in_flight := in_flight (bs ! i) + work\<rparr>]) rs"
proof -
  let ?b = "(bs ! i)\<lparr>in_flight := in_flight (bs ! i) + work\<rparr>"
  have room: "in_flight b + (max 0 work + (\<Sum>r\<leftarrow>rs. max 0 (snd r))) < 2 ^ 31 \<and>
      - (2 ^ 31) \<le> in_flight b + (min 0 work + (\<Sum>r\<leftarrow>rs. min 0 (snd r)))" if "b \<in> set bs" for b
    using assms(1) that by (simp add: room_def)
  have i: "bs ! i \<in> set bs" using assms(2) by simp
  show "add_int (in_flight (bs ! i)) work = Some (in_flight (bs ! i) + work)"
    using room [OF i] work_signs [of rs] by (auto simp: add_int_def)
  have "x \<in> set (bs[i := ?b]) \<Longrightarrow> x = ?b \<or> x \<in> set bs" for x
    using set_update_subset_insert [of bs i ?b] by auto
  moreover have "in_flight x + (\<Sum>r\<leftarrow>rs. max 0 (snd r)) < 2 ^ 31 \<and>
      - (2 ^ 31) \<le> in_flight x + (\<Sum>r\<leftarrow>rs. min 0 (snd r))" if "x = ?b \<or> x \<in> set bs" for x
    using that room [OF i] room [of x] by auto
  ultimately show "room (bs[i := ?b]) rs"
    unfolding room_def by blast
qed

section \<open>The contract of a strategy, and the router over it\<close>

locale routing_strategy =
  fixes strategy :: "'s strategy"
  assumes chooses: "backends \<noteq> [] \<Longrightarrow> \<exists>i s'. strategy backends s = Some (i, s') \<and> i < length backends"
begin

text \<open>A request is served exactly when its work keeps the load of the chosen backend in range.\<close>

lemma handle_request_defined:
  assumes "backends \<noteq> []"
  obtains i s' where "i < length backends" and "strategy backends s = Some (i, s')"
    and "handle_request strategy rid work (backends, s, con) = None \<longleftrightarrow>
      \<not> (- (2 ^ 31) \<le> in_flight (backends ! i) + work \<and> in_flight (backends ! i) + work < 2 ^ 31)"
  using chooses [OF assms, of s] by (auto simp: handle_request_def add_int_def Let_def)

lemma handle_request_some:
  assumes "backends \<noteq> []" and "room backends ((rid, work) # rs)"
  obtains i s' con' where "i < length backends" and "strategy backends s = Some (i, s')"
    and "handle_request strategy rid work (backends, s, con) =
      Some (backends[i := (backends ! i)\<lparr>in_flight := in_flight (backends ! i) + work\<rparr>], s', con')"
    and "length con' = Suc (length con)"
  using chooses [OF assms(1), of s] room_step(1) [OF assms(2)]
  by (fastforce simp: handle_request_def Let_def)

text \<open>Every request is served, no backend is renamed, added or lost, and the work is neither
  lost nor counted twice.\<close>

lemma handle_all_conserves:
  "backends \<noteq> [] \<Longrightarrow> room backends rs \<Longrightarrow>
   \<exists>bs' s' con'. handle_all strategy rs (backends, s, con) = Some (bs', s', con') \<and>
     map bname bs' = map bname backends \<and>
     sum_list (map in_flight bs') = sum_list (map in_flight backends) + sum_list (map snd rs) \<and>
     length con' = length con + length rs"
proof (induction rs arbitrary: backends s con)
  case (Cons r rs)
  obtain rid work where r: "r = (rid, work)" by force
  obtain i s' con1 where i: "i < length backends" "handle_request strategy rid work (backends, s, con) =
      Some (backends[i := (backends ! i)\<lparr>in_flight := in_flight (backends ! i) + work\<rparr>], s', con1)"
      "length con1 = Suc (length con)"
    using Cons.prems unfolding r by (rule handle_request_some) blast
  let ?b = "(backends ! i)\<lparr>in_flight := in_flight (backends ! i) + work\<rparr>"
  have "map bname (backends[i := ?b]) = map bname backends"
    using i(1) by (simp add: map_update list_update_same_conv)
  moreover have "sum_list (map in_flight (backends[i := ?b])) = sum_list (map in_flight backends) + work"
    using i(1) by (simp add: map_update sum_list_list_update)
  moreover have "room (backends[i := ?b]) rs"
    using Cons.prems(2) i(1) unfolding r by (rule room_step(2))
  ultimately show ?case
    using Cons.IH [of "backends[i := ?b]" s' con1] Cons.prems(1) i by (simp add: r add.assoc)
qed simp

end

lemma min_element_least:
  "xs ! best = x \<Longrightarrow> best < i \<Longrightarrow> i + length ys = length xs \<Longrightarrow> ys = drop i xs \<Longrightarrow>
   (\<forall>j<i. (f x :: int) \<le> f (xs ! j)) \<Longrightarrow> (\<forall>j<best. f x < f (xs ! j)) \<Longrightarrow>
   (let m = min_element (\<lambda>a b. f a < f b) best x i ys in m < length xs \<and>
     (\<forall>j<length xs. f (xs ! m) \<le> f (xs ! j)) \<and> (\<forall>j<m. f (xs ! m) < f (xs ! j)))"
proof (induction ys arbitrary: best x i)
  case (Cons y ys)
  have i: "i < length xs" using Cons.prems(3) by simp
  then have "drop i xs = xs ! i # drop (Suc i) xs" by (rule Cons_nth_drop_Suc [symmetric])
  with Cons.prems(4) i have y: "xs ! i = y" "ys = drop (Suc i) xs" "i < length xs" by simp_all
  show ?case
  proof (cases "f y < f x")
    case True
    have "\<forall>j<Suc i. f y \<le> f (xs ! j)" "\<forall>j<i. f y < f (xs ! j)"
      using Cons.prems(5) True y(1) by (fastforce simp: less_Suc_eq)+
    then show ?thesis
      using Cons.IH [of i y "Suc i"] Cons.prems(3) True y by simp
  next
    case False
    then have "\<forall>j<Suc i. f x \<le> f (xs ! j)"
      using Cons.prems(5) y(1) by (simp add: less_Suc_eq)
    then show ?thesis
      using Cons.IH [of best x "Suc i"] Cons.prems(1,2,3,5,6) False y by simp
  qed
qed auto

lemma least_loaded_first:
  assumes "bs \<noteq> []"
  shows "\<exists>m. least_loaded bs s = Some (m, s) \<and> m < length bs \<and>
    (\<forall>j<length bs. in_flight (bs ! m) \<le> in_flight (bs ! j)) \<and> (\<forall>j<m. in_flight (bs ! m) < in_flight (bs ! j))"
proof -
  obtain b bs' where bs: "bs = b # bs'" using assms by (cases bs) auto
  have "let m = min_element (\<lambda>a b. in_flight a < in_flight b) 0 b 1 bs' in m < length bs \<and>
     (\<forall>j<length bs. in_flight (bs ! m) \<le> in_flight (bs ! j)) \<and> (\<forall>j<m. in_flight (bs ! m) < in_flight (bs ! j))"
    by (rule min_element_least) (simp_all add: bs)
  then show ?thesis
    unfolding least_loaded_def by (simp add: bs Let_def del: nth_Cons')
qed

interpretation rr: routing_strategy round_robin
  by unfold_locales (simp add: round_robin_def)

interpretation ll: routing_strategy least_loaded
  by unfold_locales (use least_loaded_first in fastforce)

text \<open>The backends chosen for a sequence of requests.\<close>

fun choices :: "'s strategy \<Rightarrow> (int \<times> int) list \<Rightarrow> backend list \<times> 's \<times> console \<Rightarrow> nat list" where
  "choices strategy [] bsc = []"
| "choices strategy ((request_id, work) # rs) bsc =
     (case strategy (fst bsc) (fst (snd bsc)) of
        None \<Rightarrow> []
      | Some (i, _) \<Rightarrow> i # (case handle_request strategy request_id work bsc of
            None \<Rightarrow> [] | Some bsc' \<Rightarrow> choices strategy rs bsc'))"

section \<open>Round robin\<close>

lemma rr_choices:
  "bs \<noteq> [] \<Longrightarrow> room bs rs \<Longrightarrow> choices round_robin rs (bs, nxt, con) =
   map (\<lambda>i. unat (nxt + of_nat i) mod length bs) [0..<length rs]"
proof (induction rs arbitrary: bs nxt con)
  case (Cons r rs)
  obtain rid work where r: "r = (rid, work)" by force
  let ?i = "unat nxt mod length bs"
  have i: "?i < length bs" using Cons.prems(1) by simp
  note step = room_step [OF Cons.prems(2) [unfolded r] i]
  show ?case
    using Cons.IH [OF _ step(2)] Cons.prems(1) step(1)
    by (simp add: r round_robin_def handle_request_def Let_def map_upt_Suc add.assoc del: upt_Suc)
qed simp

lemma turn_eq_less:
  assumes "x \<le> y" and "y < n" and "(a + x) mod n = (a + y) mod n"
  shows "x = (y :: nat)"
proof -
  have "n dvd y - x"
    using assms(1) mod_eq_dvd_iff_nat [of "a + x" "a + y" n] assms(3) by simp
  moreover have "y - x < n" using assms(2) by simp
  ultimately have "y - x = 0" using nat_dvd_not_less [of "y - x" n] by (cases "y - x = 0") simp_all
  with assms(1) show ?thesis by simp
qed

lemma turn_eq: "x < n \<Longrightarrow> y < n \<Longrightarrow> (a + x) mod n = (a + y) mod n \<Longrightarrow> x = (y :: nat)"
  using turn_eq_less [of x y n a] turn_eq_less [of y x n a] by (metis nle_le)

lemma distinct_turns: "k \<le> n \<Longrightarrow> distinct (map (\<lambda>i. (a + i) mod n) [0..<k])"
  by (auto simp: distinct_map inj_on_def intro: turn_eq [of _ n])

lemma turns_block: "j < n \<Longrightarrow> count_list (map (\<lambda>i. (a + i) mod n) [0..<n]) j = (1::nat)"
proof -
  assume j: "j < n"
  have d: "distinct (map (\<lambda>i. (a + i) mod n) [0..<n])" by (rule distinct_turns) simp
  have "set (map (\<lambda>i. (a + i) mod n) [0..<n]) = {0..<n}"
    using j distinct_card [OF d] by (intro card_subset_eq) auto
  with j show ?thesis by (simp only: count_distinct [OF d]) simp
qed

lemma turns_count: "j < n \<Longrightarrow> count_list (map (\<lambda>i. (a + i) mod n) [0..<q * n + r]) j =
   q + count_list (map (\<lambda>i. (a + i) mod n) [0..<r]) j"
proof (induction q)
  case (Suc q)
  have "[0..<Suc q * n + r] = [0..<n] @ map (\<lambda>i. n + i) [0..<q * n + r]"
    using upt_add_eq_append [of 0 n "q * n + r"] map_add_upt [of n "q * n + r"]
    by (simp add: add.commute add.left_commute)
  moreover have "(a + (n + i)) mod n = (a + i) mod n" for i
    by (metis add.assoc add.commute mod_add_self2)
  ultimately show ?case
    using Suc turns_block [of j n a] by (simp add: o_def del: upt_Suc)
qed simp

text \<open>In \<open>k\<close> turns over \<open>n\<close> backends each is chosen \<open>k div n\<close> times, or once more.\<close>

lemma turns_fair:
  assumes "j < n"
  shows "count_list (map (\<lambda>i. (a + i) mod n) [0..<k]) j \<in> {k div n, k div n + 1}"
proof -
  have "distinct (map (\<lambda>i. (a + i) mod n) [0..<k mod n])"
    using assms by (intro distinct_turns) (simp add: less_imp_le)
  then show ?thesis
    using turns_count [OF assms, of a "k div n" "k mod n"] by (auto simp: count_distinct)
qed

text \<open>Without a wrap of the 64-bit counter.\<close>

lemma rr_choices_nat:
  assumes "bs \<noteq> []" and "room bs rs" and "unat nxt + length rs \<le> 2 ^ 64"
  shows "choices round_robin rs (bs, nxt, con) = map (\<lambda>i. (unat nxt + i) mod length bs) [0..<length rs]"
proof -
  have "unat (nxt + of_nat i) = unat nxt + i" if "i < length rs" for i
    using assms(3) that by (simp add: unat_word_ariths unsigned_of_nat take_bit_eq_mod)
  then show ?thesis
    by (simp add: rr_choices [OF assms(1,2)])
qed

section \<open>Least loaded\<close>

definition spread_le :: "int \<Rightarrow> backend list \<Rightarrow> bool" where
  "spread_le d bs \<longleftrightarrow> (\<forall>x\<in>set bs. \<forall>y\<in>set bs. in_flight x - in_flight y \<le> d)"

lemma least_loaded_spread:
  assumes "spread_le d bs" and "m < length bs" and "0 \<le> work" and "work \<le> d"
    and least: "\<forall>j<length bs. in_flight (bs ! m) \<le> in_flight (bs ! j)"
  shows "spread_le d (bs[m := (bs ! m)\<lparr>in_flight := in_flight (bs ! m) + work\<rparr>])"
proof -
  let ?b = "(bs ! m)\<lparr>in_flight := in_flight (bs ! m) + work\<rparr>"
  have old: "x \<in> set bs \<Longrightarrow> in_flight (bs ! m) \<le> in_flight x \<and> in_flight x - in_flight (bs ! m) \<le> d" for x
    using assms(1,2) least unfolding spread_le_def by (metis in_set_conv_nth nth_mem)
  have "x \<in> set (bs[m := ?b]) \<Longrightarrow> x = ?b \<or> x \<in> set bs" for x
    using set_update_subset_insert [of bs m ?b] by auto
  with old assms(1,3,4) show ?thesis
    unfolding spread_le_def by (smt (verit) backend.select_convs(2) backend.update_convs(2) backend.surjective
      backend.cases)
qed

lemma least_loaded_spread_all:
  "bs \<noteq> [] \<Longrightarrow> room bs rs \<Longrightarrow> spread_le d bs \<Longrightarrow> \<forall>(rid, work)\<in>set rs. 0 \<le> work \<and> work \<le> d \<Longrightarrow>
   handle_all least_loaded rs (bs, s, con) = Some (bs', s', con') \<Longrightarrow> spread_le d bs'"
proof (induction rs arbitrary: bs s con)
  case (Cons r rs)
  obtain rid work where r: "r = (rid, work)" by force
  obtain m where m: "least_loaded bs s = Some (m, s)" "m < length bs"
    "\<forall>j<length bs. in_flight (bs ! m) \<le> in_flight (bs ! j)"
    using least_loaded_first [OF Cons.prems(1), of s] by blast
  note step = room_step [OF Cons.prems(2) [unfolded r] m(2)]
  let ?bs = "bs[m := (bs ! m)\<lparr>in_flight := in_flight (bs ! m) + work\<rparr>]"
  have "spread_le d ?bs"
    using Cons.prems m r by (intro least_loaded_spread) auto
  moreover from Cons.prems(5) m(1) step(1)
  obtain con1 where "handle_all least_loaded rs (?bs, s, con1) = Some (bs', s', con')"
    by (auto simp: r handle_request_def Let_def)
  ultimately show ?case
    using Cons.IH [of ?bs s con1] Cons.prems(1,4) step(2) by simp
qed simp

section \<open>Properties\<close>

text \<open>C33. Round robin over at least one backend, provided that the 64-bit counter does not wrap
  during the requests and that each backend has room for their work (no load can leave the range
  of an int): the router serves all the requests, the backends are taken in turn from the one the
  counter points at, so each gets the same number of requests or one more, no backend is
  renamed, and the work of every request lands on exactly one of them.\<close>

theorem round_robin_fair:
  assumes "bs \<noteq> []" and "room bs rs" and "unat nxt + length rs \<le> 2 ^ 64"
  shows "choices round_robin rs (bs, nxt, con) = map (\<lambda>i. (unat nxt + i) mod length bs) [0..<length rs] \<and>
    (\<forall>j<length bs. count_list (choices round_robin rs (bs, nxt, con)) j
       \<in> {length rs div length bs, length rs div length bs + 1}) \<and>
    (\<exists>bs' nxt' con'. handle_all round_robin rs (bs, nxt, con) = Some (bs', nxt', con') \<and>
       map bname bs' = map bname bs \<and>
       sum_list (map in_flight bs') = sum_list (map in_flight bs) + sum_list (map snd rs))"
  using rr_choices_nat [OF assms] turns_fair [of _ "length bs" "unat nxt" "length rs"]
    rr.handle_all_conserves [OF assms(1,2), of nxt con] by auto

text \<open>C34. The least-loaded strategy picks the first of the backends with the smallest load, and keeps
  the loads together: when each request brings between nothing and \<open>d\<close> units of work, no two
  loads were more than \<open>d\<close> apart, and each backend has room for the work of the requests (no load
  can leave the range of an int), then all the requests are served, the loads are still at most
  \<open>d\<close> apart and no work is lost.\<close>

theorem least_loaded_balances:
  assumes "bs \<noteq> []" and "room bs rs" and "spread_le d bs" and "\<forall>(rid, work)\<in>set rs. 0 \<le> work \<and> work \<le> d"
  shows "\<exists>bs' s' con'. handle_all least_loaded rs (bs, s, con) = Some (bs', s', con') \<and> spread_le d bs' \<and>
    map bname bs' = map bname bs \<and>
    sum_list (map in_flight bs') = sum_list (map in_flight bs) + sum_list (map snd rs) \<and>
    (\<exists>m<length bs. least_loaded bs s = Some (m, s) \<and>
      (\<forall>j<length bs. in_flight (bs ! m) \<le> in_flight (bs ! j)) \<and> (\<forall>j<m. in_flight (bs ! m) < in_flight (bs ! j)))"
proof -
  obtain bs' s' con' where h: "handle_all least_loaded rs (bs, s, con) = Some (bs', s', con')"
    "map bname bs' = map bname bs"
    "sum_list (map in_flight bs') = sum_list (map in_flight bs) + sum_list (map snd rs)"
    using ll.handle_all_conserves [OF assms(1,2), of s con] by blast
  with least_loaded_spread_all [OF assms h(1)] least_loaded_first [OF assms(1), of s] show ?thesis
    by blast
qed

section \<open>Witnesses and the example\<close>

definition demo_requests :: "(int \<times> int) list" where
  "demo_requests = [(101, 2), (102, 2), (103, 2), (104, 2)]"

lemma demo_room: "make_backends \<noteq> []" "room make_backends demo_requests"
  by (simp_all add: room_def make_backends_def demo_requests_def)

theorem round_robin_fair_witness:
  "choices round_robin demo_requests (make_backends, 5, []) = [2, 0, 1, 2]"
proof -
  have "unat (5 :: 64 word) + length demo_requests \<le> 2 ^ 64"
    by (simp add: demo_requests_def)
  from round_robin_fair [OF demo_room this, of "[]"] show ?thesis
    by (simp add: make_backends_def demo_requests_def upt_rec)
qed

theorem least_loaded_balances_witness:
  "\<exists>bs' s' con'. handle_all least_loaded demo_requests (make_backends, (), []) = Some (bs', s', con') \<and> spread_le 4 bs'"
proof -
  have "spread_le 4 make_backends" "\<forall>(rid, work)\<in>set demo_requests. 0 \<le> work \<and> work \<le> 4"
    by (simp_all add: make_backends_def demo_requests_def spread_le_def)
  from least_loaded_balances [OF demo_room this, of "()" "[]"] show ?thesis by blast
qed

text \<open>A load without room: the addition leaves the range of an int, and the request is undefined.\<close>

lemma request_overflows:
  "handle_request round_robin 101 1 ([\<lparr>bname = ''api-a'', in_flight = 2 ^ 31 - 1\<rparr>], 0, con) = None"
  by (simp add: handle_request_def round_robin_def add_int_def)

text \<open>At the wrap of the counter the turn is broken for three backends: the last value of the
  counter and the first one name the same backend.\<close>

lemma round_robin_wrap: "choices round_robin [(1, 0), (2, 0)] (make_backends, - 1, []) = [0, 0]"
  by (subst rr_choices)
    (simp_all add: room_def make_backends_def upt_rec unsigned_minus_1_eq_mask mask_eq_exp_minus_1)

lemma strategy_main_output:
  "main_out = Some [''Strategy example: swap routing policy without changing caller.'',
     ''round robin:'', ''request=101 -> api-a new_in_flight=4'', ''request=102 -> api-b new_in_flight=7'',
     ''request=103 -> api-c new_in_flight=3'',
     ''least loaded:'', ''request=101 -> api-c new_in_flight=3'', ''request=102 -> api-a new_in_flight=4'',
     ''request=103 -> api-c new_in_flight=5'']"
  by code_simp

end
