(* ===== verification/Bridge.thy ===== *)
theory Bridge
  imports Prelude
begin

text \<open>
  The loggers of \<^verbatim>\<open>examples/bridge/main.cpp\<close>: the two formats and the two sinks, which vary
  independently. A sink is a function that takes a line; the contract \<open>line_sink\<close> says that it
  appends the line to what the sink shows, and what a logger of either format writes is proved
  for every such sink. The latency printed by the handler is a parameter (the clock).

  Proved: the JSON lines can be read back: \<open>read_event\<close> recovers the event from its line.
\<close>

record log_field =
  key :: string
  val :: string

record log_event =
  level :: string
  message :: string
  evt_fields :: "log_field list"

definition quote :: char where "quote = CHR 0x22"
definition backslash :: char where "backslash = CHR 0x5C"
definition newline :: char where "newline = CHR 0x0A"

definition escape_char :: "char \<Rightarrow> string" where
  "escape_char ch =
     (if ch = backslash then [backslash, backslash]
      else if ch = quote then [backslash, quote]
      else if ch = newline then [backslash, CHR ''n'']
      else [ch])"

definition escape_json :: "string \<Rightarrow> string" where
  "escape_json s = fold (\<lambda>ch out. out @ escape_char ch) s []"

datatype log_format = TextLogger | JsonLogger

definition text_format :: "log_event \<Rightarrow> string" where
  "text_format e = fold (\<lambda>f out. out @ '' '' @ key f @ ''='' @ val f) (evt_fields e)
     (level e @ '' '' @ message e)"

text \<open>A string between quotes.\<close>

definition quoted :: "string \<Rightarrow> string" where
  "quoted s = [quote] @ escape_json s @ [quote]"

definition json_format :: "log_event \<Rightarrow> string" where
  "json_format e = fold (\<lambda>f out. out @ '','' @ quoted (key f) @ '':'' @ quoted (val f)) (evt_fields e)
     (''{'' @ ([quote] @ ''level'' @ [quote] @ '':'') @ quoted (level e) @
      ('','' @ [quote] @ ''msg'' @ [quote] @ '':'') @ quoted (message e)) @ ''}''"

fun format :: "log_format \<Rightarrow> log_event \<Rightarrow> string" where
  "format TextLogger e = text_format e"
| "format JsonLogger e = json_format e"

text \<open>The two sinks: the console, and the lines of an \<^verbatim>\<open>InMemorySink\<close>.\<close>

definition stdout_write_line :: "string \<Rightarrow> console \<Rightarrow> console" where
  "stdout_write_line line con = log_line [line] con"

definition memory_write_line :: "string \<Rightarrow> string list \<Rightarrow> string list" where
  "memory_write_line line lines = lines @ [line]"

definition emit :: "log_format \<Rightarrow> (string \<Rightarrow> 's \<Rightarrow> 's) \<Rightarrow> log_event \<Rightarrow> 's \<Rightarrow> 's" where
  "emit fmt write_line e s = write_line (format fmt e) s"

definition info :: "log_format \<Rightarrow> (string \<Rightarrow> 's \<Rightarrow> 's) \<Rightarrow> string \<Rightarrow> log_field list \<Rightarrow> 's \<Rightarrow> 's" where
  "info fmt write_line msg fs s = emit fmt write_line \<lparr>level = ''INFO'', message = msg, evt_fields = fs\<rparr> s"

definition warn :: "log_format \<Rightarrow> (string \<Rightarrow> 's \<Rightarrow> 's) \<Rightarrow> string \<Rightarrow> log_field list \<Rightarrow> 's \<Rightarrow> 's" where
  "warn fmt write_line msg fs s = emit fmt write_line \<lparr>level = ''WARN'', message = msg, evt_fields = fs\<rparr> s"

definition handle_request :: "int \<Rightarrow> log_format \<Rightarrow> (string \<Rightarrow> 's \<Rightarrow> 's) \<Rightarrow> string \<Rightarrow> string \<Rightarrow> 's \<Rightarrow> 's" where
  "handle_request elapsed_ms fmt write_line route user_id s =
     info fmt write_line ''request.done''
       [\<lparr>key = ''route'', val = route\<rparr>, \<lparr>key = ''status'', val = ''200''\<rparr>,
        \<lparr>key = ''latency_ms'', val = show_int elapsed_ms\<rparr>]
       (info fmt write_line ''request.start''
         [\<lparr>key = ''route'', val = route\<rparr>, \<lparr>key = ''user_id'', val = user_id\<rparr>] s)"

definition main_out :: "int \<Rightarrow> int \<Rightarrow> console" where
  "main_out t1 t2 = (let
     con = handle_request t1 JsonLogger stdout_write_line ''/users/42'' ''alice''
       (log_line [''Bridge example: vary logger format independently from sink destination.''] []);
     lines = handle_request t2 TextLogger memory_write_line ''/health'' ''anonymous'' []
   in fold (\<lambda>l. log_line [l]) lines (log_line [''---- InMemorySink captured lines ----''] con))"

section \<open>The contract of a sink\<close>

locale line_sink =
  fixes write_line :: "string \<Rightarrow> 's \<Rightarrow> 's" and shown :: "'s \<Rightarrow> string list"
  assumes appends: "shown (write_line line s) = shown s @ [line]"
begin

lemma emit_shown: "shown (emit fmt write_line e s) = shown s @ [format fmt e]"
  by (simp add: emit_def appends)

lemma handle_request_shown:
  "shown (handle_request t fmt write_line route user_id s) = shown s @
     [format fmt \<lparr>level = ''INFO'', message = ''request.start'',
        evt_fields = [\<lparr>key = ''route'', val = route\<rparr>, \<lparr>key = ''user_id'', val = user_id\<rparr>]\<rparr>,
      format fmt \<lparr>level = ''INFO'', message = ''request.done'',
        evt_fields = [\<lparr>key = ''route'', val = route\<rparr>, \<lparr>key = ''status'', val = ''200''\<rparr>,
          \<lparr>key = ''latency_ms'', val = show_int t\<rparr>]\<rparr>]"
  by (simp add: handle_request_def info_def emit_shown)

text \<open>A sequence of events through loggers of any formats that share the sink.\<close>

lemma emits_shown:
  "shown (fold (\<lambda>(fmt, e). emit fmt write_line e) les s) = shown s @ map (\<lambda>(fmt, e). format fmt e) les"
  by (induction les arbitrary: s) (auto simp: emit_shown)

end

interpretation stdout_sink: line_sink stdout_write_line "\<lambda>con. con"
  by unfold_locales (simp add: stdout_write_line_def log_line_def)

interpretation memory_sink: line_sink memory_write_line "\<lambda>lines. lines"
  by unfold_locales (simp add: memory_write_line_def)

section \<open>Reading a line back\<close>

lemmas special_chars = quote_def backslash_def newline_def

lemma fold_append: "fold (\<lambda>x out. out @ f x) xs acc = acc @ concat (map f xs)"
  by (induction xs arbitrary: acc) simp_all

lemma escape_json_eq: "escape_json s = concat (map escape_char s)"
  by (simp add: escape_json_def fold_append)

lemma escape_json_simps [simp]: "escape_json [] = []" "escape_json (c # s) = escape_char c @ escape_json s"
  by (simp_all add: escape_json_eq)

lemma json_format_eq: "json_format e = ''{'' @ ([quote] @ ''level'' @ [quote] @ '':'') @ quoted (level e) @
    ('','' @ [quote] @ ''msg'' @ [quote] @ '':'') @ quoted (message e) @
    concat (map (\<lambda>f. '','' @ quoted (key f) @ '':'' @ quoted (val f)) (evt_fields e)) @ ''}''"
  by (simp add: json_format_def fold_append)

text \<open>The characters of a string up to its closing quote, with the three escapes undone, and
  what follows the quote.\<close>

fun read_string :: "string \<Rightarrow> (string \<times> string) option" where
  "read_string [] = None"
| "read_string (c # s) =
     (if c = quote then Some ([], s)
      else if c = backslash then
        (case s of
           [] \<Rightarrow> None
         | d # s' \<Rightarrow> map_option (\<lambda>(t, r). ((if d = CHR ''n'' then newline else d) # t, r)) (read_string s'))
      else map_option (\<lambda>(t, r). (c # t, r)) (read_string s))"

definition read_quoted :: "string \<Rightarrow> (string \<times> string) option" where
  "read_quoted s = Option.bind (expect [quote] s) read_string"

lemma read_string_escaped [simp]: "read_string (escape_json s @ quote # r) = Some (s, r)"
  by (induction s) (auto simp: escape_char_def special_chars)

lemma read_quoted_append [simp]: "read_quoted (quoted s @ r) = Some (s, r)"
  by (simp add: read_quoted_def quoted_def expect_def)

lemma read_quoted_shorter: "read_quoted s = Some (t, r) \<Longrightarrow> length r < length s"
proof -
  have "read_string s = Some (t, r) \<Longrightarrow> length r < length s" for s t r
  proof (induction s arbitrary: t r rule: read_string.induct)
    case (2 c s)
    then show ?case
      by (fastforce split: if_splits list.splits)
  qed simp
  then show "read_quoted s = Some (t, r) \<Longrightarrow> length r < length s"
    by (fastforce simp: read_quoted_def expect_def Option.bind_eq_Some_conv split: if_splits)
qed

lemma bind_expect_shorter: "Option.bind (expect p s) read_quoted = Some (t, r) \<Longrightarrow> length r < length s"
  using read_quoted_shorter by (fastforce simp: expect_def Option.bind_eq_Some_conv split: if_splits)

function read_fields :: "string \<Rightarrow> log_field list option" where
  "read_fields s =
     (if s = ''}'' then Some []
      else case Option.bind (expect '','' s) read_quoted of
        None \<Rightarrow> None
      | Some (k, s1) \<Rightarrow> (case Option.bind (expect '':'' s1) read_quoted of
          None \<Rightarrow> None
        | Some (v, s2) \<Rightarrow> map_option (\<lambda>fs. \<lparr>key = k, val = v\<rparr> # fs) (read_fields s2)))"
  by pat_completeness auto

termination
  by (relation "measure length") (auto dest!: bind_expect_shorter)

declare read_fields.simps [simp del]

definition read_event :: "string \<Rightarrow> log_event option" where
  "read_event s = Option.bind (expect (''{'' @ [quote] @ ''level'' @ [quote] @ '':'') s) (\<lambda>s1.
     Option.bind (read_quoted s1) (\<lambda>(l, s2).
     Option.bind (expect ('','' @ [quote] @ ''msg'' @ [quote] @ '':'') s2) (\<lambda>s3.
     Option.bind (read_quoted s3) (\<lambda>(m, s4).
     map_option (\<lambda>fs. \<lparr>level = l, message = m, evt_fields = fs\<rparr>) (read_fields s4)))))"

lemma read_fields_written:
  "read_fields (concat (map (\<lambda>f. '','' @ quoted (key f) @ '':'' @ quoted (val f)) fs) @ ''}'') = Some fs"
proof (induction fs)
  case (Cons f fs)
  have e: "expect '','' ('','' @ x) = Some x" "expect '':'' ('':'' @ x) = Some x" for x
    by (rule expect_append)+
  show ?case
    using Cons e by (subst read_fields.simps) simp
qed (simp add: read_fields.simps)

lemma read_event_written: "read_event (json_format e) = Some e"
proof -
  have "json_format e = (''{'' @ [quote] @ ''level'' @ [quote] @ '':'') @ quoted (level e) @
    ('','' @ [quote] @ ''msg'' @ [quote] @ '':'') @ quoted (message e) @
    concat (map (\<lambda>f. '','' @ quoted (key f) @ '':'' @ quoted (val f)) (evt_fields e)) @ ''}''"
    by (simp add: json_format_eq)
  then show ?thesis
    by (simp only: read_event_def expect_append read_quoted_append read_fields_written bind.bind_lunit
        prod.case option.map) simp
qed

text \<open>A JSON line is one line: no line break is left in it.\<close>

lemma escape_no_newline: "newline \<notin> set (escape_json s)"
  by (induction s) (auto simp: escape_char_def special_chars)

lemma json_one_line: "newline \<notin> set (json_format e)"
  using escape_no_newline by (auto simp: json_format_eq quoted_def) (auto simp: special_chars)

text \<open>The text format cannot be read back: a message may look like a field, and a value like
  another field.\<close>

lemma text_ambiguous:
  "text_format \<lparr>level = ''INFO'', message = ''login user=root'', evt_fields = []\<rparr> =
   text_format \<lparr>level = ''INFO'', message = ''login'', evt_fields = [\<lparr>key = ''user'', val = ''root''\<rparr>]\<rparr>"
  by (simp add: text_format_def)

text \<open>Control characters other than the line break go through as they are, which JSON forbids
  inside a string.\<close>

lemma tab_not_escaped: "escape_json [CHR 0x09] = [CHR 0x09]"
  by (simp add: escape_char_def special_chars)

section \<open>The property\<close>

text \<open>C35. Whatever events are logged in JSON, to either sink, each becomes exactly one line, and
  the events can be read back from the lines, in order and complete: levels, messages, keys
  and values with any characters, quotes, backslashes and line breaks included. (Control
  characters other than the line break are written as they are, which this reader accepts and
  the JSON grammar does not.)\<close>

theorem json_log_roundtrip:
  "map read_event (fold (emit JsonLogger memory_write_line) es []) = map Some es \<and>
   map read_event (drop (length con) (fold (emit JsonLogger stdout_write_line) es con)) = map Some es \<and>
   newline \<notin> \<Union> (set ` set (fold (emit JsonLogger memory_write_line) es [])) \<and>
   escape_json [CHR 0x09] = [CHR 0x09]"
proof -
  have mem: "fold (emit JsonLogger memory_write_line) es [] = map json_format es"
    using memory_sink.emits_shown [of "map (Pair JsonLogger) es" "[]"] by (simp add: fold_map o_def)
  have std: "fold (emit JsonLogger stdout_write_line) es con = con @ map json_format es"
    using stdout_sink.emits_shown [of "map (Pair JsonLogger) es" con] by (simp add: fold_map o_def)
  show ?thesis
    unfolding mem std using json_one_line by (simp add: read_event_written tab_not_escaped del: escape_json_simps)
qed

lemma bridge_main_output:
  "main_out 0 0 = [''Bridge example: vary logger format independently from sink destination.'',
     json_format \<lparr>level = ''INFO'', message = ''request.start'',
       evt_fields = [\<lparr>key = ''route'', val = ''/users/42''\<rparr>, \<lparr>key = ''user_id'', val = ''alice''\<rparr>]\<rparr>,
     json_format \<lparr>level = ''INFO'', message = ''request.done'',
       evt_fields = [\<lparr>key = ''route'', val = ''/users/42''\<rparr>, \<lparr>key = ''status'', val = ''200''\<rparr>,
         \<lparr>key = ''latency_ms'', val = ''0''\<rparr>]\<rparr>,
     ''---- InMemorySink captured lines ----'',
     ''INFO request.start route=/health user_id=anonymous'', ''INFO request.done route=/health status=200 latency_ms=0'']"
  by code_simp

end
