(* ===== verification/CacheKey.thy ===== *)
theory CacheKey
  imports Prelude "HOL-Library.Word"
begin

text \<open>
  The cache keys of \<^verbatim>\<open>examples/traits_tag_dispatch/main.cpp\<close>. The overload that the trait of a
  type selects is a constructor of \<open>key_part\<close>: \<open>Trivial\<close> for a trivially copyable value (its
  object bytes), \<open>Text\<close> for the string types, \<open>User\<close> for the custom struct. The byte order of the
  machine is a parameter.

  Proved: given the types of its parts, a key can be read back from its hexadecimal form, provided
  its strings hold no NUL. Both conditions are needed: two pairs of strings of which one has a NUL
  have the same key, and so have a string and an object of another type with the same bytes.
\<close>

type_synonym byte = "8 word"

unbundle bit_operations_syntax

text \<open>The object representation of an unsigned integer of \<open>n\<close> bytes.\<close>

fun le_bytes :: "nat \<Rightarrow> nat \<Rightarrow> byte list" where
  "le_bytes 0 x = []"
| "le_bytes (Suc n) x = of_nat (x mod 256) # le_bytes n (x div 256)"

definition object_bytes :: "bool \<Rightarrow> nat \<Rightarrow> nat \<Rightarrow> byte list" where
  "object_bytes little n x = (if little then le_bytes n x else rev (le_bytes n x))"

definition append_bytes :: "byte list \<Rightarrow> byte list \<Rightarrow> byte list" where
  "append_bytes data out = out @ data"

definition char_byte :: "char \<Rightarrow> byte" where
  "char_byte c = of_nat (of_char c)"

definition append_string :: "string \<Rightarrow> byte list \<Rightarrow> byte list" where
  "append_string s out = append_bytes (map char_byte s) out @ [0]"

record user_key =
  user_id :: "64 word"
  region :: string

datatype key_part = Trivial "byte list" | Text string | User user_key

definition uint32_part :: "bool \<Rightarrow> 32 word \<Rightarrow> key_part" where
  "uint32_part little v = Trivial (object_bytes little 4 (unat v))"

definition uint64_part :: "bool \<Rightarrow> 64 word \<Rightarrow> key_part" where
  "uint64_part little v = Trivial (object_bytes little 8 (unat v))"

fun append_part :: "bool \<Rightarrow> key_part \<Rightarrow> byte list \<Rightarrow> byte list" where
  "append_part little (Trivial bs) out = append_bytes bs out"
| "append_part little (Text s) out = append_string s out"
| "append_part little (User k) out =
     append_string (region k) (append_bytes (object_bytes little 8 (unat (user_id k))) (out @ [0xA5]))"

definition build_key :: "bool \<Rightarrow> key_part list \<Rightarrow> byte list" where
  "build_key little ps = fold (append_part little) ps []"

definition kHex :: string where
  "kHex = ''0123456789abcdef''"

definition to_hex :: "byte list \<Rightarrow> string" where
  "to_hex bytes = fold (\<lambda>b out. out @ [kHex ! unat (drop_bit 4 b AND 0xF)] @ [kHex ! unat (b AND 0xF)]) bytes []"

text \<open>The safe-to-log representations: the default, and the types that opt in.\<close>

datatype loggable = Unlisted | Uint32 "32 word" | Uint64 "64 word" | View string | Email string | Log_user user_key

fun log_value :: "loggable \<Rightarrow> string" where
  "log_value Unlisted = ''[redacted]''"
| "log_value (Uint32 v) = show_nat (unat v)"
| "log_value (Uint64 v) = show_nat (unat v)"
| "log_value (View v) = v"
| "log_value (Email v) = ''[redacted-email]''"
| "log_value (Log_user k) =
     ''UserKey{user_id='' @ show_nat (unat (user_id k)) @ '', region='' @ region k @ ''}''"

definition main_user :: user_key where
  "main_user = \<lparr>user_id = 9001, region = ''us-east-1''\<rparr>"

definition main_parts :: "bool \<Rightarrow> key_part list" where
  "main_parts little = [Text ''/users/get'', uint32_part little 42, User main_user]"

definition main_out :: "bool \<Rightarrow> console" where
  "main_out little =
     log_line [''safe log values: route='', log_value (View ''/users/get''), '' request_id='', log_value (Uint32 42),
         '' user_key='', log_value (Log_user main_user), '' email='', log_value (Email ''alice@example.com'')]
     (log_line [''cache key bytes (hex): '', to_hex (build_key little (main_parts little))]
     (log_line [''Traits/tag dispatch example: build a cache key efficiently.''] []))"

section \<open>Integers\<close>

fun le_value :: "byte list \<Rightarrow> nat" where
  "le_value [] = 0"
| "le_value (b # bs) = unat b + 256 * le_value bs"

lemma length_le_bytes [simp]: "length (le_bytes n x) = n"
  by (induction n x rule: le_bytes.induct) simp_all

lemma length_object_bytes [simp]: "length (object_bytes little n x) = n"
  by (simp add: object_bytes_def)

lemma unat_byte: "x < 256 \<Longrightarrow> unat (of_nat x :: byte) = x"
  by (simp add: unsigned_of_nat take_bit_eq_mod)

lemma le_value_bytes: "le_value (le_bytes n x) = x mod 256 ^ n"
proof (induction n x rule: le_bytes.induct)
  case (2 n x)
  have "x mod (256 * 256 ^ n) = x mod 256 + 256 * (x div 256 mod 256 ^ n)"
    using mod_mult2_eq [of x 256 "256 ^ n"] by simp
  with 2 show ?case by (simp add: unat_byte)
qed simp

definition object_value :: "bool \<Rightarrow> byte list \<Rightarrow> nat" where
  "object_value little bs = le_value (if little then bs else rev bs)"

lemma object_value_bytes: "object_value little (object_bytes little n x) = x mod 256 ^ n"
  by (simp add: object_value_def object_bytes_def le_value_bytes)

lemma object_value_word64: "of_nat (object_value little (object_bytes little 8 (unat w))) = (w :: 64 word)"
proof -
  have "unat w < 256 ^ 8" using unsigned_less [of w, where 'a = nat] by simp
  then show ?thesis by (simp add: object_value_bytes)
qed

section \<open>Reading a key back\<close>

text \<open>Each reader peels the bytes of one part off and returns the rest. The type of a part says
  which reader: its tag, and the size for a trivially copyable type.\<close>

datatype part_type = Trivial_type nat | Text_type | User_type

fun type_of :: "key_part \<Rightarrow> part_type" where
  "type_of (Trivial bs) = Trivial_type (length bs)"
| "type_of (Text s) = Text_type"
| "type_of (User k) = User_type"

definition byte_char :: "byte \<Rightarrow> char" where
  "byte_char b = char_of (unat b)"

fun read_text :: "byte list \<Rightarrow> (string \<times> byte list) option" where
  "read_text [] = None"
| "read_text (b # bs) = (if b = 0 then Some ([], bs) else map_option (\<lambda>(s, r). (byte_char b # s, r)) (read_text bs))"

definition read_bytes :: "nat \<Rightarrow> byte list \<Rightarrow> (byte list \<times> byte list) option" where
  "read_bytes n bs = (if n \<le> length bs then Some (take n bs, drop n bs) else None)"

fun read_part :: "bool \<Rightarrow> part_type \<Rightarrow> byte list \<Rightarrow> (key_part \<times> byte list) option" where
  "read_part little (Trivial_type n) bs = map_option (\<lambda>(b, r). (Trivial b, r)) (read_bytes n bs)"
| "read_part little Text_type bs = map_option (\<lambda>(s, r). (Text s, r)) (read_text bs)"
| "read_part little User_type bs =
     Option.bind (read_bytes 1 bs) (\<lambda>(t, bs1). if t \<noteq> [0xA5] then None
       else Option.bind (read_bytes 8 bs1) (\<lambda>(i, bs2).
         map_option (\<lambda>(s, r). (User \<lparr>user_id = of_nat (object_value little i), region = s\<rparr>, r)) (read_text bs2)))"

fun read_parts :: "bool \<Rightarrow> part_type list \<Rightarrow> byte list \<Rightarrow> key_part list option" where
  "read_parts little [] bs = (if bs = [] then Some [] else None)"
| "read_parts little (t # ts) bs =
     Option.bind (read_part little t bs) (\<lambda>(p, r). map_option (\<lambda>ps. p # ps) (read_parts little ts r))"

definition nul :: char where "nul = CHR 0x00"

fun nul_free :: "key_part \<Rightarrow> bool" where
  "nul_free (Trivial bs) = True"
| "nul_free (Text s) = (nul \<notin> set s)"
| "nul_free (User k) = (nul \<notin> set (region k))"

lemma unat_char_byte: "unat (char_byte c) = of_char c"
proof -
  have "(of_char c :: nat) < 256" using nat_of_char_less_256 [of c] by simp
  then show ?thesis by (simp add: char_byte_def unat_byte)
qed

lemma byte_char_byte [simp]: "byte_char (char_byte c) = c"
  by (simp add: byte_char_def unat_char_byte)

lemma char_byte_0 [simp]: "char_byte c = 0 \<longleftrightarrow> c = nul"
proof
  assume "char_byte c = 0"
  then have "(of_char c :: nat) = of_char nul"
    using unat_char_byte [of c] by (simp add: nul_def)
  then show "c = nul" by (metis char_of_char)
qed (simp add: nul_def char_byte_def)

lemma read_text_written [simp]: "nul \<notin> set s \<Longrightarrow> read_text (map char_byte s @ 0 # r) = Some (s, r)"
  by (induction s) auto

lemma read_bytes_written [simp]: "length bs = n \<Longrightarrow> read_bytes n (bs @ r) = Some (bs, r)"
  by (auto simp: read_bytes_def)

definition part_bytes :: "bool \<Rightarrow> key_part \<Rightarrow> byte list" where
  "part_bytes little p = append_part little p []"

lemma append_part_eq: "append_part little p out = out @ part_bytes little p"
  by (cases p) (simp_all add: part_bytes_def append_string_def append_bytes_def)

lemma build_key_eq: "build_key little ps = concat (map (part_bytes little) ps)"
proof -
  have "fold (append_part little) ps out = out @ concat (map (part_bytes little) ps)" for out
    by (induction ps arbitrary: out) (simp_all add: append_part_eq)
  then show ?thesis by (simp add: build_key_def)
qed

lemma read_part_written: "nul_free p \<Longrightarrow> read_part little (type_of p) (part_bytes little p @ r) = Some (p, r)"
proof (cases p)
  case (User k)
  assume "nul_free p"
  moreover have "read_bytes 1 ([0xA5] @ x) = Some ([0xA5], x)" for x :: "byte list"
    by (rule read_bytes_written) simp
  ultimately show ?thesis
    using User by (simp add: part_bytes_def append_string_def append_bytes_def object_value_word64)
qed (simp_all add: part_bytes_def append_string_def append_bytes_def)

lemma read_parts_written:
  "\<forall>p\<in>set ps. nul_free p \<Longrightarrow> read_parts little (map type_of ps) (build_key little ps) = Some ps"
  by (induction ps) (simp_all add: build_key_eq read_part_written)

section \<open>Hexadecimal\<close>

lemma to_hex_eq:
  "to_hex bytes = concat (map (\<lambda>b. [kHex ! unat (drop_bit 4 b AND 0xF), kHex ! unat (b AND 0xF)]) bytes)"
proof -
  have "fold (\<lambda>b out. out @ [kHex ! unat (drop_bit 4 b AND 0xF)] @ [kHex ! unat (b AND 0xF)]) bytes out =
      out @ concat (map (\<lambda>b. [kHex ! unat (drop_bit 4 b AND 0xF), kHex ! unat (b AND 0xF)]) bytes)" for out
    by (induction bytes arbitrary: out) simp_all
  then show ?thesis by (simp add: to_hex_def)
qed

definition hex_digit :: "char \<Rightarrow> nat option" where
  "hex_digit c = (let i = length (takeWhile (\<lambda>d. d \<noteq> c) kHex) in if i < 16 then Some i else None)"

fun of_hex :: "string \<Rightarrow> byte list option" where
  "of_hex [] = Some []"
| "of_hex [c] = None"
| "of_hex (c # d # s) = (case (hex_digit c, hex_digit d) of
     (Some h, Some l) \<Rightarrow> map_option (\<lambda>bs. of_nat (16 * h + l) # bs) (of_hex s)
   | _ \<Rightarrow> None)"

lemma index_of_nth: "distinct xs \<Longrightarrow> n < length xs \<Longrightarrow> length (takeWhile (\<lambda>d. d \<noteq> xs ! n) xs) = n"
proof (induction xs arbitrary: n)
  case (Cons x xs)
  then show ?case by (cases n) auto
qed simp

lemma kHex_16: "distinct kHex" "length kHex = 16"
  by (simp_all add: kHex_def)

lemma hex_digit_kHex: "n < 16 \<Longrightarrow> hex_digit (kHex ! n) = Some n"
  using index_of_nth [OF kHex_16(1), of n] by (simp add: hex_digit_def kHex_16)

lemma nibbles: "unat (drop_bit 4 b AND 0xF) = unat b div 16" "unat (b AND 0xF) = unat b mod 16" for b :: byte
proof -
  have m: "(0xF :: byte) = mask 4" by (simp add: mask_eq_exp_minus_1)
  have b: "unat b < 256" using unsigned_less [of b, where 'a = nat] by simp
  show "unat (b AND 0xF) = unat b mod 16"
    unfolding m take_bit_eq_mask [symmetric] unsigned_take_bit_eq by (simp add: take_bit_eq_mod)
  show "unat (drop_bit 4 b AND 0xF) = unat b div 16"
    using b unfolding m take_bit_eq_mask [symmetric] unsigned_take_bit_eq unsigned_drop_bit_eq
    by (simp add: take_bit_eq_mod drop_bit_eq_div)
qed

lemma to_hex_nibbles: "to_hex bs = concat (map (\<lambda>b. [kHex ! (unat b div 16), kHex ! (unat b mod 16)]) bs)"
  unfolding to_hex_eq nibbles(1) unfolding nibbles(2) ..

lemma of_hex_to_hex: "of_hex (to_hex bs) = Some bs"
proof (induction bs)
  case (Cons b bs)
  have b: "unat b < 256" using unsigned_less [of b, where 'a = nat] by simp
  then have "unat b div 16 < 16" "unat b mod 16 < 16" by simp_all
  moreover have "of_nat (16 * (unat b div 16) + unat b mod 16) = b" by simp
  ultimately show ?case
    using Cons by (simp add: to_hex_nibbles hex_digit_kHex del: of_nat_add of_nat_mult)
qed (simp add: to_hex_nibbles)

text \<open>The delimiter does not make the boundaries of strings that hold a NUL unambiguous: two
  different pairs of strings give the same key.\<close>

lemma nul_collision:
  "build_key little [Text (''a'' @ [nul]), Text []] = build_key little [Text ''a'', Text [nul]]"
  by (simp add: build_key_eq part_bytes_def append_string_def append_bytes_def nul_def char_byte_def)

text \<open>A key does not say what the types of its parts are: a string has the bytes of an object that ends
  in a zero byte.\<close>

lemma type_collision: "build_key little [Trivial [0x61, 0]] = build_key little [Text ''a'']"
  by (simp add: build_key_eq part_bytes_def append_string_def append_bytes_def char_byte_def)

section \<open>The property\<close>

text \<open>C36. On a machine of either byte order, take a cache key built from parts whose strings hold no
  NUL. Given the list of the types of its parts, all the parts can be read back from its hexadecimal
  form; so two such lists of parts of the same types give the same text only when they are the same
  list. Neither condition can be dropped: with a NUL in a string two different pairs of strings
  give one key, and with different types a string and an object of two bytes give one key.\<close>

theorem cache_key_roundtrip:
  assumes "\<forall>p\<in>set ps. nul_free p"
  shows "Option.bind (of_hex (to_hex (build_key little ps))) (read_parts little (map type_of ps)) = Some ps \<and>
    (\<forall>qs. (\<forall>q\<in>set qs. nul_free q) \<and> map type_of qs = map type_of ps \<and>
       to_hex (build_key little qs) = to_hex (build_key little ps) \<longrightarrow> qs = ps) \<and>
    build_key little [Text (''a'' @ [nul]), Text []] = build_key little [Text ''a'', Text [nul]] \<and>
    build_key little [Trivial [0x61, 0]] = build_key little [Text ''a'']"
proof (intro conjI allI impI)
  show "build_key little [Trivial [0x61, 0]] = build_key little [Text ''a'']"
    by (rule type_collision)
  show "build_key little [Text (''a'' @ [nul]), Text []] = build_key little [Text ''a'', Text [nul]]"
    by (rule nul_collision)
  show "Option.bind (of_hex (to_hex (build_key little ps))) (read_parts little (map type_of ps)) = Some ps"
    by (simp add: of_hex_to_hex read_parts_written assms)
  fix qs assume qs: "(\<forall>q\<in>set qs. nul_free q) \<and> map type_of qs = map type_of ps \<and>
       to_hex (build_key little qs) = to_hex (build_key little ps)"
  then have types: "map type_of qs = map type_of ps" and free: "\<forall>q\<in>set qs. nul_free q" by blast+
  from qs have "of_hex (to_hex (build_key little qs)) = of_hex (to_hex (build_key little ps))" by simp
  then have keys: "build_key little qs = build_key little ps" unfolding of_hex_to_hex by simp
  have "Some qs = read_parts little (map type_of qs) (build_key little qs)"
    using read_parts_written [OF free] by simp
  also have "\<dots> = Some ps"
    unfolding types keys by (rule read_parts_written [OF assms])
  finally show "qs = ps" by simp
qed

theorem cache_key_roundtrip_witness:
  "Option.bind (of_hex (to_hex (build_key True (main_parts True)))) (read_parts True (map type_of (main_parts True))) =
   Some (main_parts True)"
proof -
  have "\<forall>p\<in>set (main_parts True). nul_free p"
    by (simp add: main_parts_def uint32_part_def main_user_def nul_def)
  from cache_key_roundtrip [OF this, of True] show ?thesis by blast
qed

text \<open>Whatever the address, an \<^verbatim>\<open>Email\<close> is logged as the same text.\<close>

lemma email_redacted: "log_value (Email a) = log_value (Email b)"
  by simp

lemma le_bytes_4: "le_bytes 4 x = [of_nat (x mod 256), of_nat (x div 256 mod 256), of_nat (x div 256 div 256 mod 256),
    of_nat (x div 256 div 256 div 256 mod 256)]"
proof -
  have "le_bytes (Suc (Suc (Suc (Suc 0)))) x = [of_nat (x mod 256), of_nat (x div 256 mod 256),
    of_nat (x div 256 div 256 mod 256), of_nat (x div 256 div 256 div 256 mod 256)]"
    by (simp only: le_bytes.simps)
  moreover have "4 = Suc (Suc (Suc (Suc 0)))" by simp
  ultimately show ?thesis by (simp only:)
qed

lemma le_bytes_8: "le_bytes 8 x = le_bytes 4 x @ le_bytes 4 (x div 256 div 256 div 256 div 256)"
proof -
  have "le_bytes (Suc (Suc (Suc (Suc n)))) x = le_bytes (Suc (Suc (Suc (Suc 0)))) x @
      le_bytes n (x div 256 div 256 div 256 div 256)" for n
    by (simp only: le_bytes.simps append.simps)
  moreover have "Suc (Suc (Suc (Suc 0))) = 4" "Suc (Suc (Suc (Suc 4))) = 8" by simp_all
  ultimately show ?thesis by metis
qed

text \<open>The key of \<^verbatim>\<open>main\<close> on a little-endian machine, byte by byte.\<close>

lemma main_key: "build_key True (main_parts True) = map char_byte ''/users/get'' @ [0] @ [42, 0, 0, 0] @
    [0xA5] @ [0x29, 0x23, 0, 0, 0, 0, 0, 0] @ map char_byte ''us-east-1'' @ [0]"
  by (simp add: build_key_def main_parts_def main_user_def uint32_part_def append_string_def append_bytes_def
      object_bytes_def le_bytes_4 le_bytes_8 del: list.map)

definition hex_of_nat :: "nat \<Rightarrow> string" where
  "hex_of_nat n = [kHex ! (n div 16), kHex ! (n mod 16)]"

lemma main_hex: "to_hex (build_key True (main_parts True)) =
    ''2f75736572732f676574002a000000a5292300000000000075732d656173742d3100''"
proof -
  have chars: "map (hex_of_nat \<circ> (unat \<circ> char_byte)) s = map (hex_of_nat \<circ> of_char) s" for s
    by (simp add: unat_char_byte)
  have "to_hex (build_key True (main_parts True)) = concat (map (hex_of_nat \<circ> unat) (build_key True (main_parts True)))"
    by (simp add: to_hex_nibbles hex_of_nat_def o_def)
  also have "\<dots> = concat (map (hex_of_nat \<circ> of_char) ''/users/get'' @
      map hex_of_nat [0, 42, 0, 0, 0, 165, 41, 35, 0, 0, 0, 0, 0, 0] @ map (hex_of_nat \<circ> of_char) ''us-east-1'' @
      map hex_of_nat [0])"
    unfolding main_key map_append map_map comp_assoc chars by simp
  also have "\<dots> = ''2f75736572732f676574002a000000a5292300000000000075732d656173742d3100''"
    by code_simp
  finally show ?thesis .
qed

lemma main_safe_user: "log_value (Log_user main_user) = ''UserKey{user_id=9001, region=us-east-1}''"
proof -
  have u: "unat (user_id main_user) = 9001" "region main_user = ''us-east-1''"
    by (simp_all add: main_user_def)
  have n: "show_nat 9001 = ''9001''" by (simp add: show_nat.simps digit_char_def) code_simp
  show ?thesis unfolding log_value.simps u n append.simps ..
qed

lemma main_safe_id: "log_value (Uint32 42) = ''42''"
proof -
  have "unat (42 :: 32 word) = 42" by simp
  moreover have "show_nat 42 = ''42''" by code_simp
  ultimately show ?thesis by (simp only: log_value.simps)
qed

lemma cache_key_main_output:
  "main_out True = [''Traits/tag dispatch example: build a cache key efficiently.'',
     ''cache key bytes (hex): '' @ ''2f75736572732f676574002a000000a5292300000000000075732d656173742d3100'',
     concat [''safe log values: route='', ''/users/get'', '' request_id='', ''42'', '' user_key='',
       ''UserKey{user_id=9001, region=us-east-1}'', '' email='', ''[redacted-email]'']]"
  unfolding main_out_def main_hex main_safe_user main_safe_id
  unfolding log_value.simps log_line_def by simp

end
