(* ===== verification/Raii.thy ===== *)
theory Raii
  imports Prelude Ownership
begin

text \<open>
  The file handle of \<^verbatim>\<open>examples/raii/main.cpp\<close>. A \<^verbatim>\<open>FileHandle\<close> is the pointer its
  \<^verbatim>\<open>unique_ptr\<close> member holds, \<open>None\<close> after a move; a \<^verbatim>\<open>FILE\<close> is the number of its
  \<^verbatim>\<open>fopen\<close>. What the C library answers is a parameter: the error of \<^verbatim>\<open>fopen\<close> if it fails, which
  \<^verbatim>\<open>fputs\<close> succeed, and whether \<^verbatim>\<open>fclose\<close> can write out what was buffered. The world
  records the files opened, those closed in the order of \<^verbatim>\<open>fclose\<close>, the text \<^verbatim>\<open>fputs\<close> took, and
  whether any of it was lost at a close.
\<close>

record c_library =
  fopen_error :: "string option"
  fputs_ok :: "nat \<Rightarrow> bool"
  fclose_ok :: bool

record world =
  opened :: nat
  closed :: "nat list"
  accepted :: string
  lost :: bool
  cout :: console
  cerr :: console

definition fclose :: "c_library \<Rightarrow> nat \<Rightarrow> world \<Rightarrow> world" where
  "fclose lib h w = w\<lparr>closed := closed w @ [h], lost := lost w \<or> \<not> fclose_ok lib\<rparr>"

type_synonym file_handle = "nat option"

definition FileHandle_new :: "c_library \<Rightarrow> world \<Rightarrow> (cpp_exn + file_handle) \<times> world" where
  "FileHandle_new lib w = (case fopen_error lib of
     Some err \<Rightarrow> (Inl (Runtime_error (''fopen failed: '' @ err)), w)
   | None \<Rightarrow> (Inr (Some (opened w)), w\<lparr>opened := Suc (opened w)\<rparr>))"

text \<open>The destructor and the two defaulted moves, as \<^verbatim>\<open>unique_ptr\<close> defines them: a move leaves
  the source null, and an assignment closes what the target held. A move returns the target
  and the source.\<close>

definition FileHandle_destroy :: "c_library \<Rightarrow> file_handle \<Rightarrow> world \<Rightarrow> world" where
  "FileHandle_destroy lib f w = (case f of None \<Rightarrow> w | Some h \<Rightarrow> fclose lib h w)"

definition FileHandle_move :: "file_handle \<Rightarrow> file_handle \<times> file_handle" where
  "FileHandle_move other = (other, None)"

definition FileHandle_move_assign :: "c_library \<Rightarrow> file_handle \<Rightarrow> file_handle \<Rightarrow> world \<Rightarrow>
    (file_handle \<times> file_handle) \<times> world" where
  "FileHandle_move_assign lib f other w = ((other, None), FileHandle_destroy lib f w)"

definition FileHandle_self_assign :: "file_handle \<Rightarrow> world \<Rightarrow> file_handle \<times> world" where
  "FileHandle_self_assign f w = (f, w)"

definition FileHandle_class :: "c_library \<Rightarrow> (file_handle, world) move_only" where
  "FileHandle_class lib = \<lparr>moved_from = None, move_construct = FileHandle_move,
     move_assign = FileHandle_move_assign lib, self_assign = FileHandle_self_assign,
     destroy = FileHandle_destroy lib\<rparr>"

definition newline :: char where
  "newline = CHR 0x0A"

definition line_text :: "string \<Rightarrow> nat \<Rightarrow> string" where
  "line_text prefix_text i = prefix_text @ '' line '' @ show_nat i @ [newline]"

text \<open>What a C function sees of a string: the part before the first NUL.\<close>

definition c_str :: "string \<Rightarrow> string" where
  "c_str s = takeWhile (\<lambda>c. c \<noteq> CHR 0x00) s"

fun write_each :: "c_library \<Rightarrow> string \<Rightarrow> nat list \<Rightarrow> world \<Rightarrow> (cpp_exn + unit) \<times> world" where
  "write_each lib prefix_text [] w = (Inr (), w)"
| "write_each lib prefix_text (i # is) w =
     (if \<not> fputs_ok lib i then (Inl (Runtime_error ''write failed''), w)
      else write_each lib prefix_text is (w\<lparr>accepted := accepted w @ c_str (line_text prefix_text i)\<rparr>))"

definition write_lines :: "c_library \<Rightarrow> string \<Rightarrow> int \<Rightarrow> world \<Rightarrow> (cpp_exn + unit) \<times> world" where
  "write_lines lib prefix_text n_lines w = write_each lib prefix_text [0..<nat n_lines] w"

text \<open>\<^verbatim>\<open>main\<close> for any number of lines. The handle is destroyed on the way out of the
  \<^verbatim>\<open>try\<close> block: after the last message when the block returns, and before the handler runs when
  it is left by an exception.\<close>

definition main_n :: "c_library \<Rightarrow> int \<Rightarrow> world \<Rightarrow> int \<times> world" where
  "main_n lib n_lines w0 = (let
     w1 = w0\<lparr>cout := log_line [''RAII example: writing a small log file.''] (cout w0)\<rparr>;
     handle = (\<lambda>e w. (1, w\<lparr>cerr := log_line [''Error: '', what e] (cerr w)\<rparr>))
   in case FileHandle_new lib w1 of
       (Inl e, w2) \<Rightarrow> handle e w2
     | (Inr f, w2) \<Rightarrow> (case write_lines lib ''request'' n_lines w2 of
         (Inl e, w3) \<Rightarrow> handle e (FileHandle_destroy lib f w3)
       | (Inr _, w3) \<Rightarrow>
           (0, FileHandle_destroy lib f
             (w3\<lparr>cout := log_line [''Wrote raii.log; handle closes automatically.''] (cout w3)\<rparr>))))"

definition main_init :: world where
  "main_init = \<lparr>opened = 0, closed = [], accepted = [], lost = False, cout = [], cerr = []\<rparr>"

definition main_run :: "c_library \<Rightarrow> int \<times> world" where
  "main_run lib = main_n lib 3 main_init"

section \<open>Lines written\<close>

lemma write_each_eq:
  "write_each lib p is w =
   (if takeWhile (fputs_ok lib) is = is then Inr () else Inl (Runtime_error ''write failed''),
    w\<lparr>accepted := accepted w @ concat (map (\<lambda>i. c_str (line_text p i)) (takeWhile (fputs_ok lib) is))\<rparr>)"
  by (induction "is" arbitrary: w) auto

lemma c_str_line: "CHR 0x00 \<notin> set p \<Longrightarrow> c_str (line_text p i) = line_text p i"
  using show_nat_digits [of "CHR 0x00" i]
  by (auto simp: c_str_def line_text_def newline_def is_digit_def takeWhile_eq_all_conv)

section \<open>Handles that move\<close>

definition handle_held :: "file_handle \<Rightarrow> nat list" where
  "handle_held f = (case f of None \<Rightarrow> [] | Some h \<Rightarrow> [h])"

interpretation files: exclusive_owner "FileHandle_class lib" handle_held closed
  by unfold_locales (auto simp: FileHandle_class_def handle_held_def FileHandle_move_def FileHandle_move_assign_def
      FileHandle_self_assign_def FileHandle_destroy_def fclose_def split: option.split)

text \<open>
  Variables of type \<^verbatim>\<open>FileHandle\<close>, under any sequence of openings and of the operations of
  \<open>Ownership\<close>. The files the variables hold and those already closed are the files opened, each
  once.
\<close>

datatype handle_op = Open_file | Own owner_op

fun handle_step :: "c_library \<Rightarrow> handle_op \<Rightarrow> file_handle list \<times> world \<Rightarrow> file_handle list \<times> world" where
  "handle_step lib Open_file (vs, w) = (case FileHandle_new lib w of
     (Inl e, w') \<Rightarrow> (vs, w') | (Inr f, w') \<Rightarrow> (vs @ [f], w'))"
| "handle_step lib (Own op) vw = owner_step (FileHandle_class lib) op vw"

definition accounted :: "file_handle list \<times> world \<Rightarrow> bool" where
  "accounted vw \<longleftrightarrow> resources handle_held closed vw = mset [0..<opened (snd vw)]"

lemma destroy_opened: "opened (destroy (FileHandle_class lib) f w) = opened w"
  by (auto simp: FileHandle_class_def FileHandle_destroy_def fclose_def split: option.split)

lemma step_accounted: "accounted vw \<Longrightarrow> accounted (handle_step lib op vw)"
proof (cases op; cases vw)
  fix vs w assume a: "accounted vw" and [simp]: "op = Open_file" "vw = (vs, w)"
  from a show ?thesis
    by (auto simp: accounted_def resources_def FileHandle_new_def handle_held_def ac_simps simp del: mset_upt
        split: option.split)
next
  fix oop vs w assume a: "accounted vw" and [simp]: "op = Own oop" "vw = (vs, w)"
  have "opened (snd (owner_step (FileHandle_class lib) oop (vs, w))) = opened w"
    by (rule files.step_invariant) (simp_all add: destroy_opened)
  with a show ?thesis by (simp add: accounted_def files.step_conserves)
qed

lemma steps_accounted: "accounted vw \<Longrightarrow> accounted (fold (handle_step lib) ops vw)"
  by (induction ops arbitrary: vw) (simp_all add: step_accounted)

lemma destroy_all_closes:
  assumes "accounted vw"
  shows "mset (closed (destroy_all (FileHandle_class lib) vw)) =
    mset [0..<opened (destroy_all (FileHandle_class lib) vw)]"
proof -
  have "opened (destroy_all (FileHandle_class lib) (fst vw, snd vw)) = opened (snd vw)"
    by (rule files.end_invariant) (simp_all add: destroy_opened)
  with assms show ?thesis by (simp add: accounted_def files.end_total)
qed

section \<open>The property\<close>

text \<open>C39. Whatever the C library answers: \<^verbatim>\<open>main\<close>, for any number of lines, closes the file it
  opened exactly once on every path and no other; it returns 0 exactly when the file opened
  and every line was taken, 1 with one line on the error stream otherwise; and the text
  handed over is the lines before the first that failed. And after any sequence of openings,
  moves, move assignments and destructions of \<^verbatim>\<open>FileHandle\<close>s, when the remaining ones are
  destroyed, every file opened has been closed exactly once. The exit code and the messages do
  not depend on whether the close could write out what was buffered.\<close>

theorem raii_closes_once:
  "closed (snd (main_n lib n main_init)) = [0..<opened (snd (main_n lib n main_init))] \<and>
   fst (main_n lib n main_init) =
     (if fopen_error lib = None \<and> takeWhile (fputs_ok lib) [0..<nat n] = [0..<nat n] then 0 else 1) \<and>
   length (cerr (snd (main_n lib n main_init))) = nat (fst (main_n lib n main_init)) \<and>
   accepted (snd (main_n lib n main_init)) = (if fopen_error lib = None
     then concat (map (line_text ''request'') (takeWhile (fputs_ok lib) [0..<nat n])) else []) \<and>
   mset (closed (destroy_all (FileHandle_class lib) (fold (handle_step lib) ops ([], main_init)))) =
     mset [0..<opened (destroy_all (FileHandle_class lib) (fold (handle_step lib) ops ([], main_init)))] \<and>
   fst (main_n (lib\<lparr>fclose_ok := False\<rparr>) n main_init) = fst (main_n (lib\<lparr>fclose_ok := True\<rparr>) n main_init) \<and>
   cerr (snd (main_n (lib\<lparr>fclose_ok := False\<rparr>) n main_init)) =
     cerr (snd (main_n (lib\<lparr>fclose_ok := True\<rparr>) n main_init))"
proof (intro conjI)
  have "accounted ([], main_init)" by (simp add: accounted_def resources_def main_init_def)
  then show "mset (closed (destroy_all (FileHandle_class lib) (fold (handle_step lib) ops ([], main_init)))) =
     mset [0..<opened (destroy_all (FileHandle_class lib) (fold (handle_step lib) ops ([], main_init)))]"
    by (intro destroy_all_closes steps_accounted)
qed (simp_all add: main_n_def main_init_def FileHandle_new_def write_lines_def write_each_eq c_str_line Let_def
    FileHandle_destroy_def fclose_def split: option.split)

text \<open>What is not checked is the close: when \<^verbatim>\<open>fclose\<close> cannot write out what was buffered the
  program has already announced the file and returns 0.\<close>

lemma close_error_ignored:
  "main_run \<lparr>fopen_error = None, fputs_ok = \<lambda>_. True, fclose_ok = False\<rparr> = (0, w) \<Longrightarrow>
   lost w \<and> cerr w = [] \<and> last (cout w) = ''Wrote raii.log; handle closes automatically.''"
  by (auto simp: main_run_def main_n_def main_init_def FileHandle_new_def write_lines_def write_each_eq Let_def
      FileHandle_destroy_def fclose_def)

lemma raii_main_text:
  "accepted (snd (main_run \<lparr>fopen_error = None, fputs_ok = \<lambda>_. True, fclose_ok = True\<rparr>)) =
   concat (map (line_text ''request'') [0, 1, 2])"
  by (simp add: main_run_def main_n_def main_init_def FileHandle_new_def write_lines_def write_each_eq c_str_line Let_def
      FileHandle_destroy_def fclose_def upt_rec numeral_2_eq_2)

end
