(* ===== verification/SmartPointers.thy ===== *)
theory SmartPointers
  imports Prelude "HOL-Library.Monad_Syntax"
begin

text \<open>
  The request routing of \<^verbatim>\<open>examples/smart_pointers/main.cpp\<close> over an explicit memory. An object
  made by \<^verbatim>\<open>make_shared\<close> is a control block: the object while it lives, and the numbers of its
  owners (\<^verbatim>\<open>shared_ptr\<close>) and observers (\<^verbatim>\<open>weak_ptr\<close>). Such a pointer is the index of its block,
  \<open>None\<close> when null; a \<^verbatim>\<open>unique_ptr\<close> to a response is the index of the response, and a freed
  response is \<open>None\<close>. A dereference of a null pointer or of a dead object is undefined, so the
  functions that dereference return \<open>None\<close> there. Output is \<^verbatim>\<open>std::cout\<close>, one line per
  statement.

  Proved: serving requests dereferences nothing dead, gives back every reference it took and
  frees every response; whether the tracer is alive changes the trace only; and the tracer dies
  with its last owner although contexts and \<^verbatim>\<open>main\<close> observe it.
\<close>

section \<open>The memory\<close>

datatype object = Db_pool string | Tracer

record control_block =
  managed :: "object option"
  strong :: nat
  weak :: nat

record request =
  req_method :: string
  req_path :: string

record response =
  status :: int
  body :: string

record memory =
  blocks :: "control_block list"
  responses :: "response option list"
  cout :: console

type_synonym shared_ptr = "nat option"
type_synonym weak_ptr = "nat option"
type_synonym response_ptr = nat

definition say :: "string list \<Rightarrow> memory \<Rightarrow> memory" where
  "say parts m = m\<lparr>cout := log_line parts (cout m)\<rparr>"

definition update_block :: "nat option \<Rightarrow> (control_block \<Rightarrow> control_block) \<Rightarrow> memory \<Rightarrow> memory" where
  "update_block p f m = (case p of
     None \<Rightarrow> m
   | Some i \<Rightarrow> m\<lparr>blocks := (blocks m)[i := f (blocks m ! i)]\<rparr>)"

definition alive :: "nat option \<Rightarrow> memory \<Rightarrow> bool" where
  "alive p m = (case p of None \<Rightarrow> False | Some i \<Rightarrow> i < length (blocks m) \<and> strong (blocks m ! i) > 0)"

definition make_shared :: "object \<Rightarrow> memory \<Rightarrow> shared_ptr \<times> memory" where
  "make_shared obj m = (Some (length (blocks m)),
     m\<lparr>blocks := blocks m @ [\<lparr>managed = Some obj, strong = 1, weak = 0\<rparr>]\<rparr>)"

definition add_owner :: "control_block \<Rightarrow> control_block" where
  "add_owner b = b\<lparr>strong := Suc (strong b)\<rparr>"

definition remove_owner :: "control_block \<Rightarrow> control_block" where
  "remove_owner b = b\<lparr>strong := strong b - 1, managed := (if strong b \<le> 1 then None else managed b)\<rparr>"

definition add_observer :: "control_block \<Rightarrow> control_block" where
  "add_observer b = b\<lparr>weak := Suc (weak b)\<rparr>"

definition remove_observer :: "control_block \<Rightarrow> control_block" where
  "remove_observer b = b\<lparr>weak := weak b - 1\<rparr>"

text \<open>A \<^verbatim>\<open>shared_ptr\<close> copied, destroyed or reset; a \<^verbatim>\<open>weak_ptr\<close> made from either kind, and
  destroyed; and \<^verbatim>\<open>weak_ptr::lock\<close>, which makes one more owner while there is one.\<close>

definition shared_copy :: "shared_ptr \<Rightarrow> memory \<Rightarrow> memory" where
  "shared_copy p = update_block p add_owner"

definition shared_drop :: "shared_ptr \<Rightarrow> memory \<Rightarrow> memory" where
  "shared_drop p = update_block p remove_owner"

definition weak_copy :: "nat option \<Rightarrow> memory \<Rightarrow> memory" where
  "weak_copy p = update_block p add_observer"

definition weak_drop :: "weak_ptr \<Rightarrow> memory \<Rightarrow> memory" where
  "weak_drop p = update_block p remove_observer"

definition lock :: "weak_ptr \<Rightarrow> memory \<Rightarrow> shared_ptr \<times> memory" where
  "lock p m = (if alive p m then (p, shared_copy p m) else (None, m))"

definition deref :: "shared_ptr \<Rightarrow> memory \<Rightarrow> object option" where
  "deref p m = (case p of None \<Rightarrow> None | Some i \<Rightarrow> if i < length (blocks m) then managed (blocks m ! i) else None)"

definition make_response :: "memory \<Rightarrow> response_ptr \<times> memory" where
  "make_response m = (length (responses m), m\<lparr>responses := responses m @ [Some \<lparr>status = 200, body = []\<rparr>]\<rparr>)"

definition response_at :: "response_ptr \<Rightarrow> memory \<Rightarrow> response option" where
  "response_at p m = (if p < length (responses m) then responses m ! p else None)"

definition set_response :: "response_ptr \<Rightarrow> int \<Rightarrow> string \<Rightarrow> memory \<Rightarrow> memory option" where
  "set_response p code text m =
     map_option (\<lambda>res. m\<lparr>responses := (responses m)[p := Some (res\<lparr>status := code, body := text\<rparr>)]\<rparr>) (response_at p m)"

definition destroy_response :: "response_ptr \<Rightarrow> memory \<Rightarrow> memory" where
  "destroy_response p m = m\<lparr>responses := (responses m)[p := None]\<rparr>"

section \<open>The program\<close>

text \<open>\<^verbatim>\<open>Tracer::record\<close> and \<^verbatim>\<open>DbPool::query_user_name\<close>, called through a pointer to the object.\<close>

definition record_event :: "shared_ptr \<Rightarrow> string \<Rightarrow> memory \<Rightarrow> memory option" where
  "record_event p event m = (case deref p m of Some Tracer \<Rightarrow> Some (say [''[trace] '', event] m) | _ \<Rightarrow> None)"

definition query_user_name :: "shared_ptr \<Rightarrow> int \<Rightarrow> memory \<Rightarrow> string option" where
  "query_user_name p user_id m = (case deref p m of
     Some (Db_pool dsn) \<Rightarrow> Some (if user_id = 42 then ''Ada'' else ''unknown'') | _ \<Rightarrow> None)"

record request_context =
  ctx_request :: request
  ctx_db :: shared_ptr
  ctx_tracer :: weak_ptr

text \<open>The parameters are made from the caller's pointers and moved into the members; the
  destructor drops the members in reverse order.\<close>

definition RequestContext_new :: "request \<Rightarrow> shared_ptr \<Rightarrow> nat option \<Rightarrow> memory \<Rightarrow> request_context \<times> memory" where
  "RequestContext_new req db tracer m =
     (\<lparr>ctx_request = req, ctx_db = db, ctx_tracer = tracer\<rparr>, weak_copy tracer (shared_copy db m))"

definition RequestContext_destroy :: "request_context \<Rightarrow> memory \<Rightarrow> memory" where
  "RequestContext_destroy ctx m = shared_drop (ctx_db ctx) (weak_drop (ctx_tracer ctx) m)"

definition handle_health :: "request_context \<Rightarrow> memory \<Rightarrow> (response_ptr \<times> memory) option" where
  "handle_health ctx m = (let (p, m1) = make_response m in do {
     m2 \<leftarrow> set_response p 200 ''ok'' m1;
     Some (p, m2)
   })"

definition handle_user :: "request_context \<Rightarrow> memory \<Rightarrow> (response_ptr \<times> memory) option" where
  "handle_user ctx m = (let (tracer, m1) = lock (ctx_tracer ctx) m in do {
     m2 \<leftarrow> (if tracer \<noteq> None then map_option (shared_drop tracer) (record_event tracer ''handle_user'' m1) else Some m1);
     let (p, m3) = make_response m2;
     name \<leftarrow> query_user_name (ctx_db ctx) 42 m3;
     m4 \<leftarrow> set_response p 200 (''user=42 name='' @ name) m3;
     Some (p, m4)
   })"

definition handle_not_found :: "request_context \<Rightarrow> memory \<Rightarrow> (response_ptr \<times> memory) option" where
  "handle_not_found ctx m = (let (p, m1) = make_response m in do {
     m2 \<leftarrow> set_response p 404 ''not found'' m1;
     Some (p, m2)
   })"

type_synonym handler = "request_context \<Rightarrow> memory \<Rightarrow> (response_ptr \<times> memory) option"

definition routes :: "string \<Rightarrow> handler option" where
  "routes = [''/health'' \<mapsto> handle_health, ''/user/42'' \<mapsto> handle_user]"

definition dispatch :: handler where
  "dispatch ctx m = (case routes (req_path (ctx_request ctx)) of
     None \<Rightarrow> handle_not_found ctx m
   | Some handler \<Rightarrow> handler ctx m)"

text \<open>One round of the loop of \<^verbatim>\<open>main\<close>; at its end the response and the context are destroyed.\<close>

definition serve :: "shared_ptr \<Rightarrow> shared_ptr \<Rightarrow> request \<Rightarrow> memory \<Rightarrow> memory option" where
  "serve db tracer req m = (let (ctx, m1) = RequestContext_new req db tracer m in do {
     (p, m2) \<leftarrow> dispatch ctx m1;
     res \<leftarrow> response_at p m2;
     let m3 = say [req_method req, '' '', req_path req, '' -> '', show_int (status res), '' '', body res] m2;
     Some (RequestContext_destroy ctx (destroy_response p m3))
   })"

fun serve_each :: "shared_ptr \<Rightarrow> shared_ptr \<Rightarrow> request list \<Rightarrow> memory \<Rightarrow> memory option" where
  "serve_each db tracer [] m = Some m"
| "serve_each db tracer (req # reqs) m = serve db tracer req m \<bind> serve_each db tracer reqs"

text \<open>\<^verbatim>\<open>main\<close> for any list of requests. \<^verbatim>\<open>tracer_weak\<close> is made before \<^verbatim>\<open>tracer.reset()\<close>; the owner
  \<^verbatim>\<open>lock\<close> makes is a temporary of the condition; \<^verbatim>\<open>tracer\<close> is null at the end of the scope.\<close>

definition main_with :: "request list \<Rightarrow> memory option" where
  "main_with reqs = (let
     (db_pool, m1) = make_shared (Db_pool ''postgres://example'') \<lparr>blocks = [], responses = [], cout = []\<rparr>;
     (tracer, m2) = make_shared Tracer m1
   in do {
     m3 \<leftarrow> serve_each db_pool tracer reqs m2;
     let m4 = weak_copy tracer m3;
     let m5 = shared_drop tracer m4;
     let (locked, m6) = lock tracer m5;
     let m7 = shared_drop locked m6;
     let m8 = (if locked = None then say [''[trace] tracer expired (weak_ptr did not extend lifetime)''] m7 else m7);
     Some (shared_drop db_pool (weak_drop tracer m8))
   })"

definition main_requests :: "request list" where
  "main_requests = [\<lparr>req_method = ''GET'', req_path = ''/health''\<rparr>, \<lparr>req_method = ''GET'', req_path = ''/user/42''\<rparr>]"

lemma smart_pointers_main_output:
  "map_option cout (main_with main_requests) = Some [''GET /health -> 200 ok'', ''[trace] handle_user'',
     ''GET /user/42 -> 200 user=42 name=Ada'', ''[trace] tracer expired (weak_ptr did not extend lifetime)'']"
  by code_simp

section \<open>References are given back\<close>

lemma owner_back [simp]: "strong b > 0 \<Longrightarrow> remove_owner (add_owner b) = b"
  by (cases b) (simp add: remove_owner_def add_owner_def)

lemma observer_back [simp]: "remove_observer (add_observer b) = b"
  by (cases b) (simp add: remove_observer_def add_observer_def)

lemma block_fields [simp]:
  "strong (add_owner b) = Suc (strong b)" "managed (add_owner b) = managed b"
  "strong (add_observer b) = strong b" "managed (add_observer b) = managed b"
  by (simp_all add: add_owner_def add_observer_def)

lemmas memory_defs = update_block_def shared_copy_def shared_drop_def weak_copy_def weak_drop_def lock_def alive_def
  deref_def say_def make_response_def set_response_def response_at_def destroy_response_def

text \<open>What the routes answer, and what a request prints.\<close>

definition answer :: "string \<Rightarrow> response" where
  "answer path = (if path = ''/health'' then \<lparr>status = 200, body = ''ok''\<rparr>
     else if path = ''/user/42'' then \<lparr>status = 200, body = ''user=42 name=Ada''\<rparr>
     else \<lparr>status = 404, body = ''not found''\<rparr>)"

definition trace_of :: "bool \<Rightarrow> string \<Rightarrow> string list" where
  "trace_of traced path = (if traced \<and> path = ''/user/42'' then [''[trace] handle_user''] else [])"

definition answer_line :: "request \<Rightarrow> string" where
  "answer_line req = (let res = answer (req_path req)
     in concat [req_method req, '' '', req_path req, '' -> '', show_int (status res), '' '', body res])"

text \<open>A context whose pool lives; its tracer may be null or dead, and is a tracer if it is not.\<close>

definition pool_lives :: "shared_ptr \<Rightarrow> memory \<Rightarrow> bool" where
  "pool_lives db m \<longleftrightarrow> alive db m \<and> (\<exists>dsn. deref db m = Some (Db_pool dsn))"

definition tracer_ok :: "weak_ptr \<Rightarrow> memory \<Rightarrow> bool" where
  "tracer_ok tracer m \<longleftrightarrow> (alive tracer m \<longrightarrow> deref tracer m = Some Tracer)"

lemma dispatch_spec:
  assumes "pool_lives (ctx_db ctx) m" and "tracer_ok (ctx_tracer ctx) m"
  shows "dispatch ctx m = Some (length (responses m),
    m\<lparr>responses := responses m @ [Some (answer (req_path (ctx_request ctx)))],
      cout := cout m @ trace_of (alive (ctx_tracer ctx) m) (req_path (ctx_request ctx))\<rparr>)"
proof -
  consider "req_path (ctx_request ctx) = ''/health''" | (user) "req_path (ctx_request ctx) = ''/user/42''"
    | "routes (req_path (ctx_request ctx)) = None" "req_path (ctx_request ctx) \<noteq> ''/health''"
      "req_path (ctx_request ctx) \<noteq> ''/user/42''"
    by (cases "req_path (ctx_request ctx) = ''/health''"; cases "req_path (ctx_request ctx) = ''/user/42''")
      (auto simp: routes_def)
  then show ?thesis
  proof cases
    case user
    then show ?thesis
      using assms by (cases "alive (ctx_tracer ctx) m"; cases "ctx_tracer ctx"; cases "ctx_db ctx")
        (auto simp: dispatch_def routes_def handle_user_def record_event_def query_user_name_def pool_lives_def
          tracer_ok_def trace_of_def answer_def log_line_def memory_defs nth_list_update)
  qed (auto simp: dispatch_def routes_def handle_health_def handle_not_found_def trace_of_def answer_def memory_defs)
qed

definition served :: "bool \<Rightarrow> request \<Rightarrow> memory \<Rightarrow> memory" where
  "served traced req m = m\<lparr>responses := responses m @ [None],
     cout := cout m @ trace_of traced (req_path req) @ [answer_line req]\<rparr>"

text \<open>A context takes one owner and one observer, and gives them back.\<close>

lemma alive_Some: "alive p m \<Longrightarrow> \<exists>i. p = Some i \<and> i < length (blocks m) \<and> strong (blocks m ! i) > 0"
  by (auto simp: alive_def split: option.splits)

lemma update_block_lives:
  assumes "\<And>b. managed (f b) = managed b"
    and "\<And>i. q = Some i \<Longrightarrow> i < length (blocks m) \<Longrightarrow> strong (f (blocks m ! i)) > 0 \<longleftrightarrow> strong (blocks m ! i) > 0"
  shows "alive p (update_block q f m) = alive p m" "deref p (update_block q f m) = deref p m"
proof -
  have nth: "i < length xs \<Longrightarrow> xs[k := y] ! i = (if k = i then y else xs ! i)" for xs :: "control_block list" and k i y
    by simp
  show "alive p (update_block q f m) = alive p m" "deref p (update_block q f m) = deref p m"
    using assms by (auto simp: update_block_def alive_def deref_def nth split: option.splits if_splits)
qed

lemma context_lives:
  assumes "RequestContext_new req db tracer m = (ctx, m')" and "alive db m"
  shows "alive p m' = alive p m" "deref p m' = deref p m"
proof -
  have "alive p (shared_copy db m) = alive p m" "deref p (shared_copy db m) = deref p m" for p
    unfolding shared_copy_def using assms(2) by (auto intro!: update_block_lives dest!: alive_Some)
  moreover have "alive p (weak_copy tracer m) = alive p m" "deref p (weak_copy tracer m) = deref p m" for m
    unfolding weak_copy_def by (auto intro!: update_block_lives)
  ultimately show "alive p m' = alive p m" "deref p m' = deref p m"
    using assms(1) by (auto simp: RequestContext_new_def)
qed

lemma update_block_other [simp]:
  "update_block p f (m\<lparr>responses := rs\<rparr>) = (update_block p f m)\<lparr>responses := rs\<rparr>"
  "update_block p f (m\<lparr>cout := out\<rparr>) = (update_block p f m)\<lparr>cout := out\<rparr>"
  "responses (update_block p f m) = responses m" "cout (update_block p f m) = cout m"
  by (auto simp: update_block_def split: option.splits)

lemma update_block_back: "alive p m \<Longrightarrow> update_block p remove_owner (update_block p add_owner m) = m"
  by (auto simp: update_block_def dest!: alive_Some)

lemma update_observer_back: "update_block p remove_observer (update_block p add_observer m) = m"
proof (cases p)
  case (Some i)
  then show ?thesis
    by (cases "i < length (blocks m)") (simp_all add: update_block_def list_update_beyond not_less)
qed (simp add: update_block_def)

lemma serve_spec:
  assumes "pool_lives db m" and "tracer_ok tracer m"
  shows "serve db tracer req m = Some (served (alive tracer m) req m)"
proof -
  obtain ctx m1 where new: "RequestContext_new req db tracer m = (ctx, m1)" by (rule prod.exhaust)
  have ctx: "ctx_request ctx = req" "ctx_db ctx = db" "ctx_tracer ctx = tracer"
    and m1: "m1 = weak_copy tracer (shared_copy db m)"
    using new by (auto simp: RequestContext_new_def)
  have db: "alive db m" using assms by (simp add: pool_lives_def)
  note lives = context_lives [OF new db]
  have "pool_lives (ctx_db ctx) m1" "tracer_ok (ctx_tracer ctx) m1"
    using assms by (simp_all add: pool_lives_def tracer_ok_def lives ctx)
  from dispatch_spec [OF this] show ?thesis
    by (simp add: serve_def new lives ctx) (simp add: ctx m1 answer_line_def served_def Let_def say_def log_line_def response_at_def
        destroy_response_def RequestContext_destroy_def shared_drop_def weak_drop_def shared_copy_def weak_copy_def
        update_observer_back update_block_back db)
qed

lemma served_lives [simp]: "alive p (served t req m) = alive p m" "deref p (served t req m) = deref p m"
  by (simp_all add: served_def alive_def deref_def split: option.split)

text \<open>Serving leaves every count as it was, whether or not the tracer is alive.\<close>

lemma serve_each_spec:
  assumes "pool_lives db m" and "tracer_ok tracer m"
  shows "serve_each db tracer reqs m = Some (m\<lparr>responses := responses m @ replicate (length reqs) None,
    cout := cout m @ concat (map (\<lambda>q. trace_of (alive tracer m) (req_path q) @ [answer_line q]) reqs)\<rparr>)"
  using assms
proof (induction reqs arbitrary: m)
  case (Cons req reqs)
  let ?m = "served (alive tracer m) req m"
  have "pool_lives db ?m" "tracer_ok tracer ?m"
    using Cons.prems by (simp_all add: pool_lives_def tracer_ok_def)
  from Cons.IH [OF this] show ?case
    by (simp add: serve_spec [OF Cons.prems]) (simp add: served_def)
qed simp

section \<open>The property\<close>

lemma main_with_eq:
  "main_with reqs = Some \<lparr>blocks = replicate 2 \<lparr>managed = None, strong = 0, weak = 0\<rparr>,
     responses = replicate (length reqs) None,
     cout = concat (map (\<lambda>q. trace_of True (req_path q) @ [answer_line q]) reqs) @
       [''[trace] tracer expired (weak_ptr did not extend lifetime)'']\<rparr>"
proof -
  let ?m = "\<lparr>blocks = [\<lparr>managed = Some (Db_pool ''postgres://example''), strong = 1, weak = 0\<rparr>,
    \<lparr>managed = Some Tracer, strong = 1, weak = 0\<rparr>], responses = [], cout = []\<rparr>"
  have "pool_lives (Some 0) ?m" "tracer_ok (Some 1) ?m" "alive (Some 1) ?m"
    by (simp_all add: pool_lives_def tracer_ok_def alive_def deref_def)
  from serve_each_spec [OF this(1,2), of reqs] this(3) show ?thesis
    by (simp add: main_with_def make_shared_def Let_def memory_defs)
      (simp add: add_observer_def remove_owner_def remove_observer_def log_line_def numeral_2_eq_2)
qed

text \<open>C18. A request borrows what it uses. While the database pool lives, and whether the tracer is
  alive or expired, serving any requests never dereferences a null pointer or a dead object
  (the result is not \<open>None\<close>), frees the response of each, and leaves every count of owners and
  observers as it was; the responses are the same either way, and \<^verbatim>\<open>/user/42\<close> leaves a trace
  exactly when the tracer is alive. So \<^verbatim>\<open>main\<close>, for any requests, ends with both objects
  destroyed, no owner and no observer left and every response freed, and the tracer is gone when
  its one owner resets it, whatever still observed it.\<close>

theorem requests_borrow:
  assumes "pool_lives db m" and "tracer_ok tracer m"
  shows "serve_each db tracer reqs m = Some (m\<lparr>responses := responses m @ replicate (length reqs) None,
      cout := cout m @ concat (map (\<lambda>q. trace_of (alive tracer m) (req_path q) @ [answer_line q]) reqs)\<rparr>) \<and>
    main_with reqs = Some \<lparr>blocks = replicate 2 \<lparr>managed = None, strong = 0, weak = 0\<rparr>,
      responses = replicate (length reqs) None,
      cout = concat (map (\<lambda>q. trace_of True (req_path q) @ [answer_line q]) reqs) @
        [''[trace] tracer expired (weak_ptr did not extend lifetime)'']\<rparr>"
  using serve_each_spec [OF assms] main_with_eq by blast

text \<open>At work: the pool has two owners, and the tracer has expired with an observer left.\<close>

theorem requests_borrow_witness:
  "case \<lparr>blocks = [\<lparr>managed = Some (Db_pool ''dsn''), strong = 2, weak = 0\<rparr>, \<lparr>managed = None, strong = 0, weak = 1\<rparr>],
      responses = [], cout = []\<rparr> of m \<Rightarrow>
   serve_each (Some 0) (Some 1) [\<lparr>req_method = ''GET'', req_path = ''/user/42''\<rparr>] m =
     Some (m\<lparr>responses := [None], cout := [''GET /user/42 -> 200 user=42 name=Ada'']\<rparr>)"
proof -
  let ?m = "\<lparr>blocks = [\<lparr>managed = Some (Db_pool ''dsn''), strong = 2, weak = 0\<rparr>,
    \<lparr>managed = None, strong = 0, weak = 1\<rparr>], responses = [], cout = []\<rparr>"
  have "pool_lives (Some 0) ?m" "tracer_ok (Some 1) ?m"
    by (simp_all add: pool_lives_def tracer_ok_def alive_def deref_def)
  from requests_borrow [OF this, of "[\<lparr>req_method = ''GET'', req_path = ''/user/42''\<rparr>]"]
  have "serve_each (Some 0) (Some 1) [\<lparr>req_method = ''GET'', req_path = ''/user/42''\<rparr>] ?m =
    Some (?m\<lparr>responses := [None], cout := trace_of (alive (Some 1) ?m) ''/user/42'' @
      [answer_line \<lparr>req_method = ''GET'', req_path = ''/user/42''\<rparr>]\<rparr>)"
    by simp
  moreover have "answer_line \<lparr>req_method = ''GET'', req_path = ''/user/42''\<rparr> = ''GET /user/42 -> 200 user=42 name=Ada''"
    by code_simp
  ultimately show ?thesis
    by (simp add: trace_of_def alive_def)
qed

end
