(* ===== verification/Visitor.thy ===== *)
theory Visitor
  imports Prelude
begin

text \<open>
  The protocol messages of \<^verbatim>\<open>examples/visitor/main.cpp\<close>: the variant as a datatype, each of the
  three visitors as a function by cases on it, and \<open>main\<close>. Applying a visitor with
  \<^verbatim>\<open>std::visit\<close> is applying its function.

  Proved: a reader of the serialized form recovers the message up to the payload of a
  publication, whatever characters its strings hold, and the kind of a message can be read
  off its response.
\<close>

datatype protocol_message =
    Connect string int
  | Publish string string int
  | Subscribe string
  | Disconnect string

fun serialize :: "protocol_message \<Rightarrow> string" where
  "serialize (Connect client_id version) = ''CONNECT(client='' @ client_id @ '', v='' @ show_int version @ '')''"
| "serialize (Publish topic payload qos) = ''PUBLISH(topic='' @ topic @ '', qos='' @ show_int qos @ '')''"
| "serialize (Subscribe topic_filter) = ''SUBSCRIBE(filter='' @ topic_filter @ '')''"
| "serialize (Disconnect reason) = ''DISCONNECT(reason='' @ reason @ '')''"

fun log_message :: "protocol_message \<Rightarrow> console \<Rightarrow> console" where
  "log_message (Connect client_id version) = log_line [''[CONNECT] Client '', client_id, '' version '', show_int version]"
| "log_message (Publish topic payload qos) =
     log_line [''[PUBLISH] Topic '', topic, '' size '', show_nat (length payload), '' qos '', show_int qos]"
| "log_message (Subscribe topic_filter) = log_line [''[SUBSCRIBE] Filter '', topic_filter]"
| "log_message (Disconnect reason) = log_line [''[DISCONNECT] Reason: '', reason]"

fun respond :: "protocol_message \<Rightarrow> string" where
  "respond (Connect client_id version) = ''CONNACK: accepted''"
| "respond (Publish topic payload qos) = ''PUBACK: msg_id=123''"
| "respond (Subscribe topic_filter) = ''SUBACK: granted_qos=1''"
| "respond (Disconnect reason) = ''Closing connection''"

definition newline :: char where
  "newline = CHR 0x0A"

definition main_messages :: "protocol_message list" where
  "main_messages = [Connect ''client-001'' 2, Publish ''sensors/temp'' ''22.5'' 1, Subscribe ''sensors/#'',
     Publish ''sensors/humidity'' ''45.2'' 0, Disconnect ''client_shutdown'']"

definition main_out :: console where
  "main_out = fold (\<lambda>m. log_line [serialize m, '' => '', respond m]) main_messages
     (log_line [newline # ''--- Dispatch ---'']
     (fold log_message main_messages
     (log_line [newline # ''--- Logging ---'']
     (fold (\<lambda>m. log_line [serialize m]) main_messages
     (log_line [newline # ''--- Serialization ---'']
     (log_line [''Visitor example: handle protocol message variants with std::variant + std::visit.''] []))))))"

section \<open>What the lines tell\<close>

datatype message_kind = Kind_connect | Kind_publish | Kind_subscribe | Kind_disconnect

fun kind_of :: "protocol_message \<Rightarrow> message_kind" where
  "kind_of (Connect c v) = Kind_connect"
| "kind_of (Publish t p q) = Kind_publish"
| "kind_of (Subscribe f) = Kind_subscribe"
| "kind_of (Disconnect r) = Kind_disconnect"

lemma serialize_kind: "serialize m = serialize n \<Longrightarrow> kind_of m = kind_of n"
  by (cases m; cases n) simp_all

lemma respond_kind: "respond m = respond n \<longleftrightarrow> kind_of m = kind_of n"
  by (cases m; cases n) simp_all

lemma show_int_no_equals: "CHR ''='' \<notin> set (show_int i)"
  using show_nat_digits by (fastforce simp: show_int_def is_digit_def split: if_splits)

fun without_payload :: "protocol_message \<Rightarrow> protocol_message" where
  "without_payload (Publish t p q) = Publish t [] q"
| "without_payload m = m"

section \<open>Reading a message back\<close>

text \<open>
  The strings of a message may hold any characters, also those of the format, so a number is
  read from the end of the text: it is what follows the last equals sign. The reader undoes
  the serializer up to the payload of a publication, which is not written.
\<close>

definition last_field :: "string \<Rightarrow> string \<Rightarrow> string \<times> int" where
  "last_field sep s = (let num = rev (takeWhile (\<lambda>c. c \<noteq> CHR ''='') (rev s))
   in (take (length s - length num - length sep) s, read_int num))"

definition read_message :: "string \<Rightarrow> protocol_message option" where
  "read_message s = (case expect ''CONNECT(client='' s of
     Some r \<Rightarrow> (case last_field '', v='' (butlast r) of (client_id, version) \<Rightarrow> Some (Connect client_id version))
   | None \<Rightarrow> (case expect ''PUBLISH(topic='' s of
     Some r \<Rightarrow> (case last_field '', qos='' (butlast r) of (topic, qos) \<Rightarrow> Some (Publish topic [] qos))
   | None \<Rightarrow> (case expect ''SUBSCRIBE(filter='' s of
     Some r \<Rightarrow> Some (Subscribe (butlast r))
   | None \<Rightarrow> map_option (\<lambda>r. Disconnect (butlast r)) (expect ''DISCONNECT(reason='' s))))"

lemma takeWhile_digits: "takeWhile (\<lambda>c. c \<noteq> CHR ''='') (rev (show_int i) @ CHR ''='' # r) = rev (show_int i)"
  using show_int_no_equals [of i] by (subst takeWhile_append2) auto

lemma last_field_written: "last_field (sep @ ''='') (x @ sep @ CHR ''='' # show_int i) = (x, i)"
  by (simp add: last_field_def takeWhile_digits)

lemma read_serialized: "read_message (serialize m) = Some (without_payload m)"
proof (cases m)
  case (Connect c v)
  have "last_field '', v='' (c @ '', v='' @ show_int v) = (c, v)"
    using last_field_written [of "'', v''" c v] by simp
  then show ?thesis
    using Connect expect_append [of "''CONNECT(client=''"]
    by (simp add: read_message_def butlast_append)
next
  case (Publish t p q)
  have "last_field '', qos='' (t @ '', qos='' @ show_int q) = (t, q)"
    using last_field_written [of "'', qos''" t q] by simp
  then show ?thesis
    using Publish expect_append [of "''PUBLISH(topic=''"]
    by (simp add: read_message_def butlast_append expect_def)
next
  case (Subscribe f)
  then show ?thesis by (simp add: read_message_def butlast_append expect_def)
next
  case (Disconnect r)
  then show ?thesis by (simp add: read_message_def butlast_append expect_def)
qed

lemma serialize_determines: "serialize m = serialize n \<longleftrightarrow> without_payload m = without_payload n"
proof
  assume "serialize m = serialize n"
  then show "without_payload m = without_payload n"
    using read_serialized [of m] read_serialized [of n] by simp
next
  assume "without_payload m = without_payload n"
  then show "serialize m = serialize n" by (cases m; cases n) auto
qed

text \<open>C37. The serialized form of a message can be read back, whatever characters its strings
  hold: the reader recovers the variant and every field but the payload of a publication,
  which is not written. So two messages are serialized alike exactly when they differ at most
  in their payloads, and they get the same response exactly when they are of the same kind.\<close>

theorem message_roundtrip:
  "read_message (serialize m) = Some (without_payload m) \<and>
   (serialize m = serialize n \<longleftrightarrow> without_payload m = without_payload n) \<and>
   (respond m = respond n \<longleftrightarrow> kind_of m = kind_of n)"
  using read_serialized serialize_determines respond_kind by blast

text \<open>The payload of a publication is not serialized.\<close>

lemma payload_not_serialized: "serialize (Publish t p q) = serialize (Publish t p' q)"
  by simp

lemma log_message_line: "\<exists>l. log_message m con = con @ [l]"
  by (cases m) (simp_all add: log_line_def)

lemma visitor_main_output:
  "main_out = [''Visitor example: handle protocol message variants with std::variant + std::visit.'',
     newline # ''--- Serialization ---'', ''CONNECT(client=client-001, v=2)'', ''PUBLISH(topic=sensors/temp, qos=1)'',
     ''SUBSCRIBE(filter=sensors/#)'', ''PUBLISH(topic=sensors/humidity, qos=0)'', ''DISCONNECT(reason=client_shutdown)'',
     newline # ''--- Logging ---'', ''[CONNECT] Client client-001 version 2'', ''[PUBLISH] Topic sensors/temp size 4 qos 1'',
     ''[SUBSCRIBE] Filter sensors/#'', ''[PUBLISH] Topic sensors/humidity size 4 qos 0'',
     ''[DISCONNECT] Reason: client_shutdown'',
     newline # ''--- Dispatch ---'', ''CONNECT(client=client-001, v=2) => CONNACK: accepted'',
     ''PUBLISH(topic=sensors/temp, qos=1) => PUBACK: msg_id=123'', ''SUBSCRIBE(filter=sensors/#) => SUBACK: granted_qos=1'',
     ''PUBLISH(topic=sensors/humidity, qos=0) => PUBACK: msg_id=123'',
     ''DISCONNECT(reason=client_shutdown) => Closing connection'']"
  by code_simp

end
