(* ===== verification/Observer.thy ===== *)
theory Observer
  imports Prelude
begin

text \<open>
  The dispatcher of \<^verbatim>\<open>examples/observer/main.cpp\<close>. Its map from \<^verbatim>\<open>type_index\<close> to \<^verbatim>\<open>std::any\<close> is
  kept as such: an \<open>any\<close> is empty or a vector of handlers with the event type it was made for,
  and \<^verbatim>\<open>any_cast\<close> to another type throws \<^verbatim>\<open>bad_any_cast\<close>. A handler is code that logs,
  subscribes and publishes, so a publication can happen inside another. The vectors a
  publication is iterating over are recorded, because a subscription to one of them invalidates
  the iterators of the loop, which is undefined.

  Proved: no cast ever fails, whatever the handlers do; and as long as handlers only log and
  publish events of lower levels, every publication ends and runs exactly the handlers subscribed
  for the type of its event, in the order of subscription, nested ones where they are made.
\<close>

section \<open>Events and handlers\<close>

datatype event = OrderPlacedEvent int string | OrderCancelledEvent int string

datatype event_type = Order_placed | Order_cancelled

fun type_index :: "event \<Rightarrow> event_type" where
  "type_index (OrderPlacedEvent i c) = Order_placed"
| "type_index (OrderCancelledEvent i r) = Order_cancelled"

datatype reaction =
    Log_line "string list"
  | Subscribe_to event_type "event \<Rightarrow> reaction list"
  | Publish_now event

type_synonym handler = "event \<Rightarrow> reaction list"

section \<open>The dispatcher\<close>

datatype any = No_value | Vector_of event_type "handler list"

fun any_cast :: "event_type \<Rightarrow> any \<Rightarrow> handler list option" where
  "any_cast t No_value = None"
| "any_cast t (Vector_of u hs) = (if u = t then Some hs else None)"

type_synonym dispatcher = "event_type \<Rightarrow> any option"

text \<open>\<open>None\<close> is \<^verbatim>\<open>bad_any_cast\<close>; \<^verbatim>\<open>operator[]\<close> makes an empty value where there is none.\<close>

definition get_handlers :: "event_type \<Rightarrow> dispatcher \<Rightarrow> handler list option \<times> dispatcher" where
  "get_handlers t d = (let d' = (if d t = None then d(t \<mapsto> Vector_of t []) else d)
     in (any_cast t (case d' t of None \<Rightarrow> No_value | Some a \<Rightarrow> a), d'))"

record world =
  disp :: dispatcher
  iterating :: "event_type list"
  con :: console

datatype fault = Bad_any_cast | Invalid_iterator

definition subscribe :: "event_type \<Rightarrow> handler \<Rightarrow> world \<Rightarrow> fault + world" where
  "subscribe t h w = (case get_handlers t (disp w) of
     (None, _) \<Rightarrow> Inl Bad_any_cast
   | (Some hs, d) \<Rightarrow> if t \<in> set (iterating w) then Inl Invalid_iterator
       else Inr (w\<lparr>disp := d(t \<mapsto> Vector_of t (hs @ [h]))\<rparr>))"

text \<open>
  What remains to be done, innermost first: a reaction of a handler, the call of a handler by the
  loop of \<^verbatim>\<open>publish\<close>, and the end of that loop.
\<close>

datatype task = Reaction reaction | Call handler event | End_of_loop event_type

definition publish :: "event \<Rightarrow> world \<Rightarrow> fault + task list \<times> world" where
  "publish e w = (case get_handlers (type_index e) (disp w) of
     (None, _) \<Rightarrow> Inl Bad_any_cast
   | (Some hs, d) \<Rightarrow> Inr (map (\<lambda>h. Call h e) hs @ [End_of_loop (type_index e)],
       w\<lparr>disp := d, iterating := type_index e # iterating w\<rparr>))"

fun perform :: "task \<Rightarrow> world \<Rightarrow> fault + task list \<times> world" where
  "perform (Reaction (Log_line parts)) w = Inr ([], w\<lparr>con := log_line parts (con w)\<rparr>)"
| "perform (Reaction (Subscribe_to t h)) w = map_sum id (\<lambda>w'. ([], w')) (subscribe t h w)"
| "perform (Reaction (Publish_now e)) w = publish e w"
| "perform (Call h e) w = Inr (map Reaction (h e), w)"
| "perform (End_of_loop t) w = Inr ([], w\<lparr>iterating := remove1 t (iterating w)\<rparr>)"

text \<open>Running tasks need not end: a handler may publish its own event again.\<close>

partial_function (option) run_tasks :: "task list \<Rightarrow> world \<Rightarrow> (fault + world) option" where
  "run_tasks ts w = (case ts of
     [] \<Rightarrow> Some (Inr w)
   | t # rest \<Rightarrow> (case perform t w of
       Inl f \<Rightarrow> Some (Inl f)
     | Inr (new, w') \<Rightarrow> run_tasks (new @ rest) w'))"

definition new_world :: world where
  "new_world = \<lparr>disp = Map.empty, iterating = [], con = []\<rparr>"

definition run_program :: "reaction list \<Rightarrow> (fault + world) option" where
  "run_program prog = run_tasks (map Reaction prog) new_world"

section \<open>The order service\<close>

text \<open>A call of the service as the actions it performs, with the next order id.\<close>

definition place_order :: "string \<Rightarrow> int \<Rightarrow> reaction list \<times> int" where
  "place_order customer next_order_id =
     ([Log_line [''order service: placed order='', show_int next_order_id],
       Publish_now (OrderPlacedEvent next_order_id customer)], next_order_id + 1)"

definition cancel_order :: "int \<Rightarrow> string \<Rightarrow> reaction list" where
  "cancel_order order_id reason =
     [Log_line [''order service: cancelling order='', show_int order_id],
      Publish_now (OrderCancelledEvent order_id reason)]"

fun order_of :: "event \<Rightarrow> int" where
  "order_of (OrderPlacedEvent i c) = i"
| "order_of (OrderCancelledEvent i r) = i"

definition main_program :: "reaction list" where
  "main_program =
     [Log_line [''Observer example: Simple Scalable Dispatcher (std::any).''],
      Subscribe_to Order_placed (\<lambda>event. [Log_line [''  [placed] metrics: orders_total += 1'']]),
      Subscribe_to Order_cancelled (\<lambda>event.
        [Log_line [''  [cancelled] inventory: returning items for order='', show_int (order_of event)]])] @
     fst (place_order ''alice'' 1001) @ cancel_order 1001 ''customer changed mind''"

lemmas run_simps = run_tasks.simps [of "[]"] run_tasks.simps [of "t # ts" for t ts]

lemma observer_main_output:
  "map_option (map_sum id con) (run_program main_program) = Some (Inr
    [''Observer example: Simple Scalable Dispatcher (std::any).'', ''order service: placed order=1001'',
     ''  [placed] metrics: orders_total += 1'', ''order service: cancelling order=1001'',
     ''  [cancelled] inventory: returning items for order=1001''])"
proof -
  have n: "show_int 1001 = ''1001''" by (simp add: show_int_def show_nat.simps digit_char_def) code_simp
  show ?thesis
    by (simp add: run_program_def main_program_def place_order_def cancel_order_def run_simps subscribe_def publish_def
        get_handlers_def new_world_def log_line_def n)
qed

section \<open>Casts never fail\<close>

text \<open>Every value of the map is a vector for the event type of its key.\<close>

definition well_typed :: "dispatcher \<Rightarrow> bool" where
  "well_typed d \<longleftrightarrow> (\<forall>t a. d t = Some a \<longrightarrow> (\<exists>hs. a = Vector_of t hs))"

definition handlers :: "dispatcher \<Rightarrow> event_type \<Rightarrow> handler list" where
  "handlers d t = (case d t of Some (Vector_of u hs) \<Rightarrow> hs | _ \<Rightarrow> [])"

definition touched :: "event_type \<Rightarrow> dispatcher \<Rightarrow> dispatcher" where
  "touched t d = (if d t = None then d(t \<mapsto> Vector_of t []) else d)"

lemma touched_typed: "well_typed d \<Longrightarrow> well_typed (touched t d)"
  by (simp add: touched_def well_typed_def)

lemma handlers_touched [simp]: "handlers (touched t d) = handlers d"
  by (auto simp: touched_def handlers_def fun_eq_iff)

lemma get_handlers_typed: "well_typed d \<Longrightarrow> get_handlers t d = (Some (handlers d t), touched t d)"
  by (cases "d t") (auto simp: get_handlers_def handlers_def touched_def well_typed_def Let_def split: any.splits)

lemma well_typed_update: "well_typed d \<Longrightarrow> well_typed (d(t \<mapsto> Vector_of t hs))"
  by (simp add: well_typed_def)

text \<open>One task: it never throws, and keeps the map well typed.\<close>

lemma perform_typed:
  assumes "well_typed (disp w)"
  shows "perform t w \<noteq> Inl Bad_any_cast \<and> (\<forall>new w'. perform t w = Inr (new, w') \<longrightarrow> well_typed (disp w'))"
  using assms by (cases "(t, w)" rule: perform.cases)
    (auto simp: subscribe_def publish_def get_handlers_typed touched_typed intro!: well_typed_update)

lemma run_tasks_typed:
  assumes "run_tasks ts w = Some r" and "well_typed (disp w)"
  shows "r \<noteq> Inl Bad_any_cast \<and> (\<forall>w'. r = Inr w' \<longrightarrow> well_typed (disp w'))"
proof -
  let ?P = "\<lambda>(ts :: task list) w r. well_typed (disp w) \<longrightarrow>
    r \<noteq> Inl Bad_any_cast \<and> (\<forall>w'. r = Inr w' \<longrightarrow> well_typed (disp w'))"
  have "?P ts w r"
  proof (rule run_tasks.raw_induct [of ?P, OF _ assms(1)])
    fix run ts w r
    assume IH: "\<And>ts w r. run ts w = Some r \<Longrightarrow> ?P ts w r"
      and step: "(case ts of [] \<Rightarrow> Some (Inr w) | t # rest \<Rightarrow> (case perform t w of
        Inl f \<Rightarrow> Some (Inl f) | Inr (new, w') \<Rightarrow> run (new @ rest) w')) = Some r"
    show "?P ts w r"
    proof (cases ts)
      case (Cons t rest)
      show ?thesis
      proof (cases "perform t w")
        case (Inl f)
        with step Cons perform_typed [of w t] show ?thesis by auto
      next
        case (Inr q)
        then obtain new w1 where q: "perform t w = Inr (new, w1)" by (cases q) simp
        with step Cons have "run (new @ rest) w1 = Some r" by simp
        from IH [OF this] have "?P (new @ rest) w1 r" .
        moreover have "well_typed (disp w1)" if "well_typed (disp w)" using perform_typed [OF that, of t] q by blast
        ultimately show ?thesis by blast
      qed
    qed (use step in auto)
  qed
  with assms(2) show ?thesis by simp
qed

section \<open>Publications that go down\<close>

text \<open>
  A handler is orderly for a type when, called with an event of it, it logs and publishes events
  of lower types only. \<open>printed\<close> is what publishing \<open>e\<close> prints, up to \<open>n\<close> levels down.
\<close>

fun goes_down :: "(event_type \<Rightarrow> nat) \<Rightarrow> nat \<Rightarrow> reaction \<Rightarrow> bool" where
  "goes_down level n (Log_line parts) = True"
| "goes_down level n (Publish_now e) = (level (type_index e) < n)"
| "goes_down level n (Subscribe_to t h) = False"

definition orderly :: "(event_type \<Rightarrow> nat) \<Rightarrow> event_type \<Rightarrow> handler \<Rightarrow> bool" where
  "orderly level t h \<longleftrightarrow> (\<forall>e. type_index e = t \<longrightarrow> list_all (goes_down level (level t)) (h e))"

fun printed :: "(event_type \<Rightarrow> handler list) \<Rightarrow> nat \<Rightarrow> event \<Rightarrow> string list"
  and reaction_printed :: "(event_type \<Rightarrow> handler list) \<Rightarrow> nat \<Rightarrow> reaction \<Rightarrow> string list" where
  "printed H 0 e = []"
| "printed H (Suc n) e =
     concat (map (\<lambda>h. concat (map (reaction_printed H n) (h e))) (H (type_index e)))"
| "reaction_printed H n (Log_line parts) = [concat parts]"
| "reaction_printed H n (Publish_now e) = printed H n e"
| "reaction_printed H n (Subscribe_to t h) = []"

text \<open>Running on to another list of tasks and another world, whatever comes after.\<close>

definition runs_to :: "task list \<Rightarrow> world \<Rightarrow> world \<Rightarrow> bool" where
  "runs_to ts w w' \<longleftrightarrow> (\<forall>rest. run_tasks (ts @ rest) w = run_tasks rest w')"

lemma runs_to_Nil [simp]: "runs_to [] w w"
  by (simp add: runs_to_def)

lemma runs_to_append: "runs_to ts w w1 \<Longrightarrow> runs_to us w1 w2 \<Longrightarrow> runs_to (ts @ us) w w2"
  by (simp add: runs_to_def)

lemma runs_to_step: "perform t w = Inr (new, w1) \<Longrightarrow> runs_to new w1 w2 \<Longrightarrow> runs_to [t] w w2"
  by (simp add: runs_to_def run_tasks.simps [of "t # ts" for ts])

text \<open>The worlds a publication may end in: more lines, the same handlers.\<close>

definition prints :: "world \<Rightarrow> string list \<Rightarrow> world \<Rightarrow> bool" where
  "prints w ls w' \<longleftrightarrow> con w' = con w @ ls \<and> iterating w' = iterating w \<and> well_typed (disp w') \<and>
     handlers (disp w') = handlers (disp w)"

lemma prints_append: "prints w ls w1 \<Longrightarrow> prints w1 ls' w2 \<Longrightarrow> prints w (ls @ ls') w2"
  by (simp add: prints_def)

text \<open>If each task of a list prints its lines, the list prints them one after the other.\<close>

lemma runs_to_each:
  assumes "\<And>x w. x \<in> set xs \<Longrightarrow> well_typed (disp w) \<Longrightarrow> handlers (disp w) = H \<Longrightarrow>
      \<exists>w'. runs_to [f x] w w' \<and> prints w (out x) w'"
    and "well_typed (disp w)" and "handlers (disp w) = H"
  shows "\<exists>w'. runs_to (map f xs) w w' \<and> prints w (concat (map out xs)) w'"
  using assms
proof (induction xs arbitrary: w)
  case (Cons x xs)
  from Cons.prems(1) [of x w] Cons.prems(2,3) obtain w1 where 1: "runs_to [f x] w w1" "prints w (out x) w1"
    by auto
  from 1(2) Cons.prems(3) have "well_typed (disp w1)" "handlers (disp w1) = H" by (simp_all add: prints_def)
  moreover have "\<exists>w'. runs_to [f y] w w' \<and> prints w (out y) w'"
    if "y \<in> set xs" "well_typed (disp w)" "handlers (disp w) = H" for y w
    using Cons.prems(1) that by simp
  ultimately obtain w2 where "runs_to (map f xs) w1 w2" "prints w1 (concat (map out xs)) w2"
    using Cons.IH [of w1] by blast
  then have "runs_to ([f x] @ map f xs) w w2" "prints w (out x @ concat (map out xs)) w2"
    using runs_to_append [OF 1(1)] prints_append [OF 1(2)] by blast+
  then show ?case by auto
next
  case Nil
  then have "runs_to [] w w" "prints w [] w" by (simp_all add: prints_def)
  then show ?case by (simp only: list.map concat.simps) blast
qed

lemma publish_runs:
  assumes "\<And>t h. h \<in> set (H t) \<Longrightarrow> orderly level t h" and "level (type_index e) < n"
    and "well_typed (disp w)" and "handlers (disp w) = H"
  shows "\<exists>w'. runs_to [Reaction (Publish_now e)] w w' \<and> prints w (printed H n e) w'"
  using assms(2-)
proof (induction n arbitrary: e w)
  case (Suc n)
  let ?t = "type_index e"
  have reaction: "\<exists>w'. runs_to [Reaction r] w w' \<and> prints w (reaction_printed H n r) w'"
    if "goes_down level (level ?t) r" "well_typed (disp w)" "handlers (disp w) = H" for r w
  proof (cases r)
    case (Log_line parts)
    then have "perform (Reaction r) w = Inr ([], w\<lparr>con := con w @ [concat parts]\<rparr>)" by (simp add: log_line_def)
    from runs_to_step [OF this runs_to_Nil] Log_line that show ?thesis by (auto simp: prints_def)
  next
    case (Publish_now e')
    with that Suc.prems(1) Suc.IH [of e' w] show ?thesis by simp
  qed (use that in simp)
  have call: "\<exists>w'. runs_to [Call h e] w w' \<and> prints w (concat (map (reaction_printed H n) (h e))) w'"
    if h: "h \<in> set (H ?t)" and hw: "well_typed (disp w)" "handlers (disp w) = H" for h w
  proof -
    have "goes_down level (level ?t) r" if "r \<in> set (h e)" for r
      using assms(1) [OF h] that by (auto simp: orderly_def list_all_iff)
    then obtain w' where "runs_to (map Reaction (h e)) w w'" "prints w (concat (map (reaction_printed H n) (h e))) w'"
      using runs_to_each [of "h e" H Reaction "reaction_printed H n" w] reaction hw by blast
    with runs_to_step [of "Call h e" w] show ?thesis by auto
  qed
  let ?w0 = "w\<lparr>disp := touched ?t (disp w), iterating := ?t # iterating w\<rparr>"
  have pub: "perform (Reaction (Publish_now e)) w = Inr (map (\<lambda>h. Call h e) (H ?t) @ [End_of_loop ?t], ?w0)"
    using Suc.prems by (simp add: publish_def get_handlers_typed)
  have "well_typed (disp ?w0)" "handlers (disp ?w0) = H"
    using Suc.prems by (simp_all add: touched_typed)
  from runs_to_each [where f = "\<lambda>h. Call h e" and xs = "H ?t", OF call this] obtain w1 where
    1: "runs_to (map (\<lambda>h. Call h e) (H ?t)) ?w0 w1" "prints ?w0 (printed H (Suc n) e) w1"
    unfolding printed.simps by blast
  let ?w2 = "w1\<lparr>iterating := remove1 ?t (iterating w1)\<rparr>"
  have "runs_to [End_of_loop ?t] w1 ?w2"
    by (rule runs_to_step [OF _ runs_to_Nil]) simp
  from runs_to_step [OF pub runs_to_append [OF 1(1) this]]
  have "runs_to [Reaction (Publish_now e)] w ?w2" .
  moreover have "prints w (printed H (Suc n) e) ?w2"
    using 1(2) Suc.prems by (auto simp: prints_def)
  ultimately show ?case by blast
qed simp

section \<open>The property\<close>

lemma handlers_update: "handlers (d(t \<mapsto> Vector_of t hs)) = (handlers d)(t := hs)"
  by (auto simp: handlers_def)

lemma subscribe_runs:
  assumes "well_typed (disp w)" and "iterating w = []"
  shows "\<exists>w'. runs_to [Reaction (Subscribe_to t h)] w w' \<and> con w' = con w \<and> iterating w' = [] \<and>
    well_typed (disp w') \<and> handlers (disp w') = (handlers (disp w))(t := handlers (disp w) t @ [h])"
proof -
  let ?w = "w\<lparr>disp := (touched t (disp w))(t \<mapsto> Vector_of t (handlers (disp w) t @ [h]))\<rparr>"
  have "perform (Reaction (Subscribe_to t h)) w = Inr ([], ?w)"
    using assms by (simp add: subscribe_def get_handlers_typed)
  from runs_to_step [OF this runs_to_Nil] show ?thesis
    using assms touched_typed [OF assms(1), of t]
    by (intro exI [of _ ?w]) (simp add: handlers_update well_typed_update)
qed

text \<open>The handlers of a list of subscriptions.\<close>

definition subscribed :: "(event_type \<times> handler) list \<Rightarrow> event_type \<Rightarrow> handler list" where
  "subscribed subs t = map snd (filter (\<lambda>(u, h). u = t) subs)"

lemma subscriptions_run:
  assumes "well_typed (disp w)" and "iterating w = []"
  shows "\<exists>w'. runs_to (map (\<lambda>(t, h). Reaction (Subscribe_to t h)) subs) w w' \<and> con w' = con w \<and> iterating w' = [] \<and>
    well_typed (disp w') \<and> handlers (disp w') = (\<lambda>t. handlers (disp w) t @ subscribed subs t)"
  using assms
proof (induction subs arbitrary: w)
  case Nil
  then show ?case by (intro exI [of _ w]) (simp add: subscribed_def)
next
  case (Cons s subs)
  obtain t h where s: "s = (t, h)" by (cases s)
  from subscribe_runs [OF Cons.prems, of t h] obtain w1 where 1: "runs_to [Reaction (Subscribe_to t h)] w w1"
    "con w1 = con w" "iterating w1 = []" "well_typed (disp w1)"
    "handlers (disp w1) = (handlers (disp w))(t := handlers (disp w) t @ [h])" by blast
  from Cons.IH [OF 1(4,3)] obtain w2 where 2: "runs_to (map (\<lambda>(t, h). Reaction (Subscribe_to t h)) subs) w1 w2"
    "con w2 = con w1" "iterating w2 = []" "well_typed (disp w2)"
    "handlers (disp w2) = (\<lambda>t. handlers (disp w1) t @ subscribed subs t)" by blast
  have "handlers (disp w2) = (\<lambda>u. handlers (disp w) u @ subscribed (s # subs) u)"
    by (auto simp: 1(5) 2(5) subscribed_def s)
  with runs_to_append [OF 1(1) 2(1)] 1(2) 2 show ?case by (intro exI [of _ w2]) (simp add: s)
qed

text \<open>C15. Whatever a program subscribes and publishes, and whatever its handlers do, no \<^verbatim>\<open>any_cast\<close>
  of the dispatcher throws. And if the handlers that are subscribed only log and publish events
  of lower types, every publication ends, subscribes no one and leaves no loop open, and prints
  what the handlers of the type of its event print, in the order of subscription, with what
  nested publications print at their place.\<close>

theorem dispatcher_sound:
  assumes "\<forall>(t, h)\<in>set subs. orderly level t h" and "\<forall>e\<in>set es. level (type_index e) < n"
  shows "run_program prog \<noteq> Some (Inl Bad_any_cast) \<and>
    (\<exists>w. run_program (map (\<lambda>(t, h). Subscribe_to t h) subs @ map Publish_now es) = Some (Inr w) \<and>
      iterating w = [] \<and> con w = concat (map (printed (subscribed subs) n) es))"
proof
  have typed: "well_typed (disp new_world)" by (simp add: new_world_def well_typed_def)
  show "run_program prog \<noteq> Some (Inl Bad_any_cast)"
    using run_tasks_typed [OF _ typed] unfolding run_program_def by blast
  have [simp]: "handlers (disp new_world) t = []" for t by (simp add: handlers_def new_world_def)
  have "iterating new_world = []" "con new_world = []" by (simp_all add: new_world_def)
  note new = this
  from subscriptions_run [OF typed new(1), of subs] obtain w1 where
    1: "runs_to (map (\<lambda>(t, h). Reaction (Subscribe_to t h)) subs) new_world w1" "con w1 = []" "iterating w1 = []"
      "well_typed (disp w1)" "handlers (disp w1) = subscribed subs"
    by (auto simp: new(2))
  have "orderly level t h" if "h \<in> set (subscribed subs t)" for t h
    using assms(1) that by (auto simp: subscribed_def)
  from publish_runs [of "subscribed subs", OF this] assms(2)
  have "\<exists>w'. runs_to [Reaction (Publish_now e)] w w' \<and> prints w (printed (subscribed subs) n e) w'"
    if "e \<in> set es" "well_typed (disp w)" "handlers (disp w) = subscribed subs" for e w
    using that by blast
  from runs_to_each [where f = "\<lambda>e. Reaction (Publish_now e)", OF this 1(4,5)] obtain w2 where
    2: "runs_to (map (\<lambda>e. Reaction (Publish_now e)) es) w1 w2" "prints w1 (concat (map (printed (subscribed subs) n) es)) w2"
    by blast
  have "map Reaction (map (\<lambda>(t, h). Subscribe_to t h) subs @ map Publish_now es) =
      map (\<lambda>(t, h). Reaction (Subscribe_to t h)) subs @ map (\<lambda>e. Reaction (Publish_now e)) es"
    by auto
  with runs_to_append [OF 1(1) 2(1)] have
    "run_program (map (\<lambda>(t, h). Subscribe_to t h) subs @ map Publish_now es) = run_tasks [] w2"
    unfolding runs_to_def run_program_def by (metis append_Nil2)
  with 1 2(2) show "\<exists>w. run_program (map (\<lambda>(t, h). Subscribe_to t h) subs @ map Publish_now es) = Some (Inr w) \<and>
      iterating w = [] \<and> con w = concat (map (printed (subscribed subs) n) es)"
    by (intro exI [of _ w2]) (simp add: run_tasks.simps [of "[]"] prints_def)
qed

text \<open>A handler that cancels each order it sees: the cancellation is delivered inside, before the
  second handler is called.\<close>

definition nested_subs :: "(event_type \<times> handler) list" where
  "nested_subs =
     [(Order_placed, \<lambda>e. [Log_line [''audit''], Publish_now (OrderCancelledEvent (order_of e) ''fraud'')]),
      (Order_placed, \<lambda>e. [Log_line [''metrics'']]),
      (Order_cancelled, \<lambda>e. [Log_line [''inventory'']])]"

theorem dispatcher_sound_witness:
  "\<exists>w. run_program (map (\<lambda>(t, h). Subscribe_to t h) nested_subs @ map Publish_now [OrderPlacedEvent 1 ''bob'']) = Some (Inr w) \<and>
     con w = [''audit'', ''inventory'', ''metrics'']"
proof -
  let ?level = "\<lambda>t. if t = Order_placed then 1 else 0 :: nat"
  have "\<forall>(t, h)\<in>set nested_subs. orderly ?level t h" by (simp add: nested_subs_def orderly_def)
  from dispatcher_sound [OF this, of "[OrderPlacedEvent 1 ''bob'']" 2]
  obtain w where "run_program (map (\<lambda>(t, h). Subscribe_to t h) nested_subs @ map Publish_now [OrderPlacedEvent 1 ''bob'']) = Some (Inr w)"
    "con w = concat (map (printed (subscribed nested_subs) 2) [OrderPlacedEvent 1 ''bob''])" by auto
  moreover have "concat (map (printed (subscribed nested_subs) 2) [OrderPlacedEvent 1 ''bob'']) = [''audit'', ''inventory'', ''metrics'']"
    by (simp add: numeral_2_eq_2 subscribed_def nested_subs_def)
  ultimately show ?thesis by auto
qed

text \<open>What the code does not protect from: a handler that subscribes to the type it is called for
  makes the loop use an invalid iterator.\<close>

lemma subscribe_while_published:
  "run_program [Subscribe_to Order_placed (\<lambda>e. [Subscribe_to Order_placed (\<lambda>e. [])]), Publish_now (OrderPlacedEvent 1 c)] =
   Some (Inl Invalid_iterator)"
  by (simp add: run_program_def run_simps subscribe_def publish_def get_handlers_def new_world_def)

end
