(* ===== verification/Adapter.thy ===== *)
theory Adapter
  imports Prelude
begin

text \<open>
  The pager adapter of \<^verbatim>\<open>examples/adapter/main.cpp\<close>: the severities, ordered as the code lists
  them, the legacy pager, the adapter's two translations and \<open>emit_disk_alert\<close>. The
  \<^verbatim>\<open>return 1\<close> after the switch is reached by no severity.

  Proved: priorities keep the order of the severities, a destination determines its service,
  and an alert of the disk monitor is a page of priority 5 exactly below five gigabytes.
\<close>

datatype severity = KInfo | KWarning | KCritical

fun rank :: "severity \<Rightarrow> nat" where
  "rank KInfo = 0"
| "rank KWarning = 1"
| "rank KCritical = 2"

instantiation severity :: linorder
begin

definition less_eq_severity :: "severity \<Rightarrow> severity \<Rightarrow> bool" where
  "less_eq_severity a b \<longleftrightarrow> rank a \<le> rank b"

definition less_severity :: "severity \<Rightarrow> severity \<Rightarrow> bool" where
  "less_severity a b \<longleftrightarrow> rank a < rank b"

instance
proof
  fix a b :: severity
  show "a \<le> b \<Longrightarrow> b \<le> a \<Longrightarrow> a = b"
    by (cases a; cases b) (simp_all add: less_eq_severity_def)
qed (auto simp: less_eq_severity_def less_severity_def)

end

definition dispatch_page :: "string \<Rightarrow> int \<Rightarrow> string \<Rightarrow> console \<Rightarrow> console" where
  "dispatch_page destination priority body =
     log_line [''legacy pager => dest='', destination, '' priority='', show_int priority, '' body='', body]"

definition route_for :: "string \<Rightarrow> string" where
  "route_for service = ''oncall/'' @ service"

fun priority_for :: "severity \<Rightarrow> int" where
  "priority_for KInfo = 1"
| "priority_for KWarning = 3"
| "priority_for KCritical = 5"

definition send_alert :: "string \<Rightarrow> severity \<Rightarrow> string \<Rightarrow> console \<Rightarrow> console" where
  "send_alert service s message = dispatch_page (route_for service) (priority_for s) message"

text \<open>The sink is any \<^verbatim>\<open>AlertSink\<close>, here its \<open>send_alert\<close>.\<close>

definition emit_disk_alert :: "(string \<Rightarrow> severity \<Rightarrow> string \<Rightarrow> 's \<Rightarrow> 's) \<Rightarrow> int \<Rightarrow> 's \<Rightarrow> 's" where
  "emit_disk_alert sink free_gb = (let s = (if free_gb < 5 then KCritical else KWarning)
     in sink ''storage'' s (''disk space low: '' @ show_int free_gb @ ''GB''))"

definition main_out :: console where
  "main_out = emit_disk_alert send_alert 3 (emit_disk_alert send_alert 12
     (log_line [''Adapter example: normalize a legacy client.''] []))"

section \<open>The translation\<close>

lemma priority_mono: "priority_for a \<le> priority_for b \<longleftrightarrow> a \<le> b"
  by (cases a; cases b) (simp_all add: less_eq_severity_def)

lemma priority_strict_mono: "priority_for a < priority_for b \<longleftrightarrow> a < b"
  by (cases a; cases b) (simp_all add: less_severity_def)

lemma priority_inject [simp]: "priority_for a = priority_for b \<longleftrightarrow> a = b"
  by (cases a; cases b) simp_all

lemma route_inject [simp]: "route_for s = route_for t \<longleftrightarrow> s = t"
  by (simp add: route_for_def)

lemma max_severity_priority: "priority_for (max a b) = max (priority_for a) (priority_for b)"
  by (simp add: max_def priority_mono)

lemma disk_alert_page:
  "emit_disk_alert send_alert gb con = con @ [''legacy pager => dest=oncall/storage priority='' @
     (if gb < 5 then ''5'' else ''3'') @ '' body=disk space low: '' @ show_int gb @ ''GB'']"
proof -
  have "show_int 5 = ''5''" "show_int 3 = ''3''" by code_simp+
  then show ?thesis
    by (simp add: emit_disk_alert_def send_alert_def dispatch_page_def route_for_def log_line_def Let_def)
qed

lemma adapter_main_output:
  "main_out = [''Adapter example: normalize a legacy client.'',
     ''legacy pager => dest=oncall/storage priority=3 body=disk space low: 12GB'',
     ''legacy pager => dest=oncall/storage priority=5 body=disk space low: 3GB'']"
  by code_simp

end
