(* ===== verification/Decorator.thy ===== *)
theory Decorator
  imports Prelude
begin

text \<open>
  The request handlers of \<^verbatim>\<open>examples/decorator/main.cpp\<close>. A handler is its \<open>handle\<close>, a function
  of the request and the console, which may throw; a decorator is a function of the handler it
  owns. The time a \<^verbatim>\<open>TimingDecorator\<close> measures is a parameter. The only handler that ends a
  chain in the program, \<^verbatim>\<open>EchoHandler\<close>, does not throw; an exception that reaches \<^verbatim>\<open>main\<close> would
  end the program.

  Proved: the contract of a handler, an answer that depends on the request only and a console
  that only grows, is kept by both decorators, and a stack of any decorators over any handler
  is that handler between the lines its layers print.
\<close>

type_synonym handler = "string \<Rightarrow> console \<Rightarrow> (cpp_exn + string) \<times> console"

definition echo_handler :: handler where
  "echo_handler request con = (Inr (''200 OK: '' @ request), con)"

definition logging_decorator :: "handler \<Rightarrow> handler" where
  "logging_decorator inner request con = (
     case inner request (log_line [''logging: request='', request] con) of
       (Inl x, con') \<Rightarrow> (Inl x, con')
     | (Inr response, con') \<Rightarrow> (Inr response, log_line [''logging: response='', response] con'))"

definition timing_decorator :: "int \<Rightarrow> handler \<Rightarrow> handler" where
  "timing_decorator elapsed_us inner request con = (case inner request con of
       (Inl x, con') \<Rightarrow> (Inl x, con')
     | (Inr response, con') \<Rightarrow> (Inr response, log_line [''timing: took '', show_int elapsed_us, ''us''] con'))"

definition main_out :: "int \<Rightarrow> console" where
  "main_out elapsed_us = (
     case timing_decorator elapsed_us (logging_decorator echo_handler) ''GET /users/42''
       (log_line [''Decorator example: stack logging and timing around a handler.''] []) of
       (Inl x, con) \<Rightarrow> con
     | (Inr response, con) \<Rightarrow> log_line [''final response='', response] con)"

section \<open>The contract of a handler\<close>

locale request_handler =
  fixes handle :: handler and answer :: "string \<Rightarrow> cpp_exn + string"
  assumes answers: "fst (handle request con) = answer request"
    and only_appends: "\<exists>ls. snd (handle request con) = con @ ls"
begin

lemma handle_shape:
  obtains ls where "handle request con = (answer request, con @ ls)"
  using answers [of request con] only_appends [of request con] by (metis prod.collapse)

lemma logging_handler: "request_handler (logging_decorator handle) answer"
proof unfold_locales
  fix request con
  obtain ls where h: "handle request (log_line [''logging: request='', request] con) =
      (answer request, log_line [''logging: request='', request] con @ ls)"
    by (rule handle_shape)
  show "fst (logging_decorator handle request con) = answer request"
    by (cases "answer request") (simp_all add: logging_decorator_def h)
  show "\<exists>ls. snd (logging_decorator handle request con) = con @ ls"
    by (cases "answer request") (simp_all add: logging_decorator_def h, simp_all add: log_line_def)
qed

lemma timing_handler: "request_handler (timing_decorator t handle) answer"
proof unfold_locales
  fix request con
  obtain ls where h: "handle request con = (answer request, con @ ls)"
    by (rule handle_shape)
  show "fst (timing_decorator t handle request con) = answer request"
    by (cases "answer request") (simp_all add: timing_decorator_def h)
  show "\<exists>ls. snd (timing_decorator t handle request con) = con @ ls"
    by (cases "answer request") (simp_all add: timing_decorator_def h log_line_def)
qed

end

interpretation echo: request_handler echo_handler "\<lambda>request. Inr (''200 OK: '' @ request)"
  by unfold_locales (simp_all add: echo_handler_def)

section \<open>Stacks of decorators\<close>

text \<open>A stack of decorators, outermost first: \<open>None\<close> for logging, \<open>Some t\<close> for timing.\<close>

fun stack :: "int option list \<Rightarrow> handler \<Rightarrow> handler" where
  "stack [] h = h"
| "stack (None # ds) h = logging_decorator (stack ds h)"
| "stack (Some t # ds) h = timing_decorator t (stack ds h)"

lemma stack_handler: "request_handler h answer \<Longrightarrow> request_handler (stack ds h) answer"
  by (induction ds h rule: stack.induct)
    (simp_all add: request_handler.logging_handler request_handler.timing_handler)

lemma stack_transparent: "fst (stack ds echo_handler request con) = Inr (''200 OK: '' @ request)"
  by (rule request_handler.answers [OF stack_handler [OF echo.request_handler_axioms]])

text \<open>What the layers print before the handler inside is called, and after it has returned.\<close>

fun entering :: "string \<Rightarrow> int option list \<Rightarrow> console" where
  "entering request [] = []"
| "entering request (None # ds) = concat [''logging: request='', request] # entering request ds"
| "entering request (Some t # ds) = entering request ds"

fun leaving :: "string \<Rightarrow> int option list \<Rightarrow> console" where
  "leaving response [] = []"
| "leaving response (None # ds) = leaving response ds @ [concat [''logging: response='', response]]"
| "leaving response (Some t # ds) = leaving response ds @ [concat [''timing: took '', show_int t, ''us'']]"

text \<open>C38. A stack of decorators of any height over any handler is transparent: it calls the
  handler inside once, with the same request, and returns its response or throws its
  exception. The layers print their requests from the outside in before the call; after it
  they print their responses and times from the inside out, and nothing when it throws.\<close>

theorem decorators_transparent:
  "stack ds h request con = (case h request (con @ entering request ds) of
     (Inl x, con') \<Rightarrow> (Inl x, con')
   | (Inr response, con') \<Rightarrow> (Inr response, con' @ leaving response ds))"
proof (induction ds h arbitrary: con rule: stack.induct)
  case (1 h)
  show ?case by (simp split: prod.split sum.split)
next
  case (2 ds h)
  show ?case
    unfolding stack.simps logging_decorator_def "2.IH" log_line_def
    by (simp del: concat.simps split: prod.split sum.split)
next
  case (3 t ds h)
  show ?case
    unfolding stack.simps timing_decorator_def "3.IH" log_line_def
    by (simp del: concat.simps split: prod.split sum.split)
qed

lemma decorator_main_output:
  "main_out 7 = [''Decorator example: stack logging and timing around a handler.'',
     ''logging: request=GET /users/42'', ''logging: response=200 OK: GET /users/42'', ''timing: took 7us'',
     ''final response=200 OK: GET /users/42'']"
  by code_simp

end
