(* ===== verification/TypeErasure.thy ===== *)
theory TypeErasure
  imports Prelude
begin

text \<open>
  The middleware pipeline of \<^verbatim>\<open>examples/type_erasure/main.cpp\<close>: a middleware, whatever type it
  had, is a function on the request context and the console, and a pipeline is the list of
  them in the order of \<open>add\<close>.

  Proved: running is composing in the order of \<open>add\<close>, and the example's middlewares leave the
  user and the trace id alone whatever else is in the pipeline.
\<close>

record request_context =
  route :: string
  user :: string
  authenticated :: bool
  trace_id :: int

type_synonym middleware = "request_context \<times> console \<Rightarrow> request_context \<times> console"

definition require_authentication :: middleware where
  "require_authentication cc = (let ctx = (fst cc)\<lparr>authenticated := True\<rparr>
     in (ctx, log_line [''auth middleware: user='', user ctx, '' authenticated''] (snd cc)))"

definition route_metrics_tagger :: middleware where
  "route_metrics_tagger cc = (let ctx = (fst cc)\<lparr>route := route (fst cc) @ '' [metrics-tagged]''\<rparr>
     in (ctx, log_line [''metrics middleware: route='', route ctx] (snd cc)))"

definition trace_logger :: middleware where
  "trace_logger cc = (fst cc, log_line [''trace middleware: trace_id='', show_int (trace_id (fst cc))] (snd cc))"

definition add_middleware :: "middleware \<Rightarrow> middleware list \<Rightarrow> middleware list" where
  "add_middleware m chain = chain @ [m]"

definition run_pipeline :: "middleware list \<Rightarrow> middleware" where
  "run_pipeline chain cc = fold (\<lambda>m cc. m cc) chain cc"

definition main_pipeline :: "middleware list" where
  "main_pipeline = add_middleware route_metrics_tagger (add_middleware require_authentication
     (add_middleware trace_logger []))"

definition main_context :: request_context where
  "main_context = \<lparr>route = ''/users/42'', user = ''alice'', authenticated = False, trace_id = 7\<rparr>"

definition main_out :: console where
  "main_out = (let
     (ctx, con) = run_pipeline main_pipeline
       (main_context, log_line [''Type erasure example: store heterogeneous middleware in one pipeline.''] [])
   in log_line [''final context: route='', route ctx, '' user='', user ctx,
        '' authenticated='', show_bool (authenticated ctx)] con)"

section \<open>Running a pipeline\<close>

lemma run_add: "run_pipeline (add_middleware m chain) cc = m (run_pipeline chain cc)"
  by (simp add: run_pipeline_def add_middleware_def)

lemma run_append: "run_pipeline (a @ b) cc = run_pipeline b (run_pipeline a cc)"
  by (simp add: run_pipeline_def)

text \<open>What every middleware of a pipeline keeps, the pipeline keeps.\<close>

lemma run_keeps:
  "\<forall>m\<in>set chain. \<forall>cc. f (fst (m cc)) = f (fst cc) \<Longrightarrow> f (fst (run_pipeline chain cc)) = f (fst cc)"
  by (induction chain arbitrary: cc) (simp_all add: run_pipeline_def del: split_paired_All)

lemmas middleware_defs = require_authentication_def route_metrics_tagger_def trace_logger_def

lemma pipeline_keeps_user:
  "set chain \<subseteq> {require_authentication, route_metrics_tagger, trace_logger} \<Longrightarrow>
   user (fst (run_pipeline chain cc)) = user (fst cc) \<and> trace_id (fst (run_pipeline chain cc)) = trace_id (fst cc)"
  by (intro conjI run_keeps) (auto simp: middleware_defs Let_def)

text \<open>A context is authenticated after a pipeline of these when it was before or the pipeline asks
  for it.\<close>

lemma pipeline_authenticates:
  "set chain \<subseteq> {route_metrics_tagger, trace_logger} \<Longrightarrow>
   authenticated (fst (run_pipeline (a @ require_authentication # chain) cc))"
proof -
  assume "set chain \<subseteq> {route_metrics_tagger, trace_logger}"
  then have "authenticated (fst (run_pipeline chain x)) = authenticated (fst x)" for x
    by (intro run_keeps) (auto simp: middleware_defs Let_def)
  then show ?thesis
    by (simp add: run_append run_pipeline_def require_authentication_def Let_def)
qed

lemma type_erasure_main_output:
  "main_out = [''Type erasure example: store heterogeneous middleware in one pipeline.'',
     ''trace middleware: trace_id=7'', ''auth middleware: user=alice authenticated'',
     ''metrics middleware: route=/users/42 [metrics-tagged]'',
     ''final context: route=/users/42 [metrics-tagged] user=alice authenticated=1'']"
  by code_simp

end
