(* ===== verification/FactoryMethod.thy ===== *)
theory FactoryMethod
  imports Prelude
begin

text \<open>
  The import job of \<^verbatim>\<open>examples/factory_method/main.cpp\<close>: the two clients, the two jobs that
  create them, and the workflow of the base class, which is the same for both.
\<close>

datatype client = HttpUserDirectoryClient | StubUserDirectoryClient

fun fetch_users :: "client \<Rightarrow> string list" where
  "fetch_users HttpUserDirectoryClient = [''Ada'', ''Grace'', ''Linus'']"
| "fetch_users StubUserDirectoryClient = [''TestUser1'', ''TestUser2'']"

datatype import_job = ProductionUserImportJob | TestUserImportJob

fun create_client :: "import_job \<Rightarrow> client" where
  "create_client ProductionUserImportJob = HttpUserDirectoryClient"
| "create_client TestUserImportJob = StubUserDirectoryClient"

definition run_job :: "import_job \<Rightarrow> console \<Rightarrow> console" where
  "run_job job con = (let users = fetch_users (create_client job)
     in foldl (\<lambda>con u. log_line [''user='', u] con)
       (log_line [''imported '', show_nat (length users), '' users''] con) users)"

definition main_out :: console where
  "main_out = run_job TestUserImportJob (log_line [''test run:''] (run_job ProductionUserImportJob
     (log_line [''production run:''] (log_line [''Factory Method example: pluggable client creation.''] []))))"

text \<open>The workflow prints the number of users and then each of them, whoever the client is.\<close>

lemma run_job_lines:
  "run_job job con = con @ (''imported '' @ show_nat (length (fetch_users (create_client job))) @ '' users'') #
     map (\<lambda>u. ''user='' @ u) (fetch_users (create_client job))"
  by (simp add: run_job_def Let_def foldl_log_line_map [of "\<lambda>u. [''user='', u]"]) (simp add: log_line_def)

lemma factory_method_main_output:
  "main_out = [''Factory Method example: pluggable client creation.'', ''production run:'', ''imported 3 users'',
     ''user=Ada'', ''user=Grace'', ''user=Linus'', ''test run:'', ''imported 2 users'', ''user=TestUser1'',
     ''user=TestUser2'']"
  by code_simp

end
