(* ===== verification/Pimpl.thy ===== *)
theory Pimpl
  imports Prelude Ownership
begin

text \<open>
  The database service of \<^verbatim>\<open>examples/pimpl/\<close> (\<^verbatim>\<open>database_service.h\<close>, \<^verbatim>\<open>database_service.cpp\<close> and
  \<^verbatim>\<open>main.cpp\<close>). A service is the implementation its \<^verbatim>\<open>unique_ptr\<close> owns, \<open>None\<close> after a move; a
  call on a service that has been moved from dereferences a null pointer, which is undefined,
  so its result is \<open>None\<close>.

  Proved: the results are those of the queries, in order, through any moves of the service, and
  every implementation that was made is closed exactly once.
\<close>

record impl =
  connection_string :: string
  results_cache :: "string list"

type_synonym service = "impl option"

definition Impl_new :: "string \<Rightarrow> console \<Rightarrow> impl \<times> console" where
  "Impl_new cs con = (\<lparr>connection_string = cs, results_cache = []\<rparr>,
     log_line [''Impl: connecting to database: '', cs] con)"

definition Impl_destroy :: "console \<Rightarrow> console" where
  "Impl_destroy = log_line [''Impl: closing database connection'']"

definition impl_execute :: "string \<Rightarrow> impl \<times> console \<Rightarrow> impl \<times> console" where
  "impl_execute query ic = ((fst ic)\<lparr>results_cache := results_cache (fst ic) @ [''result for: '' @ query]\<rparr>,
     log_line [''Impl: executing query: '', query] (snd ic))"

definition impl_fetch :: "impl \<Rightarrow> string list" where
  "impl_fetch i = results_cache i"

definition DatabaseService_new :: "string \<Rightarrow> console \<Rightarrow> service \<times> console" where
  "DatabaseService_new cs con = (let (i, con') = Impl_new cs con in (Some i, con'))"

definition DatabaseService_destroy :: "service \<Rightarrow> console \<Rightarrow> console" where
  "DatabaseService_destroy s con = (if s = None then con else Impl_destroy con)"

text \<open>The moves return the target and the source.\<close>

definition DatabaseService_move :: "service \<Rightarrow> service \<times> service" where
  "DatabaseService_move other = (other, None)"

definition DatabaseService_move_assign :: "service \<Rightarrow> service \<Rightarrow> console \<Rightarrow> (service \<times> service) \<times> console" where
  "DatabaseService_move_assign target other con = ((other, None), DatabaseService_destroy target con)"

definition DatabaseService_self_assign :: "service \<Rightarrow> console \<Rightarrow> service \<times> console" where
  "DatabaseService_self_assign s con = (s, con)"

definition DatabaseService_class :: "(service, console) move_only" where
  "DatabaseService_class = \<lparr>moved_from = None, move_construct = DatabaseService_move,
     move_assign = DatabaseService_move_assign, self_assign = DatabaseService_self_assign,
     destroy = DatabaseService_destroy\<rparr>"

definition execute_query :: "string \<Rightarrow> service \<times> console \<Rightarrow> (service \<times> console) option" where
  "execute_query query sc = (case fst sc of
     None \<Rightarrow> None
   | Some i \<Rightarrow> (let (i', con) = impl_execute query (i, snd sc) in Some (Some i', con)))"

definition fetch_results :: "service \<Rightarrow> string list option" where
  "fetch_results s = map_option impl_fetch s"

fun execute_queries :: "string list \<Rightarrow> service \<times> console \<Rightarrow> (service \<times> console) option" where
  "execute_queries [] sc = Some sc"
| "execute_queries (q # qs) sc = Option.bind (execute_query q sc) (execute_queries qs)"

definition main_out :: "console option" where
  "main_out = Option.bind (execute_queries [''SELECT * FROM users'', ''SELECT COUNT(*) FROM orders'']
       (DatabaseService_new ''postgresql://localhost:5432/mydb''
         (log_line [''Pimpl example: hiding implementation details.''] []))) (\<lambda>(s, con).
     Option.bind (fetch_results s) (\<lambda>results.
     Some (DatabaseService_destroy s
       (log_line [''Note: changing Impl'', [CHR 0x27], ''s internals doesn'', [CHR 0x27], ''t require recompiling this main.cpp.'']
       (fold (\<lambda>r. log_line [''  result: '', r]) results con)))))"

section \<open>Results\<close>

lemma execute_queries_results:
  "\<exists>i' con'. execute_queries qs (Some i, con) = Some (Some i', con') \<and>
     results_cache i' = results_cache i @ map (\<lambda>q. ''result for: '' @ q) qs"
proof (induction qs arbitrary: i con)
  case (Cons q qs)
  let ?i = "i\<lparr>results_cache := results_cache i @ [''result for: '' @ q]\<rparr>"
  show ?case
    using Cons.IH [of ?i "log_line [''Impl: executing query: '', q] con"]
    by (auto simp: execute_query_def impl_execute_def Let_def)
qed simp

lemma service_results:
  "Option.bind (execute_queries qs (DatabaseService_new cs con)) (\<lambda>(s, con'). fetch_results s) =
   Some (map (\<lambda>q. ''result for: '' @ q) qs)"
  using execute_queries_results [of qs "\<lparr>connection_string = cs, results_cache = []\<rparr>"
      "log_line [''Impl: connecting to database: '', cs] con"]
  by (auto simp: DatabaseService_new_def Impl_new_def fetch_results_def impl_fetch_def)

text \<open>A move keeps the results and the connection, and the source can only be destroyed.\<close>

lemma moved_service:
  "DatabaseService_move s = (t, src) \<Longrightarrow> fetch_results t = fetch_results s \<and> fetch_results src = None \<and>
     execute_query q (src, con) = None \<and> DatabaseService_destroy src con = con"
  by (auto simp: DatabaseService_move_def fetch_results_def execute_query_def DatabaseService_destroy_def)

section \<open>Connections made and closed\<close>

text \<open>What a service holds is one open connection; the connections closed are the lines that say
  so.\<close>

definition service_held :: "service \<Rightarrow> unit list" where
  "service_held s = (if s = None then [] else [()])"

definition closings :: "console \<Rightarrow> unit list" where
  "closings con = map (\<lambda>_. ()) (filter (\<lambda>l. l = ''Impl: closing database connection'') con)"

interpretation services: exclusive_owner DatabaseService_class service_held closings
  by unfold_locales (simp_all add: DatabaseService_class_def service_held_def closings_def DatabaseService_move_def
      DatabaseService_move_assign_def DatabaseService_self_assign_def DatabaseService_destroy_def Impl_destroy_def
      log_line_def)

text \<open>Variables of type \<^verbatim>\<open>DatabaseService\<close> under constructions, queries and the operations of
  \<open>Ownership\<close>; a query through a variable that does not exist or has been moved from is
  undefined.\<close>

datatype service_op = Construct string | Query nat string | Own owner_op

fun service_step :: "service_op \<Rightarrow> service list \<times> console \<Rightarrow> (service list \<times> console) option" where
  "service_step (Construct cs) (vs, con) = (let (s, con') = DatabaseService_new cs con in Some (vs @ [s], con'))"
| "service_step (Query i q) (vs, con) =
     (if i < length vs then map_option (\<lambda>(s, con'). (vs[i := s], con')) (execute_query q (vs ! i, con)) else None)"
| "service_step (Own op) vc = Some (owner_step DatabaseService_class op vc)"

fun service_run :: "service_op list \<Rightarrow> service list \<times> console \<Rightarrow> (service list \<times> console) option" where
  "service_run [] vc = Some vc"
| "service_run (op # ops) vc = Option.bind (service_step op vc) (service_run ops)"

definition connects :: "service_op list \<Rightarrow> nat" where
  "connects ops = length (filter (\<lambda>op. case op of Construct _ \<Rightarrow> True | _ \<Rightarrow> False) ops)"

lemma service_step_resources:
  assumes "service_step op vc = Some vc'"
  shows "size (resources service_held closings vc') = size (resources service_held closings vc) + connects [op]"
proof (cases op; cases vc)
  fix cs vs con assume "op = Construct cs" "vc = (vs, con)"
  with assms show ?thesis
    by (auto simp: resources_def connects_def DatabaseService_new_def Impl_new_def service_held_def closings_def
        log_line_def)
next
  fix i q vs con assume [simp]: "op = Query i q" "vc = (vs, con)"
  from assms obtain im where i: "i < length vs" "vs ! i = Some im"
    by (auto simp: execute_query_def split: if_splits option.splits)
  have "mset (concat (map service_held (vs[i := Some j]))) + mset [()] = mset (concat (map service_held vs)) + mset [()]" for j
    using mset_concat_update [OF i(1), of service_held "Some j"] i(2) by (simp add: service_held_def)
  then have "length (concat (map service_held (vs[i := Some j]))) = length (concat (map service_held vs))" for j
    by (metis add_right_imp_eq size_mset)
  with assms i show ?thesis
    by (auto simp: resources_def connects_def execute_query_def impl_execute_def closings_def log_line_def)
next
  fix oop vs con assume "op = Own oop" "vc = (vs, con)"
  with assms show ?thesis by (auto simp: services.step_conserves connects_def)
qed

lemma service_run_resources:
  "service_run ops vc = Some vc' \<Longrightarrow>
   size (resources service_held closings vc') = size (resources service_held closings vc) + connects ops"
proof (induction ops arbitrary: vc)
  case (Cons op ops)
  then obtain vc1 where 1: "service_step op vc = Some vc1" "service_run ops vc1 = Some vc'"
    by (auto simp: Option.bind_eq_Some_conv)
  have "connects (op # ops) = connects [op] + connects ops" by (simp add: connects_def)
  with Cons.IH [OF 1(2)] service_step_resources [OF 1(1)] show ?case by simp
qed (simp add: connects_def)

text \<open>Every implementation that was made is closed exactly once, whatever was moved where.\<close>

lemma services_closed_once:
  assumes "service_run ops ([], []) = Some vc"
  shows "length (closings (destroy_all DatabaseService_class vc)) = connects ops"
proof -
  have "length (closings (destroy_all DatabaseService_class vc)) = size (resources service_held closings vc)"
    using services.end_total [of vc] by (metis size_mset)
  with service_run_resources [OF assms] show ?thesis by (simp add: resources_def closings_def)
qed

section \<open>The promise of a service\<close>

text \<open>
  What a user of the class sees: the results of each service, \<open>None\<close> after it has been moved
  from or destroyed. The implementation and its console do not appear.
\<close>

fun results_step :: "service_op \<Rightarrow> string list option list \<Rightarrow> string list option list option" where
  "results_step (Construct cs) rs = Some (rs @ [Some []])"
| "results_step (Query i q) rs =
     (if i < length rs then map_option (\<lambda>r. rs[i := Some (r @ [''result for: '' @ q])]) (rs ! i) else None)"
| "results_step (Own (Move_new i)) rs = Some (if i < length rs then rs[i := None] @ [rs ! i] else rs)"
| "results_step (Own (Move_to i j)) rs =
     Some (if i < length rs \<and> j < length rs \<and> i \<noteq> j then rs[i := rs ! j, j := None] else rs)"
| "results_step (Own (Destroy i)) rs = Some (rs[i := None])"

fun results_run :: "service_op list \<Rightarrow> string list option list \<Rightarrow> string list option list option" where
  "results_run [] rs = Some rs"
| "results_run (op # ops) rs = Option.bind (results_step op rs) (results_run ops)"

abbreviation seen :: "service list \<times> console \<Rightarrow> string list option list" where
  "seen vc \<equiv> map fetch_results (fst vc)"

lemma fetch_results_simps [simp]: "fetch_results None = None" "fetch_results (Some i) = Some (results_cache i)"
  by (simp_all add: fetch_results_def impl_fetch_def)

lemma service_step_refines: "map_option seen (service_step op vc) = results_step op (seen vc)"
proof (cases vc)
  case (Pair vs con)
  show ?thesis
  proof (cases op)
    case (Construct cs)
    with Pair show ?thesis by (simp add: DatabaseService_new_def Impl_new_def)
  next
    case (Query i q)
    with Pair show ?thesis
      by (cases "i < length vs"; cases "vs ! i") (simp_all add: execute_query_def impl_execute_def map_update)
  next
    case (Own oop)
    with Pair show ?thesis
      by (cases oop) (auto simp: DatabaseService_class_def DatabaseService_move_def DatabaseService_move_assign_def
          DatabaseService_self_assign_def DatabaseService_destroy_def map_update list_update_beyond)
  qed
qed

lemma service_run_refines: "map_option seen (service_run ops vc) = results_run ops (seen vc)"
proof (induction ops arbitrary: vc)
  case (Cons op ops)
  have st: "results_step op (seen vc) = map_option seen (service_step op vc)" by (rule service_step_refines [symmetric])
  show ?case using Cons.IH by (cases "service_step op vc") (simp_all add: st)
qed simp

text \<open>C40. The service keeps its promise under any sequence of constructions, queries, moves,
  assignments and destructions of its variables: each variable's results are those of the
  queries made to the service it holds, in order, wherever the service has been moved, and
  the program is undefined exactly when a query goes to a variable that holds none; when the
  program ends, every connection that was made has been closed exactly once.\<close>

theorem service_refines:
  "map_option (\<lambda>vc. (map fetch_results (fst vc), length (closings (destroy_all DatabaseService_class vc))))
     (service_run ops ([], [])) = map_option (\<lambda>rs. (rs, connects ops)) (results_run ops [])"
proof -
  have seen: "results_run ops [] = map_option seen (service_run ops ([], []))"
    using service_run_refines [of ops "([], [])"] by simp
  show ?thesis
    unfolding seen by (cases "service_run ops ([], [])") (simp_all add: services_closed_once)
qed

lemma pimpl_main_output:
  "main_out = Some [''Pimpl example: hiding implementation details.'',
     ''Impl: connecting to database: postgresql://localhost:5432/mydb'',
     ''Impl: executing query: SELECT * FROM users'', ''Impl: executing query: SELECT COUNT(*) FROM orders'',
     ''  result: result for: SELECT * FROM users'', ''  result: result for: SELECT COUNT(*) FROM orders'',
     ''Note: changing Impl'' @ [CHR 0x27] @ ''s internals doesn'' @ [CHR 0x27] @ ''t require recompiling this main.cpp.'',
     ''Impl: closing database connection'']"
  by code_simp

end
