(* ===== verification/Spec2Isabelle.thy ===== *)
theory Spec2Isabelle
  imports ConsoleLock BoundedQueueEnds ThreadPoolEnds FuturesProgram ReactorProgram RuleOfFive Connection AbstractFactory Proxy
    Facade CacheService Flyweight Command Composite Strategy Bridge CacheKey Raii SmartPointers Visitor
    Observer Adapter Decorator TypeErasure FactoryMethod Pimpl
begin

text \<open>
  A verification library for the backend pattern examples of this repository: twenty-five C++
  programs under \<^verbatim>\<open>src/examples/\<close>, each one file \<^verbatim>\<open><example>/main.cpp\<close> (the Pimpl example has
  \<^verbatim>\<open>database_service.h\<close> and \<^verbatim>\<open>database_service.cpp\<close> beside it), which share only the console
  function \<^verbatim>\<open>log_line\<close> of \<^verbatim>\<open>common/log.h\<close>. The programs do not call each other; what they
  have in common, the console, exceptions, threads with a mutex and condition variables, and
  caches that are read through, is stated once and used by the theories that need it.

  \<^bold>\<open>Shared theories.\<close> \<open>Prelude\<close>: the console as the list of lines written so far and \<open>log_line\<close>,
  decimal output (\<open>show_int\<close>) and that it can be read back, the exceptions with their
  \<^verbatim>\<open>what()\<close>, and lemmas on lists and maps. \<open>ConsoleLock\<close>: \<open>log_line\<close> action by
  action under its mutex, which refines the atomic one. \<open>Concurrency\<close>: threads as a map from thread ids to
  positions, counting threads, \<^verbatim>\<open>notify_one\<close> and \<^verbatim>\<open>notify_all\<close>, and the locale
  \<open>wakeup_protocol\<close>, from whose laws no notification is lost. \<open>CacheStore\<close>: the locale
  \<open>cache_store\<close> (what a lookup returns after an insertion) and its extension \<open>read_through\<close>
  (a client that asks the cache, then a source), with what any sequence of lookups answers,
  leaves in the cache and asks of the source. \<open>Ownership\<close>: move-only classes as records of their
  special members, and the locale \<open>exclusive_owner\<close>, under which what is owned and what has been
  released is conserved by any moves, assignments and destructions; \<open>UniqueFd\<close>, \<open>FileHandle\<close> and
  \<open>DatabaseService\<close> are its interpretations.

  \<^bold>\<open>Programs with threads.\<close> Each critical section, notification or unlocked action is one rule
  of an inductive step relation, and a theorem about the program is a theorem about every run,
  that is every interleaving.
  \<^item> \<open>BoundedQueue\<close> (\<^verbatim>\<open>bounded_queue\<close>): the queue under any client. Capacity bound, first-in
    first-out order, refinement of the sequential queue, no lost notification.
    \<open>BoundedQueueDemo\<close>: the producers, consumers and \<^verbatim>\<open>main\<close>; the result and absence of
    deadlock. \<open>BoundedQueueRun\<close>: an executable scheduler that is sound for the relation,
    which evaluates the witnesses. \<open>BoundedQueueEnds\<close>: the number of actions is bounded by the
    requests, the threads and the spurious wake-ups; total correctness.
  \<^item> \<open>ThreadPool\<close> (\<^verbatim>\<open>thread_pool\<close>): the pool under any client, with any callable that returns or
    throws. Order of jobs, what the destructor leaves, progress. \<open>ThreadPoolDemo\<close>: \<^verbatim>\<open>main\<close>, its
    checksum and absence of deadlock. \<open>ThreadPoolRun\<close>: its scheduler and witnesses.
    \<open>ThreadPoolEnds\<close>: the same bound, both ways the program can end; total correctness.
  \<^item> \<open>FuturesPromises\<close> (\<^verbatim>\<open>futures_promises\<close>): the race of any number of lookups. It ends, and the
    promise is set once, to a success if there is one. \<open>FuturesProgram\<close>: \<^verbatim>\<open>main\<close>, the two threads of
    each user and what is printed.
  \<^item> \<open>Reactor\<close> (\<^verbatim>\<open>reactor\<close>): \<open>UniqueFd\<close> with all its operations, the framed messages and the poll
    loop. The kernel is a parameter (the locale \<open>byte_sink\<close> for short writes, the bytes of each
    pipe with the end of file or a failing \<^verbatim>\<open>read\<close>, the list of poll results, failures included);
    delivery and the exceptions of the loop in general; termination and the double close when no
    call fails. \<open>ReactorProgram\<close>: \<^verbatim>\<open>main\<close>, both writer threads and bounded pipes in every
    interleaving, where \<^verbatim>\<open>poll\<close> reports what the pipes hold and the calls do not fail.

  \<^bold>\<open>Ownership and memory.\<close> \<open>RuleOfFive\<close> (\<^verbatim>\<open>rule_of_0_5\<close>): an explicit heap with undefined
  behaviour as an outcome, the special members of \<open>Arena\<close>, and the wrap-around of its bounds
  check. \<open>Raii\<close> (\<^verbatim>\<open>raii\<close>): the file handle on every path and under moves. \<open>SmartPointers\<close>
  (\<^verbatim>\<open>smart_pointers\<close>): a memory of control blocks, in which requests give back
  every reference they take. \<open>Flyweight\<close> (\<^verbatim>\<open>flyweight\<close>): shared role objects as
  pointers into the objects made. \<open>Pimpl\<close> (\<^verbatim>\<open>pimpl\<close>): the service refines the
  results its users see, through any moves, and each connection made is closed once.

  \<^bold>\<open>State, caches and data.\<close> \<open>Connection\<close> (\<^verbatim>\<open>state\<close>): the connection refines an abstract protocol.
  \<open>AbstractFactory\<close>, \<open>Proxy\<close> and \<open>Facade\<close>: three clients of \<open>CacheStore\<close>, each by an
  interpretation of \<open>read_through\<close>; what a factory makes is of one family, a recording client
  shows the calls of the repository to its database, and the batch of the facade equals its
  single lookups.
  \<open>CacheService\<close> (\<^verbatim>\<open>nvi\<close>): the validating base class over any hooks (locale \<open>storing_hooks\<close>).
  \<open>Command\<close> (\<^verbatim>\<open>command\<close>): the retry loop over any command, and the client's own commands
  (locale \<open>connected_command\<close>).

  \<^bold>\<open>Interfaces and formats.\<close> \<open>Composite\<close> (\<^verbatim>\<open>composite\<close>): the routing tree equals its flat table
  (locale \<open>responder\<close>). \<open>Strategy\<close> (\<^verbatim>\<open>strategy\<close>): the router over any strategy (locale
  \<open>routing_strategy\<close>), fairness and balance of the two strategies as long as the counter does not
  wrap and the loads stay in the range of an int. \<open>Bridge\<close> (\<^verbatim>\<open>bridge\<close>):
  loggers over any sink (locale \<open>line_sink\<close>) and a reader of the JSON lines. \<open>CacheKey\<close>
  (\<^verbatim>\<open>traits_tag_dispatch\<close>): cache keys as bytes, and a reader of their hexadecimal form that is
  given the types of the parts.
  \<open>Decorator\<close> (\<^verbatim>\<open>decorator\<close>): stacks of decorators keep the contract \<open>request_handler\<close> and are
  the handler inside between the lines of the layers. \<open>Visitor\<close> (\<^verbatim>\<open>visitor\<close>): the messages, their
  visitors and a reader of the serialized form.
  \<open>Observer\<close> (\<^verbatim>\<open>observer\<close>): the dispatcher with its type-erased map, under handlers that publish and
  subscribe themselves. \<open>Adapter\<close>, \<open>TypeErasure\<close>, \<open>FactoryMethod\<close>: the examples of these names.

  \<^bold>\<open>How the code is read.\<close> A class is a record and its virtual functions are functions by cases
  on a datatype of the classes, or a record of functions where the class may be any; a
  reference that is mutated is state passed and returned; a pointer is an address or an index,
  with an explicit store, where sharing or lifetime is the point, and the object itself where
  it has one owner. An exception is \<open>Inl\<close> of a result, undefined behaviour is \<open>None\<close> or the
  outcome \<open>Undefined\<close>. Machine words are used where wrap-around matters (the sizes of the
  arena, the counter of the round robin, the bits of poll, the bytes of keys); \<^verbatim>\<open>int\<close> values
  that are only compared, counted and printed are integers, for the arithmetic of
  \<open>expensive_parse\<close> the absence of overflow is proved, and a load of the router that would leave
  the range of an \<^verbatim>\<open>int\<close> makes its request undefined (\<open>add_int\<close>). The output of every deterministic
  \<^verbatim>\<open>main\<close> is a definition, most of them evaluated in a lemma named after the example.

  \<^bold>\<open>Fuel.\<close> No function needs fuel: the loops are structural recursions, recursions with a
  measure (\<open>retry_from\<close>, \<open>show_nat\<close>, \<open>read_fields\<close>), or, for the event loop of the reactor,
  recursion on the list of poll results, and \<open>reactor_ends\<close> says which lists are long enough. Runs
  of the whole programs recurse on their schedule. \<open>write_message\<close> and \<open>run_tasks\<close>, which need not
  end in general, are partial functions, and that they return is proved where they do.

  \<^bold>\<open>Not modelled.\<close> Time (\<^verbatim>\<open>sleep_for\<close> does nothing; the clocks of the bridge and decorator are
  parameters, and a timed wait may end at any point); the operating system beyond the answers
  of the calls the programs make; failing calls in the program of the reactor as a whole
  (\<open>Reactor\<close> has them for the loop and for the writers apart); allocation failure outside the arena; the destruction of
  values that own nothing; callables that use the pool they run in, which the examples do not
  have; the build files. Every function that does more than store or return a member has a definition here; what has
  none are such members and declarations without behaviour (pure virtual functions, deleted copies).

  \<^bold>\<open>Properties.\<close> C1 to C5 bounded queue, C6 to C10 thread pool, C11 and C12 futures, C13, C14,
  C16 and C17 reactor, C15 observer, C18 smart pointers, C19 to C21 arena, C22 console, C23 and
  C24 connection, C25 to C29 caches and flyweight, C30 and C31 commands, C32 routing tree, C33
  and C34 strategies, C35 JSON lines, C36 cache keys, C37 messages, C38 decorators, C39 file
  handles, C40 services. Each stands in the theory of its component, under its id, with its
  witness after it or at the end of that theory or of the one that runs the program.
\<close>

end
